(* ===== verification/Prelude.thy ===== *)
theory Prelude
  imports Main "HOL-Library.Word" "HOL-Library.List_Lexorder" "HOL-Library.Product_Lexorder"
begin

text \<open>
  Shared vocabulary of the development: the machine types of the Rust sources, results with
  explicit errors, big-endian byte strings, slices and Rust's integer helpers.

  \<^item> \<open>byte\<close>, \<open>u64\<close>, \<open>u256\<close> are words of the width the source declares.  The release profile of
    the workspace leaves overflow checks off, so plain \<open>+\<close>, \<open>-\<close>, \<open>*\<close> wrap, as on words.
  \<^item> Fixed byte arrays (\<open>B256\<close>, \<open>Address\<close>) are byte lists; where their length matters it is a
    hypothesis or a lemma.
  \<^item> \<open>Result<T, E>\<close> is the sum type \<open>'e + 'a\<close>; \<open>rbind\<close> is the \<open>?\<close> operator.
\<close>

type_synonym byte = "8 word"
type_synonym u32 = "32 word"
type_synonym u64 = "64 word"
type_synonym u256 = "256 word"
type_synonym bytes = "byte list"
type_synonym b256 = "byte list"
type_synonym address = "byte list"

named_theorems result_simps "unfolding of the error-carrying result type"
named_theorems be_simps "big-endian byte strings"
named_theorems eval_simps "definitions unfolded to evaluate the model on a concrete input"

lemma unat_bound: "unat (w :: 'a::len word) < 2 ^ LENGTH('a)"
  by (rule unsigned_less)

lemma word_of_nat_unat [simp]: "word_of_nat (unat w) = (w :: 'a::len word)"
  by (simp add: unsigned_of_nat word_unat_eq_iff)

section \<open>Results\<close>

definition rbind :: "'e + 'a \<Rightarrow> ('a \<Rightarrow> 'e + 'b) \<Rightarrow> 'e + 'b" where
  "rbind r f = (case r of Inl e \<Rightarrow> Inl e | Inr x \<Rightarrow> f x)"

definition ok_or :: "'e \<Rightarrow> 'a option \<Rightarrow> 'e + 'a" where
  "ok_or e x = (case x of None \<Rightarrow> Inl e | Some v \<Rightarrow> Inr v)"

definition map_err :: "('e \<Rightarrow> 'f) \<Rightarrow> 'e + 'a \<Rightarrow> 'f + 'a" where
  "map_err f r = (case r of Inl e \<Rightarrow> Inl (f e) | Inr x \<Rightarrow> Inr x)"

lemma rbind_simps [simp]:
  "rbind (Inl e) f = Inl e" "rbind (Inr x) f = f x"
  by (simp_all add: rbind_def)

lemma ok_or_simps [simp]:
  "ok_or e None = Inl e" "ok_or e (Some v) = Inr v"
  by (simp_all add: ok_or_def)

lemma map_err_simps [simp]:
  "map_err f (Inl e) = Inl (f e)" "map_err f (Inr x) = Inr x"
  by (simp_all add: map_err_def)

lemma rbind_eq_Inr [result_simps]: "rbind r f = Inr y \<longleftrightarrow> (\<exists>x. r = Inr x \<and> f x = Inr y)"
  by (cases r) auto

lemma rbind_eq_Inl [result_simps]:
  "rbind r f = Inl e \<longleftrightarrow> r = Inl e \<or> (\<exists>x. r = Inr x \<and> f x = Inl e)"
  by (cases r) auto

lemma ok_or_eq_Inr [result_simps]: "ok_or e x = Inr v \<longleftrightarrow> x = Some v"
  by (cases x) auto

lemma ok_or_eq_Inl [result_simps]: "ok_or e x = Inl d \<longleftrightarrow> x = None \<and> d = e"
  by (cases x) auto

lemma map_err_eq_Inr [result_simps]: "map_err f r = Inr v \<longleftrightarrow> r = Inr v"
  by (cases r) auto

lemma map_err_eq_Inl [result_simps]: "map_err f r = Inl d \<longleftrightarrow> (\<exists>e. r = Inl e \<and> d = f e)"
  by (cases r) auto

lemma rbind_cong [fundef_cong]:
  "r = r' \<Longrightarrow> (\<And>x. r' = Inr x \<Longrightarrow> f x = g x) \<Longrightarrow> rbind r f = rbind r' g"
  by (cases r') auto

text \<open>Evaluation of a chain of \<open>?\<close>: the continuation is unfolded only once its input is known.\<close>

lemma rbind_weak_cong: "r = r' \<Longrightarrow> rbind r f = rbind r' f"
  by simp

text \<open>
  \<open>iter().map(f).collect::<Result<Vec<_>, _>>()\<close> and the order-preserving
  \<open>buffered(..).try_collect()\<close>: every element in order, or the first error.
\<close>

fun try_map :: "('a \<Rightarrow> 'e + 'b) \<Rightarrow> 'a list \<Rightarrow> 'e + 'b list" where
  "try_map f [] = Inr []"
| "try_map f (x # xs) = rbind (f x) (\<lambda>y. rbind (try_map f xs) (\<lambda>ys. Inr (y # ys)))"

lemma try_map_Inr_iff: "try_map f xs = Inr ys \<longleftrightarrow> list_all2 (\<lambda>x y. f x = Inr y) xs ys"
  by (induction xs arbitrary: ys) (auto simp: result_simps list_all2_Cons1)

lemma try_map_length: "try_map f xs = Inr ys \<Longrightarrow> length ys = length xs"
  by (simp add: try_map_Inr_iff list_all2_lengthD)

lemma try_map_nth: "try_map f xs = Inr ys \<Longrightarrow> i < length xs \<Longrightarrow> f (xs ! i) = Inr (ys ! i)"
  by (simp add: try_map_Inr_iff list_all2_conv_all_nth)

lemma try_map_all: "(\<And>x. x \<in> set xs \<Longrightarrow> f x = Inr (g x)) \<Longrightarrow> try_map f xs = Inr (map g xs)"
  by (induction xs) auto

section \<open>Slices\<close>

text \<open>\<open>xs[i..j]\<close> inside its bounds, and \<open>xs.get(i..j)\<close> with its bounds check.\<close>

definition slice :: "nat \<Rightarrow> nat \<Rightarrow> 'a list \<Rightarrow> 'a list" where
  "slice i j xs = take (j - i) (drop i xs)"

definition get_range :: "'a list \<Rightarrow> nat \<Rightarrow> nat \<Rightarrow> 'a list option" where
  "get_range xs i j = (if i \<le> j \<and> j \<le> length xs then Some (slice i j xs) else None)"

lemma length_slice [simp]: "j \<le> length xs \<Longrightarrow> length (slice i j xs) = j - i"
  by (auto simp: slice_def)

lemma slice_append_left: "j \<le> length xs \<Longrightarrow> slice i j (xs @ ys) = slice i j xs"
  by (simp add: slice_def)

lemma slice_append_right:
  "length xs \<le> i \<Longrightarrow> slice i j (xs @ ys) = slice (i - length xs) (j - length xs) ys"
  by (simp add: slice_def)

lemma slice_all: "slice 0 (length xs) xs = xs"
  by (simp add: slice_def)

lemma get_range_Some_iff:
  "get_range xs i j = Some ys \<longleftrightarrow> i \<le> j \<and> j \<le> length xs \<and> ys = slice i j xs"
  by (auto simp: get_range_def)

lemma get_range_length: "get_range xs i j = Some ys \<Longrightarrow> length ys = j - i"
  by (auto simp: get_range_def split: if_splits)

lemma length_concat_const: "(\<And>x. x \<in> set xs \<Longrightarrow> length x = k) \<Longrightarrow> length (concat xs) = length xs * k"
  by (induction xs) auto

section \<open>Big-endian byte strings\<close>

definition be_nat :: "bytes \<Rightarrow> nat" where
  "be_nat bs = foldl (\<lambda>n b. n * 256 + unat b) 0 bs"

fun nat_be :: "nat \<Rightarrow> nat \<Rightarrow> bytes" where
  "nat_be 0 n = []"
| "nat_be (Suc k) n = nat_be k (n div 256) @ [word_of_nat n]"

text \<open>\<open>u64::from_be_bytes\<close>, \<open>u64::to_be_bytes\<close>, \<open>U256::from_be_slice\<close>, \<open>U256::to_be_bytes::<32>\<close>.\<close>

definition u64_of_be :: "bytes \<Rightarrow> u64" where
  "u64_of_be bs = word_of_nat (be_nat bs)"

definition u64_to_be :: "u64 \<Rightarrow> bytes" where
  "u64_to_be w = nat_be 8 (unat w)"

definition u256_of_be :: "bytes \<Rightarrow> u256" where
  "u256_of_be bs = word_of_nat (be_nat bs)"

definition u256_to_be :: "u256 \<Rightarrow> bytes" where
  "u256_to_be w = nat_be 32 (unat w)"

lemma be_nat_Nil [simp]: "be_nat [] = 0"
  by (simp add: be_nat_def)

lemma be_nat_snoc [simp]: "be_nat (bs @ [b]) = be_nat bs * 256 + unat b"
  by (simp add: be_nat_def)

lemma be_nat_less: "be_nat bs < 256 ^ length bs"
proof (induction bs rule: rev_induct)
  case Nil
  then show ?case by simp
next
  case (snoc b bs)
  have "unat b < 256" using unat_bound [of b] by simp
  with snoc show ?case by simp
qed

lemma length_nat_be [simp]: "length (nat_be k n) = k"
  by (induction k n rule: nat_be.induct) auto

lemma unat_byte_of_nat: "unat (word_of_nat n :: byte) = n mod 256"
  by (simp add: unat_of_nat)

lemma be_nat_nat_be [be_simps]: "be_nat (nat_be k n) = n mod 256 ^ k"
proof (induction k n rule: nat_be.induct)
  case (1 n)
  then show ?case by simp
next
  case (2 k n)
  have "n mod (256 * 256 ^ k) = n div 256 mod 256 ^ k * 256 + n mod 256"
    using mod_mult2_eq [of n 256 "256 ^ k"] by (simp add: ac_simps)
  with 2 show ?case by (simp add: unat_byte_of_nat)
qed

lemma byte_256 [simp]: "(256 :: byte) = 0"
  using word_of_nat_eq_0_iff [of 256, where 'a = 8] by simp

lemma nat_be_be_nat [be_simps]: "length bs = k \<Longrightarrow> nat_be k (be_nat bs) = bs"
proof (induction bs arbitrary: k rule: rev_induct)
  case Nil
  then show ?case by simp
next
  case (snoc b bs)
  have "unat b < 256" using unat_bound [of b] by simp
  then have "(be_nat bs * 256 + unat b) div 256 = be_nat bs" by simp
  with snoc show ?case by auto
qed

lemma length_u64_to_be [simp]: "length (u64_to_be w) = 8"
  by (simp add: u64_to_be_def)

lemma length_u256_to_be [simp]: "length (u256_to_be w) = 32"
  by (simp add: u256_to_be_def)

lemma u64_of_to_be [simp]: "u64_of_be (u64_to_be w) = w"
proof -
  have "unat w < 256 ^ 8" using unat_bound [of w] by simp
  then show ?thesis by (simp add: u64_of_be_def u64_to_be_def be_nat_nat_be)
qed

lemma u256_of_to_be [simp]: "u256_of_be (u256_to_be w) = w"
proof -
  have "unat w < 2 ^ 256" using unat_bound [of w] by simp
  moreover have "(256::nat) ^ 32 = 2 ^ 256" by simp
  ultimately show ?thesis by (simp add: u256_of_be_def u256_to_be_def be_nat_nat_be)
qed

lemma unat_u64_of_be: "length bs \<le> 8 \<Longrightarrow> unat (u64_of_be bs) = be_nat bs"
proof -
  assume "length bs \<le> 8"
  then have "(256::nat) ^ length bs \<le> 256 ^ 8" by (intro power_increasing) auto
  with be_nat_less [of bs] have "be_nat bs < 2 ^ 64" by simp
  then show ?thesis by (simp add: u64_of_be_def unat_of_nat)
qed

lemma u64_to_of_be: "length bs = 8 \<Longrightarrow> u64_to_be (u64_of_be bs) = bs"
  by (simp add: u64_to_be_def unat_u64_of_be nat_be_be_nat)

lemma u64_to_be_inject [simp]: "u64_to_be v = u64_to_be w \<longleftrightarrow> v = w"
  by (metis u64_of_to_be)

lemma u256_to_be_inject [simp]: "u256_to_be v = u256_to_be w \<longleftrightarrow> v = w"
  by (metis u256_of_to_be)

text \<open>Decimal rendering of an unsigned integer.\<close>

fun dec :: "nat \<Rightarrow> string" where
  "dec n = (if n < 10 then [char_of (48 + n)] else dec (n div 10) @ [char_of (48 + n mod 10)])"

declare dec.simps [simp del]

section \<open>Integer helpers\<close>

definition sat_sub :: "u64 \<Rightarrow> u64 \<Rightarrow> u64" where
  "sat_sub a b = (if a < b then 0 else a - b)"

definition checked_add64 :: "u64 \<Rightarrow> u64 \<Rightarrow> u64 option" where
  "checked_add64 a b = (if unat a + unat b < 2 ^ 64 then Some (a + b) else None)"

definition checked_sub64 :: "u64 \<Rightarrow> u64 \<Rightarrow> u64 option" where
  "checked_sub64 a b = (if b \<le> a then Some (a - b) else None)"

abbreviation u64_max :: u64 where
  "u64_max \<equiv> - 1"

lemma unat_sat_sub: "unat (sat_sub a b) = unat a - unat b"
  by (auto simp: sat_sub_def unat_sub word_less_nat_alt not_less word_le_nat_alt)

lemma unat_Suc_less: "(a :: u64) < b \<Longrightarrow> unat (a + 1) = Suc (unat a)"
proof -
  assume "a < b"
  then have "unat a + 1 < 2 ^ 64"
    using unat_bound [of b] by (simp add: word_less_nat_alt)
  then show ?thesis by (simp add: unat_word_ariths)
qed

lemma less_imp_Suc_le: "(a :: u64) < b \<Longrightarrow> a + 1 \<le> b"
  by (simp add: word_le_nat_alt word_less_nat_alt unat_Suc_less)

lemma checked_add64_Some:
  "checked_add64 a b = Some c \<longleftrightarrow> unat c = unat a + unat b"
proof
  assume "checked_add64 a b = Some c"
  then show "unat c = unat a + unat b"
    by (auto simp: checked_add64_def unat_word_ariths split: if_splits)
next
  assume c: "unat c = unat a + unat b"
  with unat_bound [of c] have "unat a + unat b < 2 ^ 64" by simp
  moreover from this c have "unat c = unat (a + b)" by (simp add: unat_word_ariths)
  ultimately show "checked_add64 a b = Some c" by (simp add: checked_add64_def word_unat_eq_iff)
qed

text \<open>The range \<open>lo..hi\<close> of \<open>u64\<close> values, as Rust iterates it.\<close>

definition u64_range :: "u64 \<Rightarrow> u64 \<Rightarrow> u64 list" where
  "u64_range lo hi = map word_of_nat [unat lo..<unat hi]"

lemma unat_word_of_nat_less: "n < unat (b :: u64) \<Longrightarrow> unat (word_of_nat n :: u64) = n"
  using unat_bound [of b] by (simp add: unat_of_nat)

lemma set_u64_range [simp]: "set (u64_range lo hi) = {lo..<hi}"
proof -
  have "x \<in> word_of_nat ` {unat lo..<unat hi} \<longleftrightarrow> lo \<le> x \<and> x < hi" for x :: u64
  proof
    assume "x \<in> word_of_nat ` {unat lo..<unat hi}"
    then show "lo \<le> x \<and> x < hi"
      by (auto simp: word_le_nat_alt word_less_nat_alt unat_word_of_nat_less)
  next
    assume "lo \<le> x \<and> x < hi"
    then have "unat x \<in> {unat lo..<unat hi}"
      by (simp add: word_le_nat_alt word_less_nat_alt)
    then show "x \<in> word_of_nat ` {unat lo..<unat hi}"
      by (metis image_eqI word_of_nat_unat)
  qed
  then show ?thesis by (simp add: u64_range_def set_eq_iff)
qed

lemma upt_append: "i \<le> j \<Longrightarrow> j \<le> k \<Longrightarrow> [i..<j] @ [j..<k] = [i..<k]"
  using upt_add_eq_append [of i j "k - j"] by simp

lemma length_u64_range [simp]: "length (u64_range lo hi) = unat hi - unat lo"
  by (simp add: u64_range_def)

lemma u64_range_empty [simp]: "hi \<le> lo \<Longrightarrow> u64_range lo hi = []"
  by (simp add: u64_range_def word_le_nat_alt)

lemma u64_range_rec: "lo < hi \<Longrightarrow> u64_range lo hi = lo # u64_range (lo + 1) hi"
  by (simp add: u64_range_def upt_conv_Cons word_less_nat_alt unat_Suc_less)

lemma u64_range_snoc: "a \<le> b \<Longrightarrow> b < c \<Longrightarrow> u64_range a (b + 1) = u64_range a b @ [b]"
  by (simp add: u64_range_def word_le_nat_alt unat_Suc_less)

lemma u64_range_append:
  "a \<le> b \<Longrightarrow> b \<le> c \<Longrightarrow> u64_range a b @ u64_range b c = u64_range a c"
  by (simp add: u64_range_def word_le_nat_alt upt_append flip: map_append)

lemma unat_minus_1: "unat (- 1 :: 'a::len word) = 2 ^ LENGTH('a) - 1"
  by (simp add: unsigned_minus_1_eq_mask mask_eq_exp_minus_1)

lemma unat_u64_max: "unat u64_max = 2 ^ 64 - 1"
  by (simp add: unat_minus_1)

end
