(* ===== verification/L2_Message.thy ===== *)
theory L2_Message
  imports Prelude
begin

text \<open>
  \<open>crates/arb-reth-derive/src/l2message.rs\<close>: the signed transactions inside an L2 message.  A batch
  sub-message nests; \<open>parse_into\<close> and the loop \<open>parse_batch\<close> over its parts are mutually
  recursive and end because every part is shorter than its batch.  \<open>brotli\<close> is a parameter.

  The specification is a tree of sub-messages with its wire form \<open>encode_l2\<close>.
\<close>

section \<open>The parser\<close>

definition L2_UNSIGNED_USER_TX :: byte where
  "L2_UNSIGNED_USER_TX = 0"

definition L2_CONTRACT_TX :: byte where
  "L2_CONTRACT_TX = 1"

definition L2_BATCH :: byte where
  "L2_BATCH = 3"

definition L2_SIGNED_TX :: byte where
  "L2_SIGNED_TX = 4"

definition L2_SIGNED_COMPRESSED_TX :: byte where
  "L2_SIGNED_COMPRESSED_TX = 7"

lemmas l2_kind_defs = L2_UNSIGNED_USER_TX_def L2_CONTRACT_TX_def L2_BATCH_def L2_SIGNED_TX_def
  L2_SIGNED_COMPRESSED_TX_def

definition L2_MAX_MESSAGE_SIZE :: u64 where
  "L2_MAX_MESSAGE_SIZE = 262144"

definition MAX_BATCH_DEPTH :: nat where
  "MAX_BATCH_DEPTH = 16"

datatype L2ParseError = BatchTooDeep | L2Brotli

record ParsedL2 =
  signed_txs :: "bytes list"
  unsigned_count :: nat

definition ParsedL2_default :: ParsedL2 where
  "ParsedL2_default = \<lparr> signed_txs = [], unsigned_count = 0 \<rparr>"

definition tx_hashes :: "(bytes \<Rightarrow> b256) \<Rightarrow> ParsedL2 \<Rightarrow> b256 list" where
  "tx_hashes keccak p = map keccak (signed_txs p)"

function parse_into :: "(bytes \<Rightarrow> bytes option) \<Rightarrow> bytes \<Rightarrow> nat \<Rightarrow> ParsedL2 \<Rightarrow> L2ParseError + ParsedL2"
  and parse_batch :: "(bytes \<Rightarrow> bytes option) \<Rightarrow> bytes \<Rightarrow> nat \<Rightarrow> ParsedL2 \<Rightarrow> L2ParseError + ParsedL2" where
  "parse_into brotli data depth out =
     (case data of
        [] \<Rightarrow> Inr out
      | kind # body \<Rightarrow>
          if kind = L2_SIGNED_TX then Inr (out\<lparr>signed_txs := signed_txs out @ [body]\<rparr>)
          else if kind = L2_SIGNED_COMPRESSED_TX then
            (case brotli body of
               None \<Rightarrow> Inl L2Brotli
             | Some tx \<Rightarrow> Inr (out\<lparr>signed_txs := signed_txs out @ [tx]\<rparr>))
          else if kind = L2_BATCH then
            (if depth \<ge> MAX_BATCH_DEPTH then Inl BatchTooDeep else parse_batch brotli body depth out)
          else if kind = L2_UNSIGNED_USER_TX \<or> kind = L2_CONTRACT_TX then
            Inr (out\<lparr>unsigned_count := unsigned_count out + 1\<rparr>)
          else Inr out)"
| "parse_batch brotli rd depth out =
     (if length rd < 8 then Inr out
      else let len = u64_of_be (take 8 rd); rd' = drop 8 rd in
        if len > L2_MAX_MESSAGE_SIZE \<or> unat len > length rd' then Inr out
        else rbind (parse_into brotli (take (unat len) rd') (depth + 1) out)
               (\<lambda>out'. parse_batch brotli (drop (unat len) rd') depth out'))"
  by pat_completeness auto

termination
  by (relation "measure (case_sum (\<lambda>(brotli, data, depth, out). 2 * length data)
                                   (\<lambda>(brotli, rd, depth, out). 2 * length rd + 1))")
     auto

declare parse_into.simps [simp del] parse_batch.simps [simp del]

definition parse_l2_message :: "(bytes \<Rightarrow> bytes option) \<Rightarrow> bytes \<Rightarrow> L2ParseError + ParsedL2" where
  "parse_l2_message brotli data = parse_into brotli data 0 ParsedL2_default"

section \<open>Sub-message trees\<close>

datatype l2_tree =
    Signed bytes
  | Compressed bytes bytes
  | Unsigned bool bytes
  | Nested "l2_tree list"

text \<open>\<open>Compressed z tx\<close> stands for the compressed bytes \<open>z\<close> of the transaction \<open>tx\<close>.\<close>

fun encode_l2 :: "l2_tree \<Rightarrow> bytes" where
  "encode_l2 (Signed tx) = L2_SIGNED_TX # tx"
| "encode_l2 (Compressed z tx) = L2_SIGNED_COMPRESSED_TX # z"
| "encode_l2 (Unsigned contract body) = (if contract then L2_CONTRACT_TX else L2_UNSIGNED_USER_TX) # body"
| "encode_l2 (Nested ts) =
     L2_BATCH # concat (map (\<lambda>t. u64_to_be (word_of_nat (length (encode_l2 t))) @ encode_l2 t) ts)"

fun l2_txs :: "l2_tree \<Rightarrow> bytes list" where
  "l2_txs (Signed tx) = [tx]"
| "l2_txs (Compressed z tx) = [tx]"
| "l2_txs (Unsigned contract body) = []"
| "l2_txs (Nested ts) = concat (map l2_txs ts)"

fun l2_unsigned :: "l2_tree \<Rightarrow> nat" where
  "l2_unsigned (Signed tx) = 0"
| "l2_unsigned (Compressed z tx) = 0"
| "l2_unsigned (Unsigned contract body) = 1"
| "l2_unsigned (Nested ts) = sum_list (map l2_unsigned ts)"

text \<open>How deep batches nest, and a tree whose parts fit and whose compressed parts decompress.\<close>

fun l2_depth :: "l2_tree \<Rightarrow> nat" where
  "l2_depth (Nested ts) = Suc (fold max (map l2_depth ts) 0)"
| "l2_depth t = 0"

fun l2_fits :: "(bytes \<Rightarrow> bytes option) \<Rightarrow> l2_tree \<Rightarrow> bool" where
  "l2_fits brotli (Compressed z tx) \<longleftrightarrow> brotli z = Some tx"
| "l2_fits brotli (Nested ts) \<longleftrightarrow>
     (\<forall>t \<in> set ts. l2_fits brotli t \<and> length (encode_l2 t) \<le> 262144)"
| "l2_fits brotli t \<longleftrightarrow> True"

definition l2_result :: "l2_tree list \<Rightarrow> ParsedL2 \<Rightarrow> ParsedL2" where
  "l2_result ts out =
     out\<lparr>signed_txs := signed_txs out @ concat (map l2_txs ts),
         unsigned_count := unsigned_count out + sum_list (map l2_unsigned ts)\<rparr>"

lemma l2_result_Nil [simp]: "l2_result [] out = out"
  by (simp add: l2_result_def)

lemma l2_result_Cons: "l2_result ts (l2_result [t] out) = l2_result (t # ts) out"
  by (simp add: l2_result_def)

lemma fold_max_le: "fold max xs (a :: nat) \<le> n \<longleftrightarrow> a \<le> n \<and> (\<forall>x \<in> set xs. x \<le> n)"
  by (induction xs arbitrary: a) auto

text \<open>The length prefix of a part is read back and passes the size guard.\<close>

lemma parse_batch_part:
  assumes "length part \<le> 262144"
  shows "parse_batch brotli (u64_to_be (word_of_nat (length part)) @ part @ rest) depth out =
    rbind (parse_into brotli part (depth + 1) out) (\<lambda>out'. parse_batch brotli rest depth out')"
proof -
  have "unat (word_of_nat (length part) :: u64) = length part"
    using assms by (simp add: unat_of_nat)
  with assms show ?thesis
    by (subst parse_batch.simps) (simp add: Let_def L2_MAX_MESSAGE_SIZE_def word_less_nat_alt)
qed

lemma parse_batch_parts:
  assumes "\<And>t out. t \<in> set ts \<Longrightarrow> parse_into brotli (encode_l2 t) (depth + 1) out = Inr (l2_result [t] out)"
    and "\<forall>t \<in> set ts. length (encode_l2 t) \<le> 262144"
  shows "parse_batch brotli (concat (map (\<lambda>t. u64_to_be (word_of_nat (length (encode_l2 t))) @ encode_l2 t) ts))
           depth out = Inr (l2_result ts out)"
  using assms
proof (induction ts arbitrary: out)
  case Nil
  then show ?case by (subst parse_batch.simps) simp
next
  case (Cons t ts)
  then show ?case by (simp add: parse_batch_part l2_result_Cons)
qed

lemma parse_into_tree:
  "l2_fits brotli t \<Longrightarrow> l2_depth t + depth \<le> MAX_BATCH_DEPTH \<Longrightarrow>
   parse_into brotli (encode_l2 t) depth out = Inr (l2_result [t] out)"
proof (induction t arbitrary: depth out)
  case (Nested ts)
  have deep: "depth < MAX_BATCH_DEPTH" using Nested.prems(2) by simp
  have "parse_into brotli (encode_l2 t) (depth + 1) out' = Inr (l2_result [t] out')" if "t \<in> set ts" for t out'
  proof (rule Nested.IH [OF that])
    show "l2_fits brotli t" using Nested.prems(1) that by simp
    have "fold max (map l2_depth ts) 0 \<le> MAX_BATCH_DEPTH - Suc depth" using Nested.prems(2) by simp
    with that have "l2_depth t \<le> MAX_BATCH_DEPTH - Suc depth" by (auto simp: fold_max_le)
    with deep show "l2_depth t + (depth + 1) \<le> MAX_BATCH_DEPTH" by simp
  qed
  with Nested.prems(1) deep show ?case
    by (subst parse_into.simps)
       (simp add: parse_batch_parts l2_kind_defs, simp add: l2_result_def)
qed (subst parse_into.simps, simp add: l2_kind_defs l2_result_def)+

text \<open>C37: the wire form of a tree of sub-messages, at most 16 batches deep, parses to its signed
  transactions in order and the number of its unsigned ones.\<close>

theorem parse_encode_l2:
  assumes "l2_fits brotli t" and "l2_depth t \<le> MAX_BATCH_DEPTH"
  shows "parse_l2_message brotli (encode_l2 t) =
    Inr \<lparr> signed_txs = l2_txs t, unsigned_count = l2_unsigned t \<rparr>"
  using parse_into_tree [OF assms(1), of 0] assms(2)
  by (simp add: parse_l2_message_def l2_result_def ParsedL2_default_def)

definition wit_tree :: l2_tree where
  "wit_tree = Nested [Signed [1, 2], Nested [Unsigned True [9], Compressed [5] [6, 7]], Signed []]"

theorem parse_encode_l2_witness:
  "parse_l2_message (\<lambda>z. if z = [5] then Some [6, 7] else None) (encode_l2 wit_tree) =
     Inr \<lparr> signed_txs = [[1, 2], [6, 7], []], unsigned_count = 1 \<rparr>"
  using parse_encode_l2 [of "\<lambda>z. if z = [5] then Some [6, 7] else None" wit_tree]
  by (simp add: wit_tree_def MAX_BATCH_DEPTH_def)

text \<open>The chain of singleton batches around a tree.\<close>

fun nest :: "nat \<Rightarrow> l2_tree \<Rightarrow> l2_tree" where
  "nest 0 t = t"
| "nest (Suc n) t = Nested [nest n t]"

lemma parse_into_nest_deep:
  "l2_fits brotli (nest n (Nested ts)) \<Longrightarrow> n + depth = MAX_BATCH_DEPTH \<Longrightarrow>
   parse_into brotli (encode_l2 (nest n (Nested ts))) depth out = Inl BatchTooDeep"
proof (induction n arbitrary: depth out)
  case 0
  then show ?case by (subst parse_into.simps) (simp add: l2_kind_defs)
next
  case (Suc n)
  then have "parse_into brotli (encode_l2 (nest n (Nested ts))) (depth + 1) out = Inl BatchTooDeep"
    by (intro Suc.IH) auto
  moreover have "length (encode_l2 (nest n (Nested ts))) \<le> 262144" using Suc.prems(1) by simp
  ultimately have "parse_batch brotli
      (u64_to_be (word_of_nat (length (encode_l2 (nest n (Nested ts))))) @ encode_l2 (nest n (Nested ts)) @ [])
      depth out = Inl BatchTooDeep"
    by (subst parse_batch_part) auto
  with Suc.prems(2) show ?case by (subst parse_into.simps) (simp add: l2_kind_defs)
qed

text \<open>A batch nested inside sixteen others is refused.\<close>

lemma parse_l2_too_deep:
  assumes "l2_fits brotli (nest 16 (Nested ts))"
  shows "parse_l2_message brotli (encode_l2 (nest 16 (Nested ts))) = Inl BatchTooDeep"
  using parse_into_nest_deep [OF assms, of 0] by (simp add: parse_l2_message_def MAX_BATCH_DEPTH_def)

lemma nest_empty:
  "length (encode_l2 (nest n (Nested []))) = 9 * n + 1 \<and> (n \<le> 16 \<longrightarrow> l2_fits brotli (nest n (Nested [])))"
  by (induction n) auto

lemma parse_l2_too_deep_witness:
  "parse_l2_message Some (encode_l2 (nest 16 (Nested []))) = Inl BatchTooDeep"
  by (rule parse_l2_too_deep) (simp add: nest_empty)

end
