(* ===== verification/Batch.thy ===== *)
theory Batch
  imports Prelude
begin

text \<open>
  \<open>crates/arb-reth-derive/src/batch.rs\<close>: the 40-byte header of a sequencer batch, the data of the
  \<open>SequencerBatchDelivered\<close> event, the brotli-flagged payload and the stream of RLP segments.

  External code appears as parameters: \<open>brotli\<close> (decompression, None on error) and \<open>rlp_header\<close>
  (\<open>alloy_rlp::Header::decode\<close>: the list flag, the payload length and the buffer left after the
  header, None on error).  What the code relies on is stated by \<open>rlp_progress\<close> and \<open>rlp_encodes\<close>;
  \<open>rlp_ref_header\<close> and \<open>rlp_ref_encode\<close> are an RLP codec that satisfies both.
\<close>

section \<open>Definitions\<close>

definition BATCH_HEADER_LEN :: nat where
  "BATCH_HEADER_LEN = 40"

definition FLAG_BROTLI :: byte where
  "FLAG_BROTLI = 0x00"

definition SEG_L2_MESSAGE :: byte where
  "SEG_L2_MESSAGE = 0"

definition SEG_L2_MESSAGE_BROTLI :: byte where
  "SEG_L2_MESSAGE_BROTLI = 1"

definition SEG_DELAYED_MESSAGES :: byte where
  "SEG_DELAYED_MESSAGES = 2"

definition SEG_ADVANCE_TIMESTAMP :: byte where
  "SEG_ADVANCE_TIMESTAMP = 3"

definition SEG_ADVANCE_L1_BLOCK :: byte where
  "SEG_ADVANCE_L1_BLOCK = 4"

lemmas segment_kind_defs =
  SEG_L2_MESSAGE_def SEG_L2_MESSAGE_BROTLI_def SEG_DELAYED_MESSAGES_def
  SEG_ADVANCE_TIMESTAMP_def SEG_ADVANCE_L1_BLOCK_def

record BatchHeader =
  min_timestamp :: u64
  max_timestamp :: u64
  min_l1_block :: u64
  max_l1_block :: u64
  after_delayed_messages :: u64

text \<open>
  \<open>Stuck\<close> is not an error of the code: it stands for a segment loop that makes no progress, which
  \<open>parse_segments_not_stuck\<close> excludes.
\<close>

datatype BatchError =
    Truncated
  | UnsupportedFlag byte
  | BatchBrotli
  | BatchRlp string
  | EventDataWrongLen nat
  | Stuck

definition BatchHeader_parse :: "bytes \<Rightarrow> BatchError + (BatchHeader \<times> bytes)" where
  "BatchHeader_parse data =
     (if length data < BATCH_HEADER_LEN then Inl Truncated
      else let r = (\<lambda>off. u64_of_be (slice off (off + 8) data)) in
        Inr (\<lparr> min_timestamp = r 0, max_timestamp = r 8, min_l1_block = r 16,
               max_l1_block = r 24, after_delayed_messages = r 32 \<rparr>,
             drop BATCH_HEADER_LEN data))"

record SequencerBatchDeliveredData =
  sb_delayed_acc :: b256
  sb_after_delayed_messages_read :: u64
  sb_min_timestamp :: u64
  sb_max_timestamp :: u64
  sb_min_l1_block :: u64
  sb_max_l1_block :: u64
  sb_data_location :: byte

definition LOC_TX_INPUT :: byte where
  "LOC_TX_INPUT = 0"

definition LOC_SEPARATE_BATCH_EVENT :: byte where
  "LOC_SEPARATE_BATCH_EVENT = 1"

definition LOC_NO_DATA :: byte where
  "LOC_NO_DATA = 2"

definition LOC_BLOB_HASHES :: byte where
  "LOC_BLOB_HASHES = 3"

definition batch_header :: "SequencerBatchDeliveredData \<Rightarrow> BatchHeader" where
  "batch_header d =
     \<lparr> min_timestamp = sb_min_timestamp d, max_timestamp = sb_max_timestamp d,
       min_l1_block = sb_min_l1_block d, max_l1_block = sb_max_l1_block d,
       after_delayed_messages = sb_after_delayed_messages_read d \<rparr>"

definition abi_word :: "bytes \<Rightarrow> nat \<Rightarrow> bytes" where
  "abi_word log_data i = slice (i * 32) ((i + 1) * 32) log_data"

definition u64_word :: "bytes \<Rightarrow> nat \<Rightarrow> u64" where
  "u64_word log_data i = u64_of_be (slice 24 32 (abi_word log_data i))"

definition parse_sequencer_batch_delivered :: "bytes \<Rightarrow> BatchError + SequencerBatchDeliveredData" where
  "parse_sequencer_batch_delivered log_data =
     (if length log_data \<noteq> 7 * 32 then Inl (EventDataWrongLen (length log_data))
      else Inr \<lparr> sb_delayed_acc = abi_word log_data 0,
                 sb_after_delayed_messages_read = u64_word log_data 1,
                 sb_min_timestamp = u64_word log_data 2,
                 sb_max_timestamp = u64_word log_data 3,
                 sb_min_l1_block = u64_word log_data 4,
                 sb_max_l1_block = u64_word log_data 5,
                 sb_data_location = abi_word log_data 6 ! 31 \<rparr>)"

definition decompress_payload :: "(bytes \<Rightarrow> bytes option) \<Rightarrow> bytes \<Rightarrow> BatchError + bytes" where
  "decompress_payload brotli payload =
     (case payload of
        [] \<Rightarrow> Inl Truncated
      | flag # body \<Rightarrow>
          if flag = FLAG_BROTLI then ok_or BatchBrotli (brotli body)
          else Inl (UnsupportedFlag flag))"

record Segment =
  seg_kind :: byte
  seg_data :: bytes

type_synonym rlp_header = "bytes \<Rightarrow> (bool \<times> nat \<times> bytes) option"

fun parse_segments_loop :: "rlp_header \<Rightarrow> nat \<Rightarrow> bytes \<Rightarrow> Segment list \<Rightarrow> BatchError + Segment list" where
  "parse_segments_loop rlp 0 buf segs = (if buf = [] then Inr segs else Inl Stuck)"
| "parse_segments_loop rlp (Suc fuel) buf segs =
     (if buf = [] then Inr segs
      else case rlp buf of
        None \<Rightarrow> Inl (BatchRlp ''segment header'')
      | Some (is_list, payload_length, buf') \<Rightarrow>
          if is_list then Inl (BatchRlp ''segment is a list, expected string'')
          else if payload_length > length buf' then Inl (BatchRlp ''segment length exceeds data'')
          else let seg = take payload_length buf'; rest = drop payload_length buf' in
            case seg of
              [] \<Rightarrow> parse_segments_loop rlp fuel rest segs
            | kind # data \<Rightarrow>
                parse_segments_loop rlp fuel rest (segs @ [\<lparr> seg_kind = kind, seg_data = data \<rparr>]))"

definition parse_segments :: "rlp_header \<Rightarrow> bytes \<Rightarrow> BatchError + Segment list" where
  "parse_segments rlp buf = parse_segments_loop rlp (length buf) buf []"

section \<open>What the code relies on in the RLP library\<close>

text \<open>Decoding an item, header and payload, consumes at least one byte.\<close>

definition rlp_progress :: "rlp_header \<Rightarrow> bool" where
  "rlp_progress rlp \<longleftrightarrow>
     (\<forall>buf is_list n rest. rlp buf = Some (is_list, n, rest) \<longrightarrow> length rest < length buf + n)"

text \<open>
  The header of an encoded byte string (of a length a \<open>u64\<close> holds), whatever follows it, announces
  the string and leaves its bytes in front (for a single byte below 0x80, its own encoding, nothing is consumed).
\<close>

definition rlp_encodes :: "rlp_header \<Rightarrow> (bytes \<Rightarrow> bytes) \<Rightarrow> bool" where
  "rlp_encodes rlp enc \<longleftrightarrow>
     (\<forall>s rest. length s < 2 ^ 64 \<longrightarrow> enc s \<noteq> [] \<and> rlp (enc s @ rest) = Some (False, length s, s @ rest))"

text \<open>The RLP byte-string and list headers, for payloads whose length takes up to eight bytes.\<close>

definition be_min :: "nat \<Rightarrow> bytes" where
  "be_min n = dropWhile (\<lambda>b. b = 0) (nat_be 8 n)"

definition rlp_ref_encode :: "bytes \<Rightarrow> bytes" where
  "rlp_ref_encode s =
     (if length s = 1 \<and> s ! 0 < 0x80 then s
      else if length s < 56 then word_of_nat (0x80 + length s) # s
      else let l = be_min (length s) in word_of_nat (0xb7 + length l) # l @ s)"

definition rlp_long_length :: "nat \<Rightarrow> bytes \<Rightarrow> (nat \<times> bytes) option" where
  "rlp_long_length k rest =
     (if length rest < k \<or> rest ! 0 = 0 \<or> be_nat (take k rest) < 56 then None
      else Some (be_nat (take k rest), drop k rest))"

definition rlp_ref_header :: rlp_header where
  "rlp_ref_header buf =
     (case buf of
        [] \<Rightarrow> None
      | b # rest \<Rightarrow>
          if b < 0x80 then Some (False, 1, buf)
          else if b < 0xb8 then Some (False, unat b - 0x80, rest)
          else if b < 0xc0 then
            map_option (\<lambda>(n, r). (False, n, r)) (rlp_long_length (unat b - 0xb7) rest)
          else if b < 0xf8 then Some (True, unat b - 0xc0, rest)
          else map_option (\<lambda>(n, r). (True, n, r)) (rlp_long_length (unat b - 0xf7) rest))"

section \<open>Header and event\<close>

lemma BatchHeader_parse_error: "length data < 40 \<Longrightarrow> BatchHeader_parse data = Inl Truncated"
  by (simp add: BatchHeader_parse_def BATCH_HEADER_LEN_def)

lemma BatchHeader_parse_bytes:
  "BatchHeader_parse (u64_to_be a @ u64_to_be b @ u64_to_be c @ u64_to_be d @ u64_to_be e @ rest) =
     Inr (\<lparr> min_timestamp = a, max_timestamp = b, min_l1_block = c, max_l1_block = d,
            after_delayed_messages = e \<rparr>, rest)"
  by (simp add: BatchHeader_parse_def BATCH_HEADER_LEN_def slice_def Let_def)

lemma BatchHeader_parse_inv:
  assumes "BatchHeader_parse data = Inr (h, rest)"
  shows "data = u64_to_be (min_timestamp h) @ u64_to_be (max_timestamp h) @
           u64_to_be (min_l1_block h) @ u64_to_be (max_l1_block h) @
           u64_to_be (after_delayed_messages h) @ rest"
proof -
  have len: "\<not> length data < 40"
    and h: "h = \<lparr> min_timestamp = u64_of_be (slice 0 8 data), max_timestamp = u64_of_be (slice 8 16 data),
          min_l1_block = u64_of_be (slice 16 24 data), max_l1_block = u64_of_be (slice 24 32 data),
          after_delayed_messages = u64_of_be (slice 32 40 data) \<rparr>"
    and rest: "rest = drop 40 data"
    using assms by (auto simp: BatchHeader_parse_def BATCH_HEADER_LEN_def Let_def split: if_splits)
  have "slice 0 8 data @ slice 8 16 data @ slice 16 24 data @ slice 24 32 data @ slice 32 40 data @ rest
      = data"
    by (simp add: slice_def rest append_assoc [symmetric] take_add [symmetric] del: append_assoc)
  with len show ?thesis by (simp add: h u64_to_of_be slice_def)
qed

text \<open>The event data as the contract emits it: every \<open>uint64\<close> right-aligned in its word.\<close>

definition abi_u64 :: "u64 \<Rightarrow> bytes" where
  "abi_u64 w = replicate 24 0 @ u64_to_be w"

definition abi_batch_event :: "SequencerBatchDeliveredData \<Rightarrow> bytes" where
  "abi_batch_event d =
     sb_delayed_acc d @ abi_u64 (sb_after_delayed_messages_read d) @ abi_u64 (sb_min_timestamp d)
     @ abi_u64 (sb_max_timestamp d) @ abi_u64 (sb_min_l1_block d) @ abi_u64 (sb_max_l1_block d)
     @ replicate 31 0 @ [sb_data_location d]"

lemma length_abi_u64 [simp]: "length (abi_u64 w) = 32"
  by (simp add: abi_u64_def)

lemma u64_of_abi [simp]: "u64_of_be (drop 24 (abi_u64 w)) = w"
  by (simp add: abi_u64_def)

lemma abi_word_concat:
  assumes "\<And>w. w \<in> set ws \<Longrightarrow> length w = 32" and "i < length ws"
  shows "abi_word (concat ws) i = ws ! i"
  using assms
proof (induction ws arbitrary: i)
  case (Cons w ws)
  show ?case
  proof (cases i)
    case 0
    with Cons.prems show ?thesis by (simp add: abi_word_def slice_def)
  next
    case (Suc j)
    with Cons.prems have "abi_word (concat (w # ws)) i = abi_word (concat ws) j"
      by (simp add: abi_word_def slice_def)
    with Cons Suc show ?thesis by simp
  qed
qed simp

lemma parse_abi_batch_event:
  assumes "length (sb_delayed_acc d) = 32"
  shows "parse_sequencer_batch_delivered (abi_batch_event d) = Inr d"
proof -
  let ?ws = "[sb_delayed_acc d, abi_u64 (sb_after_delayed_messages_read d),
     abi_u64 (sb_min_timestamp d), abi_u64 (sb_max_timestamp d), abi_u64 (sb_min_l1_block d),
     abi_u64 (sb_max_l1_block d), replicate 31 0 @ [sb_data_location d]]"
  have ev: "abi_batch_event d = concat ?ws" by (simp add: abi_batch_event_def)
  have "abi_word (concat ?ws) i = ?ws ! i" if "i < 7" for i
    by (rule abi_word_concat) (use assms that in auto)
  then have ws: "abi_word (abi_batch_event d) i = ?ws ! i" if "i < 7" for i
    unfolding ev using that by blast
  have "length (abi_batch_event d) = 224" using assms by (simp add: abi_batch_event_def)
  then show ?thesis
    by (simp add: parse_sequencer_batch_delivered_def u64_word_def ws slice_def nth_append)
qed

section \<open>The segment stream\<close>

lemma parse_segments_loop_not_stuck:
  assumes "rlp_progress rlp" and "length buf \<le> fuel"
  shows "parse_segments_loop rlp fuel buf segs \<noteq> Inl Stuck"
  using assms(2)
proof (induction fuel arbitrary: buf segs)
  case 0
  then show ?case by simp
next
  case (Suc fuel)
  have "length (drop n rest) \<le> fuel" if "rlp buf = Some (l, n, rest)" "n \<le> length rest" for l n rest
    using assms(1) that Suc.prems by (fastforce simp: rlp_progress_def)
  then show ?case
    using Suc.IH by (auto simp: Let_def split: option.splits list.splits)
qed

lemma parse_segments_not_stuck:
  "rlp_progress rlp \<Longrightarrow> parse_segments rlp buf \<noteq> Inl Stuck"
  by (simp add: parse_segments_def parse_segments_loop_not_stuck)

definition segment_of :: "bytes \<Rightarrow> Segment" where
  "segment_of item = \<lparr> seg_kind = hd item, seg_data = tl item \<rparr>"

lemma parse_segments_loop_items:
  assumes "rlp_encodes rlp enc" and "\<forall>item \<in> set items. length item < 2 ^ 64"
  shows "parse_segments_loop rlp (length items + fuel) (concat (map enc items) @ tail) segs =
         parse_segments_loop rlp fuel tail (segs @ map segment_of (filter (\<lambda>i. i \<noteq> []) items))"
  using assms(2)
proof (induction items arbitrary: segs)
  case Nil
  then show ?case by simp
next
  case (Cons item items)
  have enc: "enc item \<noteq> []" "rlp (enc item @ rest) = Some (False, length item, item @ rest)" for rest
    using assms(1) Cons.prems by (auto simp: rlp_encodes_def)
  show ?case
    using Cons enc by (cases item) (auto simp: Let_def segment_of_def)
qed

lemma length_concat_nonempty:
  "(\<And>x. x \<in> set xs \<Longrightarrow> f x \<noteq> []) \<Longrightarrow> length xs \<le> length (concat (map f xs))"
proof (induction xs)
  case (Cons x xs)
  then have "0 < length (f x)" "length xs \<le> length (concat (map f xs))" by auto
  then show ?case by (simp del: length_greater_0_conv)
qed simp

lemma parse_segments_items:
  assumes "rlp_encodes rlp enc" and "\<forall>item \<in> set items. length item < 2 ^ 64"
  shows "parse_segments rlp (concat (map enc items)) =
         Inr (map segment_of (filter (\<lambda>i. i \<noteq> []) items))"
proof -
  let ?buf = "concat (map enc items)"
  have "length items \<le> length ?buf"
    using assms by (intro length_concat_nonempty) (auto simp: rlp_encodes_def)
  then obtain fuel where "length ?buf = length items + fuel" by (auto simp: le_iff_add)
  then show ?thesis
    using parse_segments_loop_items [OF assms, of fuel "[]" "[]"]
    by (cases fuel) (auto simp: parse_segments_def)
qed

section \<open>The reference RLP codec meets both assumptions\<close>

lemma be_nat_append: "be_nat (xs @ ys) = be_nat xs * 256 ^ length ys + be_nat ys"
  by (induction ys rule: rev_induct) (auto simp: append_assoc [symmetric] algebra_simps simp del: append_assoc)

lemma be_nat_Cons: "be_nat (b # bs) = unat b * 256 ^ length bs + be_nat bs"
  using be_nat_append [of "[b]" bs] be_nat_snoc [of "[]" b] by simp

lemma be_nat_dropWhile_0: "be_nat (dropWhile (\<lambda>b. b = 0) bs) = be_nat bs"
  by (induction bs) (auto simp: be_nat_Cons)

lemma be_nat_be_min: "n < 2 ^ 64 \<Longrightarrow> be_nat (be_min n) = n"
  by (simp add: be_min_def be_nat_dropWhile_0 be_nat_nat_be)

lemma length_be_min: "length (be_min n) \<le> 8"
  unfolding be_min_def using length_dropWhile_le [of "\<lambda>b. b = 0" "nat_be 8 n"] by simp

lemma hd_be_min: "be_min n \<noteq> [] \<Longrightarrow> hd (be_min n) \<noteq> 0"
  unfolding be_min_def using hd_dropWhile by blast

lemma be_min_nonempty: "0 < n \<Longrightarrow> n < 2 ^ 64 \<Longrightarrow> be_min n \<noteq> []"
  using be_nat_be_min by fastforce

lemma unat_byte_small: "n < 256 \<Longrightarrow> unat (word_of_nat n :: byte) = n"
  by (simp add: unat_byte_of_nat)

lemma rlp_ref_header_short:
  "n < 56 \<Longrightarrow> rlp_ref_header (word_of_nat (0x80 + n) # rest) = Some (False, n, rest)"
  by (simp add: rlp_ref_header_def word_less_nat_alt unat_byte_small del: of_nat_add)

lemma rlp_ref_header_long:
  assumes "k \<noteq> 0" "k \<le> 8" "length l = k" "hd l \<noteq> 0" "56 \<le> be_nat l"
  shows "rlp_ref_header (word_of_nat (0xb7 + k) # l @ rest) = Some (False, be_nat l, rest)"
proof -
  have "(l @ rest) ! 0 \<noteq> 0" using assms by (cases l) auto
  with assms show ?thesis
    by (simp add: rlp_ref_header_def rlp_long_length_def word_less_nat_alt unat_byte_small del: of_nat_add)
qed

lemma rlp_ref_encodes: "rlp_encodes rlp_ref_header rlp_ref_encode"
proof -
  have "rlp_ref_header (rlp_ref_encode s @ rest) = Some (False, length s, s @ rest)"
    if len: "length s < 2 ^ 64" for s rest
  proof -
    consider (single) "length s = 1 \<and> s ! 0 < 0x80"
      | (short) "length s < 56" "\<not> (length s = 1 \<and> s ! 0 < 0x80)" | (long) "56 \<le> length s"
      by linarith
    then show ?thesis
    proof cases
      case single
      then show ?thesis by (cases s) (auto simp: rlp_ref_encode_def rlp_ref_header_def)
    next
      case short
      then show ?thesis by (auto simp: rlp_ref_encode_def rlp_ref_header_short simp del: of_nat_add)
    next
      case long
      let ?l = "be_min (length s)"
      have l: "?l \<noteq> []" using long len by (intro be_min_nonempty) auto
      then show ?thesis
        using long len rlp_ref_header_long [of "length ?l" ?l "s @ rest"]
          length_be_min hd_be_min [OF l] be_nat_be_min [OF len]
        by (simp add: rlp_ref_encode_def Let_def del: of_nat_add)
    qed
  qed
  moreover have "rlp_ref_encode s \<noteq> []" for s
    by (auto simp: rlp_ref_encode_def Let_def)
  ultimately show ?thesis by (simp add: rlp_encodes_def)
qed

lemma rlp_ref_progress: "rlp_progress rlp_ref_header"
  by (auto simp: rlp_progress_def rlp_ref_header_def rlp_long_length_def
      split: list.splits if_splits)

end
