(* ===== verification/BTree_Map.thy ===== *)
theory BTree_Map
  imports Prelude
begin

text \<open>
  The standard library's \<open>BTreeMap\<close> and \<open>BTreeSet\<close>, as association lists in strictly ascending
  key order.  The order is visible to the code: \<open>values()\<close>, \<open>pop_first()\<close>, \<open>range(..)\<close> and
  \<open>retain(..)\<close> all walk it.  The locale \<open>ordered_map\<close> is the contract the components rely on;
  the clients' lemmas about bulk insertion are proved once inside it.
\<close>

type_synonym ('k, 'v) btree = "('k \<times> 'v) list"

definition bt_wf :: "('k::linorder, 'v) btree \<Rightarrow> bool" where
  "bt_wf m = sorted_wrt (<) (map fst m)"

definition bt_get :: "'k::linorder \<Rightarrow> ('k, 'v) btree \<Rightarrow> 'v option" where
  "bt_get k m = map_of m k"

fun bt_insert :: "'k::linorder \<Rightarrow> 'v \<Rightarrow> ('k, 'v) btree \<Rightarrow> ('k, 'v) btree" where
  "bt_insert k v [] = [(k, v)]"
| "bt_insert k v ((k', v') # m) =
     (if k < k' then (k, v) # (k', v') # m
      else if k = k' then (k, v) # m
      else (k', v') # bt_insert k v m)"

definition bt_retain :: "('k::linorder \<Rightarrow> bool) \<Rightarrow> ('k, 'v) btree \<Rightarrow> ('k, 'v) btree" where
  "bt_retain p m = filter (\<lambda>kv. p (fst kv)) m"

definition bt_remove :: "'k::linorder \<Rightarrow> ('k, 'v) btree \<Rightarrow> ('k, 'v) btree" where
  "bt_remove k m = bt_retain (\<lambda>k'. k' \<noteq> k) m"

definition bt_contains :: "'k::linorder \<Rightarrow> ('k, 'v) btree \<Rightarrow> bool" where
  "bt_contains k m \<longleftrightarrow> bt_get k m \<noteq> None"

definition bt_keys :: "('k::linorder, 'v) btree \<Rightarrow> 'k list" where
  "bt_keys m = map fst m"

definition bt_values :: "('k::linorder, 'v) btree \<Rightarrow> 'v list" where
  "bt_values m = map snd m"

definition bt_pop_first :: "('k::linorder, 'v) btree \<Rightarrow> ('k, 'v) btree" where
  "bt_pop_first m = tl m"

text \<open>\<open>collect()\<close> into a map: later entries replace earlier ones with the same key.\<close>

definition bt_extend :: "('k \<times> 'v) list \<Rightarrow> ('k::linorder, 'v) btree \<Rightarrow> ('k, 'v) btree" where
  "bt_extend kvs m = foldl (\<lambda>m (k, v). bt_insert k v m) m kvs"

section \<open>The contract\<close>

locale ordered_map =
  fixes get :: "'k::linorder \<Rightarrow> 'm \<Rightarrow> 'v option"
    and insert :: "'k \<Rightarrow> 'v \<Rightarrow> 'm \<Rightarrow> 'm"
    and retain :: "('k \<Rightarrow> bool) \<Rightarrow> 'm \<Rightarrow> 'm"
    and keys :: "'m \<Rightarrow> 'k list"
    and wf :: "'m \<Rightarrow> bool"
  assumes get_insert: "wf m \<Longrightarrow> get k (insert k' v m) = (if k = k' then Some v else get k m)"
    and wf_insert: "wf m \<Longrightarrow> wf (insert k v m)"
    and get_retain: "wf m \<Longrightarrow> get k (retain p m) = (if p k then get k m else None)"
    and wf_retain: "wf m \<Longrightarrow> wf (retain p m)"
    and keys_sorted: "wf m \<Longrightarrow> sorted_wrt (<) (keys m)"
    and keys_get: "wf m \<Longrightarrow> k \<in> set (keys m) \<longleftrightarrow> get k m \<noteq> None"
begin

lemma wf_extend: "wf m \<Longrightarrow> wf (foldl (\<lambda>m (k, v). insert k v m) m kvs)"
  by (induction kvs arbitrary: m) (auto simp: wf_insert)

lemma get_extend:
  "wf m \<Longrightarrow> get k (foldl (\<lambda>m (k, v). insert k v m) m kvs) =
     (case map_of (rev kvs) k of Some v \<Rightarrow> Some v | None \<Rightarrow> get k m)"
proof (induction kvs arbitrary: m)
  case Nil
  then show ?case by simp
next
  case (Cons kv kvs)
  then show ?case
    by (cases kv) (auto simp: wf_insert get_insert map_add_def split: option.splits)
qed

lemma keys_insert: "wf m \<Longrightarrow> set (keys (insert k v m)) = Set.insert k (set (keys m))"
  by (auto simp: keys_get wf_insert get_insert split: if_splits)

lemma keys_retain: "wf m \<Longrightarrow> set (keys (retain p m)) = {k \<in> set (keys m). p k}"
  by (auto simp: keys_get wf_retain get_retain split: if_splits)

end

section \<open>The sorted association list implements it\<close>

lemma bt_wf_Nil [simp]: "bt_wf []"
  by (simp add: bt_wf_def)

lemma bt_wf_Cons: "bt_wf ((k, v) # m) \<longleftrightarrow> (\<forall>k' \<in> fst ` set m. k < k') \<and> bt_wf m"
  by (simp add: bt_wf_def)

lemma set_bt_insert_keys: "fst ` set (bt_insert k v m) = Set.insert k (fst ` set m)"
  by (induction k v m rule: bt_insert.induct) auto

lemma bt_wf_insert: "bt_wf m \<Longrightarrow> bt_wf (bt_insert k v m)"
  by (induction k v m rule: bt_insert.induct) (auto simp: bt_wf_Cons set_bt_insert_keys)

lemma bt_get_insert: "bt_get k (bt_insert k' v m) = (if k = k' then Some v else bt_get k m)"
  by (induction k' v m rule: bt_insert.induct) (auto simp: bt_get_def)

lemma bt_get_retain: "bt_get k (bt_retain p m) = (if p k then bt_get k m else None)"
  by (induction m) (auto simp: bt_get_def bt_retain_def)

lemma bt_wf_retain: "bt_wf m \<Longrightarrow> bt_wf (bt_retain p m)"
  by (induction m) (auto simp: bt_wf_def bt_retain_def)

lemma bt_keys_get: "k \<in> set (bt_keys m) \<longleftrightarrow> bt_get k m \<noteq> None"
  by (auto simp: bt_keys_def bt_get_def map_of_eq_None_iff)

interpretation bt: ordered_map bt_get bt_insert bt_retain bt_keys bt_wf
proof
  show "sorted_wrt (<) (bt_keys m)" if "bt_wf m" for m :: "('a \<times> 'b) list"
    using that by (simp add: bt_wf_def bt_keys_def)
qed (simp_all add: bt_get_insert bt_wf_insert bt_get_retain bt_wf_retain bt_keys_get)

lemma bt_get_Nil [simp]: "bt_get k [] = None"
  by (simp add: bt_get_def)

lemma bt_wf_remove: "bt_wf m \<Longrightarrow> bt_wf (bt_remove k m)"
  by (simp add: bt_remove_def bt_wf_retain)

lemma bt_get_remove: "bt_get k (bt_remove k' m) = (if k = k' then None else bt_get k m)"
  by (simp add: bt_remove_def bt_get_retain)

lemma bt_wf_pop_first: "bt_wf m \<Longrightarrow> bt_wf (bt_pop_first m)"
  by (cases m) (auto simp: bt_wf_Cons bt_pop_first_def bt_wf_def)

lemma bt_wf_extend: "bt_wf m \<Longrightarrow> bt_wf (bt_extend kvs m)"
  by (simp add: bt_extend_def bt.wf_extend)

lemma bt_get_extend:
  "bt_wf m \<Longrightarrow> bt_get k (bt_extend kvs m) =
     (case map_of (rev kvs) k of Some v \<Rightarrow> Some v | None \<Rightarrow> bt_get k m)"
  by (simp add: bt_extend_def bt.get_extend)

lemma length_bt_insert:
  "bt_wf m \<Longrightarrow> length (bt_insert k v m) = (if bt_get k m = None then Suc (length m) else length m)"
proof (induction k v m rule: bt_insert.induct)
  case (1 k v)
  then show ?case by simp
next
  case (2 k v k' v' m)
  then show ?case by (auto simp: bt_wf_Cons bt_get_def map_of_eq_None_iff)
qed

lemma bt_get_in_set: "bt_wf m \<Longrightarrow> bt_get k m = Some v \<longleftrightarrow> (k, v) \<in> set m"
  by (simp add: bt_get_def bt_wf_def strict_sorted_iff)

lemma set_bt_insert: "bt_wf m \<Longrightarrow> set (bt_insert k v m) = Set.insert (k, v) {kv \<in> set m. fst kv \<noteq> k}"
proof -
  assume wf: "bt_wf m"
  have "(a, b) \<in> set (bt_insert k v m) \<longleftrightarrow> (a, b) = (k, v) \<or> (a, b) \<in> set m \<and> a \<noteq> k" for a b
    using bt_get_in_set [OF wf] bt_get_in_set [OF bt_wf_insert [OF wf]] bt_get_insert [of a k v m]
    by (metis option.inject prod.inject)
  then show ?thesis by auto
qed

lemma bt_get_max_insert:
  "bt_wf m \<Longrightarrow> \<forall>k' \<in> fst ` set m. k' < k \<Longrightarrow> bt_insert k v m = m @ [(k, v)]"
  by (induction k v m rule: bt_insert.induct) (auto simp: bt_wf_Cons)

text \<open>A well-formed map is determined by its lookups, so bulk insertion of entries with distinct
  keys does not depend on their order.\<close>

lemma bt_eqI:
  assumes "bt_wf m" "bt_wf m'" "\<And>k. bt_get k m = bt_get k m'"
  shows "m = m'"
proof -
  have "set m = set m'"
  proof (rule set_eqI)
    fix kv :: "'a \<times> 'b"
    show "kv \<in> set m \<longleftrightarrow> kv \<in> set m'"
      using bt_get_in_set [OF assms(1), of "fst kv" "snd kv"] bt_get_in_set [OF assms(2), of "fst kv" "snd kv"]
        assms(3) by simp
  qed
  moreover have "distinct (map fst m)" "sorted (map fst m)" "distinct (map fst m')" "sorted (map fst m')"
    using assms(1,2) by (simp_all add: bt_wf_def strict_sorted_iff)
  ultimately show ?thesis
    using map_sorted_distinct_set_unique [of fst m m'] distinct_map [of fst m] by simp
qed

lemma bt_extend_permute:
  assumes "bt_wf m" "distinct (map fst kvs)" "set kvs' = set kvs" "distinct (map fst kvs')"
  shows "bt_extend kvs' m = bt_extend kvs m"
proof (rule bt_eqI)
  have "map_of (rev kvs') = map_of (rev kvs)"
    using assms by (intro map_of_inject_set [THEN iffD2]) (auto simp flip: rev_map)
  then show "bt_get k (bt_extend kvs' m) = bt_get k (bt_extend kvs m)" for k
    using assms(1) by (simp add: bt_get_extend)
qed (use assms(1) in \<open>simp_all add: bt_wf_extend\<close>)

end
