(* ===== verification/Delayed_Inbox.thy ===== *)
theory Delayed_Inbox
  imports BTree_Map
begin

text \<open>
  \<open>crates/arb-reth-derive/src/message.rs\<close> and \<open>delayed.rs\<close>: the derived message, the delayed-inbox
  message reconstructed from L1, its hash and accumulator step, and the two sources the
  multiplexer reads delayed messages from.  \<open>keccak256\<close> is a parameter.
\<close>

section \<open>Derived messages\<close>

record L1IncomingMessageHeader =
  h_kind :: byte
  h_poster :: address
  h_block_number :: u64
  h_timestamp :: u64
  h_request_id :: "b256 option"
  h_l1_base_fee :: u256

record DerivedMessage =
  d_header :: L1IncomingMessageHeader
  d_l2_msg :: bytes
  d_delayed_messages_read :: u64

definition BATCH_POSTER_ADDRESS :: address where
  "BATCH_POSTER_ADDRESS =
     [0xA4, 0xB0, 0x00, 0x00, 0x00, 0x00, 0x00, 0x00, 0x00, 0x00, 0x00,
      0x73, 0x65, 0x71, 0x75, 0x65, 0x6e, 0x63, 0x65, 0x72]"

definition KIND_L2_MESSAGE :: byte where
  "KIND_L2_MESSAGE = 3"

section \<open>Delayed messages\<close>

record DelayedMessage =
  dm_kind :: byte
  dm_sender :: address
  dm_block_number :: u64
  dm_timestamp :: u64
  dm_inbox_seq_num :: u64
  dm_base_fee_l1 :: u256
  dm_data :: bytes
  dm_before_inbox_acc :: b256

definition delayed_message_buf ::
  "byte \<Rightarrow> address \<Rightarrow> u64 \<Rightarrow> u64 \<Rightarrow> u64 \<Rightarrow> u256 \<Rightarrow> b256 \<Rightarrow> bytes" where
  "delayed_message_buf kind sender block_number timestamp inbox_seq_num base_fee_l1 data_hash =
     [kind] @ sender @ u64_to_be block_number @ u64_to_be timestamp
     @ u256_to_be (ucast inbox_seq_num) @ u256_to_be base_fee_l1 @ data_hash"

definition delayed_message_hash ::
  "(bytes \<Rightarrow> b256) \<Rightarrow> byte \<Rightarrow> address \<Rightarrow> u64 \<Rightarrow> u64 \<Rightarrow> u64 \<Rightarrow> u256 \<Rightarrow> b256 \<Rightarrow> b256" where
  "delayed_message_hash keccak kind sender block_number timestamp inbox_seq_num base_fee_l1 data_hash =
     keccak (delayed_message_buf kind sender block_number timestamp inbox_seq_num base_fee_l1 data_hash)"

definition accumulate :: "(bytes \<Rightarrow> b256) \<Rightarrow> b256 \<Rightarrow> b256 \<Rightarrow> b256" where
  "accumulate keccak before_acc message_hash = keccak (before_acc @ message_hash)"

definition message_data_hash :: "(bytes \<Rightarrow> b256) \<Rightarrow> DelayedMessage \<Rightarrow> b256" where
  "message_data_hash keccak m = keccak (dm_data m)"

definition message_hash :: "(bytes \<Rightarrow> b256) \<Rightarrow> DelayedMessage \<Rightarrow> b256" where
  "message_hash keccak m =
     delayed_message_hash keccak (dm_kind m) (dm_sender m) (dm_block_number m) (dm_timestamp m)
       (dm_inbox_seq_num m) (dm_base_fee_l1 m) (message_data_hash keccak m)"

definition accumulator :: "(bytes \<Rightarrow> b256) \<Rightarrow> DelayedMessage \<Rightarrow> b256" where
  "accumulator keccak m = keccak (dm_before_inbox_acc m @ message_hash keccak m)"

definition request_id :: "DelayedMessage \<Rightarrow> b256" where
  "request_id m = u256_to_be (ucast (dm_inbox_seq_num m))"

definition to_derived :: "DelayedMessage \<Rightarrow> u64 \<Rightarrow> DerivedMessage" where
  "to_derived m delayed_messages_read =
     \<lparr> d_header = \<lparr> h_kind = dm_kind m,
                    h_poster = dm_sender m,
                    h_block_number = dm_block_number m,
                    h_timestamp = dm_timestamp m,
                    h_request_id = Some (request_id m),
                    h_l1_base_fee = dm_base_fee_l1 m \<rparr>,
       d_l2_msg = dm_data m,
       d_delayed_messages_read = delayed_messages_read \<rparr>"

section \<open>Sources of delayed messages\<close>

definition no_delayed_message :: "u64 \<Rightarrow> DelayedMessage option" where
  "no_delayed_message index = None"

type_synonym DelayedMap = "(u64, DelayedMessage) btree"

definition from_messages :: "DelayedMessage list \<Rightarrow> DelayedMap" where
  "from_messages msgs = bt_extend (map (\<lambda>m. (dm_inbox_seq_num m, m)) msgs) []"

definition delayed_map_message :: "DelayedMap \<Rightarrow> u64 \<Rightarrow> DelayedMessage option" where
  "delayed_map_message dmap index = bt_get index dmap"

text \<open>What every \<open>DelayedSource\<close> promises: a message is filed under its own inbox number.\<close>

locale delayed_source =
  fixes message :: "u64 \<Rightarrow> DelayedMessage option"
  assumes keyed: "message i = Some m \<Longrightarrow> dm_inbox_seq_num m = i"
begin

lemma request_id_of_index: "message i = Some m \<Longrightarrow> request_id m = u256_to_be (ucast i)"
  by (simp add: request_id_def keyed)

lemma index_inject: "message i = Some m \<Longrightarrow> message j = Some m \<Longrightarrow> i = j"
  by (auto dest!: keyed)

end

interpretation no_delayed: delayed_source no_delayed_message
  by unfold_locales (simp add: no_delayed_message_def)

lemma map_of_keyed:
  "map_of (rev (map (\<lambda>m. (f m, m)) msgs)) i = Some m \<Longrightarrow> m \<in> set msgs \<and> f m = i"
  by (auto dest!: map_of_SomeD)

lemma bt_wf_from_messages [simp]: "bt_wf (from_messages msgs)"
  by (simp add: from_messages_def bt_wf_extend)

lemma from_messages_Some:
  "bt_get i (from_messages msgs) = Some m \<Longrightarrow> m \<in> set msgs \<and> dm_inbox_seq_num m = i"
  by (auto simp: from_messages_def bt_get_extend dest!: map_of_keyed split: option.splits)

lemma from_messages_None:
  "bt_get i (from_messages msgs) = None \<longleftrightarrow> i \<notin> dm_inbox_seq_num ` set msgs"
  by (auto simp: from_messages_def bt_get_extend map_of_eq_None_iff image_image dest!: map_of_keyed
      split: option.splits)

interpretation delayed_map: delayed_source "delayed_map_message (from_messages msgs)" for msgs
  by unfold_locales (simp add: delayed_map_message_def from_messages_Some)

text \<open>The source an id-keyed lookup table gives: what \<open>from_messages\<close> finds when ids are unique.\<close>

lemma from_messages_unique:
  assumes "inj_on dm_inbox_seq_num (set msgs)" and "m \<in> set msgs"
  shows "bt_get (dm_inbox_seq_num m) (from_messages msgs) = Some m"
proof -
  obtain m' where m': "bt_get (dm_inbox_seq_num m) (from_messages msgs) = Some m'"
    using assms(2) from_messages_None by (metis imageI not_None_eq)
  from from_messages_Some [OF this] assms have "m' = m" by (auto dest: inj_onD)
  with m' show ?thesis by simp
qed

section \<open>What the accumulator commits to\<close>

text \<open>The byte strings that are hashed to compute a message's accumulator.\<close>

definition message_buf :: "(bytes \<Rightarrow> b256) \<Rightarrow> DelayedMessage \<Rightarrow> bytes" where
  "message_buf keccak m =
     delayed_message_buf (dm_kind m) (dm_sender m) (dm_block_number m) (dm_timestamp m)
       (dm_inbox_seq_num m) (dm_base_fee_l1 m) (message_data_hash keccak m)"

definition hashed_inputs :: "(bytes \<Rightarrow> b256) \<Rightarrow> DelayedMessage \<Rightarrow> bytes set" where
  "hashed_inputs keccak m =
     {dm_data m, message_buf keccak m, dm_before_inbox_acc m @ message_hash keccak m}"

lemma message_hash_buf: "message_hash keccak m = keccak (message_buf keccak m)"
  by (simp add: message_hash_def delayed_message_hash_def message_buf_def)

lemma ucast_u64_u256_inject: "(ucast (a :: u64) :: u256) = ucast b \<longleftrightarrow> a = b"
proof
  assume "(ucast a :: u256) = ucast b"
  then have "ucast (ucast a :: u256) = (ucast (ucast b :: u256) :: u64)" by simp
  then show "a = b" by (simp add: ucast_up_ucast_id is_up)
qed simp

lemma delayed_message_buf_inject:
  assumes "length s = length s'"
    and "delayed_message_buf k s b t i f h = delayed_message_buf k' s' b' t' i' f' h'"
  shows "k = k' \<and> s = s' \<and> b = b' \<and> t = t' \<and> i = i' \<and> f = f' \<and> h = h'"
  using assms by (simp add: delayed_message_buf_def ucast_u64_u256_inject)

lemma message_hash_inject:
  assumes "inj_on keccak H" and "hashed_inputs keccak m \<union> hashed_inputs keccak m' \<subseteq> H"
    and "length (dm_sender m) = length (dm_sender m')"
    and "message_hash keccak m = message_hash keccak m'"
  shows "m = m'\<lparr>dm_before_inbox_acc := dm_before_inbox_acc m\<rparr>"
proof -
  have "message_buf keccak m = message_buf keccak m'"
    by (rule inj_onD [OF assms(1)]) (use assms in \<open>auto simp: message_hash_buf hashed_inputs_def\<close>)
  from delayed_message_buf_inject [OF assms(3) this [unfolded message_buf_def]]
  have fields: "dm_kind m = dm_kind m'" "dm_sender m = dm_sender m'"
    "dm_block_number m = dm_block_number m'" "dm_timestamp m = dm_timestamp m'"
    "dm_inbox_seq_num m = dm_inbox_seq_num m'" "dm_base_fee_l1 m = dm_base_fee_l1 m'"
    and data: "keccak (dm_data m) = keccak (dm_data m')"
    by (simp_all add: message_data_hash_def)
  have "dm_data m = dm_data m'"
    by (rule inj_onD [OF assms(1)]) (use assms(2) data in \<open>auto simp: hashed_inputs_def\<close>)
  with fields show ?thesis by simp
qed

lemma accumulator_inject:
  assumes "inj_on keccak H" and "hashed_inputs keccak m \<union> hashed_inputs keccak m' \<subseteq> H"
    and "length (dm_sender m) = length (dm_sender m')"
    and "length (dm_before_inbox_acc m) = length (dm_before_inbox_acc m')"
    and "accumulator keccak m = accumulator keccak m'"
  shows "m = m'"
proof -
  have "dm_before_inbox_acc m @ message_hash keccak m = dm_before_inbox_acc m' @ message_hash keccak m'"
    by (rule inj_onD [OF assms(1)]) (use assms(2,5) in \<open>auto simp: accumulator_def hashed_inputs_def\<close>)
  with assms(4) have "dm_before_inbox_acc m = dm_before_inbox_acc m'"
    and "message_hash keccak m = message_hash keccak m'"
    by simp_all
  with message_hash_inject [OF assms(1-3)] show ?thesis by simp
qed

lemma accumulator_accumulate:
  "accumulator keccak m = accumulate keccak (dm_before_inbox_acc m) (message_hash keccak m)"
  by (simp add: accumulator_def accumulate_def)

end
