(* ===== verification/Multiplexer.thy ===== *)
theory Multiplexer
  imports Batch Delayed_Inbox
begin

text \<open>
  \<open>crates/arb-reth-derive/src/multiplexer.rs\<close>: a batch's segments become its message list.  The
  four mutable locals of \<open>extract_messages\<close> are the record \<open>mux_state\<close>; one loop iteration is
  \<open>extract_segment\<close>, the closing \<open>while\<close> is \<open>drain_delayed\<close>.  Parameters: \<open>brotli\<close>, \<open>rlp_u64\<close>
  (\<open>u64::decode\<close> of alloy_rlp, None on error) and \<open>delayed\<close>, the \<open>DelayedSource\<close>.

  The reference definition is positional: the running timestamp and L1 block at segment \<open>i\<close> are
  the (wrapping) sums of the advances among the first \<open>i\<close> segments, the delayed cursor is the
  batch's start plus the number of delayed segments among them, and each segment emits by itself.
  \<open>extract_messages_iff\<close> shows the loop computes exactly that.
\<close>

section \<open>The code\<close>

definition MAX_L2_MESSAGE_SIZE :: nat where
  "MAX_L2_MESSAGE_SIZE = 262144"

datatype MultiplexerError =
    AdvanceDelta string
  | MuxBrotli
  | OversizeL2Message
  | DelayedMissing u64
  | DelayedPastCount u64 u64

definition clamp :: "u64 \<Rightarrow> u64 \<Rightarrow> u64 \<Rightarrow> u64" where
  "clamp v lo hi = min (max v lo) hi"

definition make_l2_message :: "BatchHeader \<Rightarrow> bytes \<Rightarrow> u64 \<Rightarrow> u64 \<Rightarrow> u64 \<Rightarrow> DerivedMessage" where
  "make_l2_message header l2_msg timestamp block delayed =
     \<lparr> d_header = \<lparr> h_kind = KIND_L2_MESSAGE,
                    h_poster = BATCH_POSTER_ADDRESS,
                    h_block_number = clamp block (min_l1_block header) (max_l1_block header),
                    h_timestamp = clamp timestamp (min_timestamp header) (max_timestamp header),
                    h_request_id = None,
                    h_l1_base_fee = 0 \<rparr>,
       d_l2_msg = l2_msg,
       d_delayed_messages_read = delayed \<rparr>"

record mux_state =
  mx_timestamp :: u64
  mx_block :: u64
  mx_delayed_read :: u64
  mx_out :: "DerivedMessage list"

type_synonym delayed_lookup = "u64 \<Rightarrow> DelayedMessage option"

definition extract_segment ::
  "(bytes \<Rightarrow> bytes option) \<Rightarrow> (bytes \<Rightarrow> u64 option) \<Rightarrow> delayed_lookup \<Rightarrow> BatchHeader
   \<Rightarrow> Segment \<Rightarrow> mux_state \<Rightarrow> MultiplexerError + mux_state" where
  "extract_segment brotli rlp_u64 delayed header seg st =
     (if seg_kind seg = SEG_ADVANCE_TIMESTAMP then
        (case rlp_u64 (seg_data seg) of
           None \<Rightarrow> Inl (AdvanceDelta ''timestamp'')
         | Some d \<Rightarrow> Inr (st\<lparr>mx_timestamp := mx_timestamp st + d\<rparr>))
      else if seg_kind seg = SEG_ADVANCE_L1_BLOCK then
        (case rlp_u64 (seg_data seg) of
           None \<Rightarrow> Inl (AdvanceDelta ''l1block'')
         | Some d \<Rightarrow> Inr (st\<lparr>mx_block := mx_block st + d\<rparr>))
      else if seg_kind seg = SEG_L2_MESSAGE then
        Inr (st\<lparr>mx_out := mx_out st @
          [make_l2_message header (seg_data seg) (mx_timestamp st) (mx_block st) (mx_delayed_read st)]\<rparr>)
      else if seg_kind seg = SEG_L2_MESSAGE_BROTLI then
        (case brotli (seg_data seg) of
           None \<Rightarrow> Inl MuxBrotli
         | Some l2 \<Rightarrow>
             if length l2 > MAX_L2_MESSAGE_SIZE then Inl OversizeL2Message
             else Inr (st\<lparr>mx_out := mx_out st @
               [make_l2_message header l2 (mx_timestamp st) (mx_block st) (mx_delayed_read st)]\<rparr>))
      else if seg_kind seg = SEG_DELAYED_MESSAGES then
        (if mx_delayed_read st \<ge> after_delayed_messages header then
           Inl (DelayedPastCount (mx_delayed_read st) (after_delayed_messages header))
         else case delayed (mx_delayed_read st) of
           None \<Rightarrow> Inl (DelayedMissing (mx_delayed_read st))
         | Some dm \<Rightarrow>
             let delayed_read = mx_delayed_read st + 1 in
             Inr (st\<lparr>mx_delayed_read := delayed_read, mx_out := mx_out st @ [to_derived dm delayed_read]\<rparr>))
      else Inr st)"

fun extract_segments ::
  "(bytes \<Rightarrow> bytes option) \<Rightarrow> (bytes \<Rightarrow> u64 option) \<Rightarrow> delayed_lookup \<Rightarrow> BatchHeader
   \<Rightarrow> Segment list \<Rightarrow> mux_state \<Rightarrow> MultiplexerError + mux_state" where
  "extract_segments brotli rlp_u64 delayed header [] st = Inr st"
| "extract_segments brotli rlp_u64 delayed header (seg # segs) st =
     rbind (extract_segment brotli rlp_u64 delayed header seg st)
       (extract_segments brotli rlp_u64 delayed header segs)"

function drain_delayed ::
  "delayed_lookup \<Rightarrow> u64 \<Rightarrow> u64 \<Rightarrow> DerivedMessage list \<Rightarrow> MultiplexerError + DerivedMessage list" where
  "drain_delayed delayed after delayed_read out =
     (if delayed_read < after then
        (case delayed delayed_read of
           None \<Rightarrow> Inl (DelayedMissing delayed_read)
         | Some dm \<Rightarrow>
             drain_delayed delayed after (delayed_read + 1) (out @ [to_derived dm (delayed_read + 1)]))
      else Inr out)"
  by pat_completeness auto

termination drain_delayed
  by (relation "measure (\<lambda>(delayed, after, delayed_read, out). unat after - unat delayed_read)")
     (auto simp: unat_Suc_less word_less_nat_alt)

declare drain_delayed.simps [simp del]

definition extract_messages ::
  "(bytes \<Rightarrow> bytes option) \<Rightarrow> (bytes \<Rightarrow> u64 option) \<Rightarrow> BatchHeader \<Rightarrow> Segment list \<Rightarrow> u64
   \<Rightarrow> delayed_lookup \<Rightarrow> MultiplexerError + DerivedMessage list" where
  "extract_messages brotli rlp_u64 header segments before_delayed_count delayed =
     rbind (extract_segments brotli rlp_u64 delayed header segments
              \<lparr> mx_timestamp = 0, mx_block = 0, mx_delayed_read = before_delayed_count, mx_out = [] \<rparr>)
       (\<lambda>st. drain_delayed delayed (after_delayed_messages header) (mx_delayed_read st) (mx_out st))"

section \<open>The positional reference definition\<close>

definition seg_advance :: "(bytes \<Rightarrow> u64 option) \<Rightarrow> byte \<Rightarrow> Segment \<Rightarrow> u64" where
  "seg_advance rlp_u64 kind seg =
     (if seg_kind seg = kind then (case rlp_u64 (seg_data seg) of None \<Rightarrow> 0 | Some d \<Rightarrow> d) else 0)"

definition advance_at :: "(bytes \<Rightarrow> u64 option) \<Rightarrow> byte \<Rightarrow> Segment list \<Rightarrow> u64" where
  "advance_at rlp_u64 kind prefix = sum_list (map (seg_advance rlp_u64 kind) prefix)"

definition delayed_segs :: "Segment list \<Rightarrow> nat" where
  "delayed_segs prefix = length (filter (\<lambda>s. seg_kind s = SEG_DELAYED_MESSAGES) prefix)"

definition cursor_at :: "u64 \<Rightarrow> Segment list \<Rightarrow> u64" where
  "cursor_at before prefix = before + word_of_nat (delayed_segs prefix)"

definition delayed_out :: "delayed_lookup \<Rightarrow> u64 \<Rightarrow> DerivedMessage" where
  "delayed_out delayed i = to_derived (the (delayed i)) (i + 1)"

definition seg_l2 :: "(bytes \<Rightarrow> bytes option) \<Rightarrow> Segment \<Rightarrow> bytes" where
  "seg_l2 brotli seg =
     (if seg_kind seg = SEG_L2_MESSAGE then seg_data seg else the (brotli (seg_data seg)))"

definition is_l2_segment :: "Segment \<Rightarrow> bool" where
  "is_l2_segment seg \<longleftrightarrow> seg_kind seg = SEG_L2_MESSAGE \<or> seg_kind seg = SEG_L2_MESSAGE_BROTLI"

definition emit_at ::
  "(bytes \<Rightarrow> bytes option) \<Rightarrow> (bytes \<Rightarrow> u64 option) \<Rightarrow> delayed_lookup \<Rightarrow> BatchHeader \<Rightarrow> u64
   \<Rightarrow> Segment list \<Rightarrow> Segment \<Rightarrow> DerivedMessage list" where
  "emit_at brotli rlp_u64 delayed header before prefix seg =
     (if is_l2_segment seg then
        [make_l2_message header (seg_l2 brotli seg)
           (advance_at rlp_u64 SEG_ADVANCE_TIMESTAMP prefix)
           (advance_at rlp_u64 SEG_ADVANCE_L1_BLOCK prefix) (cursor_at before prefix)]
      else if seg_kind seg = SEG_DELAYED_MESSAGES then [delayed_out delayed (cursor_at before prefix)]
      else [])"

definition explicit_messages ::
  "(bytes \<Rightarrow> bytes option) \<Rightarrow> (bytes \<Rightarrow> u64 option) \<Rightarrow> delayed_lookup \<Rightarrow> BatchHeader \<Rightarrow> u64
   \<Rightarrow> Segment list \<Rightarrow> DerivedMessage list" where
  "explicit_messages brotli rlp_u64 delayed header before segs =
     concat (map (\<lambda>i. emit_at brotli rlp_u64 delayed header before (take i segs) (segs ! i))
                 [0..<length segs])"

text \<open>The error a segment raises at a given delayed cursor, if it raises one.\<close>

definition segment_error ::
  "(bytes \<Rightarrow> bytes option) \<Rightarrow> (bytes \<Rightarrow> u64 option) \<Rightarrow> delayed_lookup \<Rightarrow> BatchHeader \<Rightarrow> u64
   \<Rightarrow> Segment \<Rightarrow> MultiplexerError option" where
  "segment_error brotli rlp_u64 delayed header cursor seg =
     (if seg_kind seg = SEG_ADVANCE_TIMESTAMP \<and> rlp_u64 (seg_data seg) = None
        then Some (AdvanceDelta ''timestamp'')
      else if seg_kind seg = SEG_ADVANCE_L1_BLOCK \<and> rlp_u64 (seg_data seg) = None
        then Some (AdvanceDelta ''l1block'')
      else if seg_kind seg = SEG_L2_MESSAGE_BROTLI \<and> brotli (seg_data seg) = None then Some MuxBrotli
      else if seg_kind seg = SEG_L2_MESSAGE_BROTLI
           \<and> length (the (brotli (seg_data seg))) > MAX_L2_MESSAGE_SIZE then Some OversizeL2Message
      else if seg_kind seg = SEG_DELAYED_MESSAGES \<and> after_delayed_messages header \<le> cursor
        then Some (DelayedPastCount cursor (after_delayed_messages header))
      else if seg_kind seg = SEG_DELAYED_MESSAGES \<and> delayed cursor = None
        then Some (DelayedMissing cursor)
      else None)"

definition segments_ok ::
  "(bytes \<Rightarrow> bytes option) \<Rightarrow> (bytes \<Rightarrow> u64 option) \<Rightarrow> delayed_lookup \<Rightarrow> BatchHeader \<Rightarrow> u64
   \<Rightarrow> Segment list \<Rightarrow> bool" where
  "segments_ok brotli rlp_u64 delayed header before segs \<longleftrightarrow>
     (\<forall>i < length segs.
        segment_error brotli rlp_u64 delayed header (cursor_at before (take i segs)) (segs ! i) = None)"

text \<open>The source has every delayed message from the cursor up to the batch's count.\<close>

definition tail_available :: "delayed_lookup \<Rightarrow> u64 \<Rightarrow> u64 \<Rightarrow> bool" where
  "tail_available delayed cursor after \<longleftrightarrow> (\<forall>j. cursor \<le> j \<and> j < after \<longrightarrow> delayed j \<noteq> None)"

section \<open>One segment\<close>

definition mux_at ::
  "(bytes \<Rightarrow> bytes option) \<Rightarrow> (bytes \<Rightarrow> u64 option) \<Rightarrow> delayed_lookup \<Rightarrow> BatchHeader \<Rightarrow> u64
   \<Rightarrow> Segment list \<Rightarrow> mux_state" where
  "mux_at brotli rlp_u64 delayed header before segs =
     \<lparr> mx_timestamp = advance_at rlp_u64 SEG_ADVANCE_TIMESTAMP segs,
       mx_block = advance_at rlp_u64 SEG_ADVANCE_L1_BLOCK segs,
       mx_delayed_read = cursor_at before segs,
       mx_out = explicit_messages brotli rlp_u64 delayed header before segs \<rparr>"

lemma advance_at_simps [simp]:
  "advance_at rlp_u64 k [] = 0"
  "advance_at rlp_u64 k (segs @ [s]) = advance_at rlp_u64 k segs + seg_advance rlp_u64 k s"
  by (simp_all add: advance_at_def)

lemma cursor_at_simps [simp]:
  "cursor_at before [] = before"
  "cursor_at before (segs @ [s]) =
     (if seg_kind s = SEG_DELAYED_MESSAGES then cursor_at before segs + 1 else cursor_at before segs)"
  by (simp_all add: cursor_at_def delayed_segs_def)

lemma explicit_messages_snoc [simp]:
  "explicit_messages brotli rlp_u64 delayed header before (segs @ [s]) =
     explicit_messages brotli rlp_u64 delayed header before segs
     @ emit_at brotli rlp_u64 delayed header before segs s"
  by (simp add: explicit_messages_def nth_append)
     (rule arg_cong [where f = concat], rule map_cong, auto)

lemma extract_segment_at:
  "extract_segment brotli rlp_u64 delayed header s (mux_at brotli rlp_u64 delayed header before segs) =
     (case segment_error brotli rlp_u64 delayed header (cursor_at before segs) s of
        Some e \<Rightarrow> Inl e
      | None \<Rightarrow> Inr (mux_at brotli rlp_u64 delayed header before (segs @ [s])))"
  by (auto simp: extract_segment_def segment_error_def mux_at_def emit_at_def seg_advance_def
        is_l2_segment_def seg_l2_def delayed_out_def segment_kind_defs Let_def not_le
      split: option.splits)

section \<open>The loops\<close>

lemma extract_segments_append:
  "extract_segments brotli rlp_u64 delayed header (xs @ ys) st =
     rbind (extract_segments brotli rlp_u64 delayed header xs st)
       (extract_segments brotli rlp_u64 delayed header ys)"
proof (induction xs arbitrary: st)
  case (Cons x xs)
  then show ?case by (cases "extract_segment brotli rlp_u64 delayed header x st") auto
qed simp

lemma mux_at_Nil:
  "mux_at brotli rlp_u64 delayed header before [] =
     \<lparr> mx_timestamp = 0, mx_block = 0, mx_delayed_read = before, mx_out = [] \<rparr>"
  by (simp add: mux_at_def explicit_messages_def)

lemma segments_ok_snoc:
  "segments_ok brotli rlp_u64 delayed header before (segs @ [s]) \<longleftrightarrow>
     segments_ok brotli rlp_u64 delayed header before segs
     \<and> segment_error brotli rlp_u64 delayed header (cursor_at before segs) s = None"
  by (auto simp: segments_ok_def nth_append less_Suc_eq)

lemma extract_segments_ok:
  "segments_ok brotli rlp_u64 delayed header before segs \<Longrightarrow>
   extract_segments brotli rlp_u64 delayed header segs (mux_at brotli rlp_u64 delayed header before [])
     = Inr (mux_at brotli rlp_u64 delayed header before segs)"
proof (induction segs rule: rev_induct)
  case (snoc s segs)
  then show ?case
    by (simp add: segments_ok_snoc extract_segments_append extract_segment_at)
qed simp

lemma extract_segments_fails:
  assumes "i < length segs"
    and "segments_ok brotli rlp_u64 delayed header before (take i segs)"
    and "segment_error brotli rlp_u64 delayed header (cursor_at before (take i segs)) (segs ! i) = Some e"
  shows "extract_segments brotli rlp_u64 delayed header segs
           (mux_at brotli rlp_u64 delayed header before []) = Inl e"
proof -
  have "extract_segments brotli rlp_u64 delayed header (take i segs @ segs ! i # drop (Suc i) segs)
          (mux_at brotli rlp_u64 delayed header before []) = Inl e"
    using assms(3) by (simp only: extract_segments_append extract_segments_ok [OF assms(2)])
                      (simp add: extract_segment_at)
  with assms(1) show ?thesis by (simp add: id_take_nth_drop [symmetric])
qed

lemma segments_not_ok:
  assumes "\<not> segments_ok brotli rlp_u64 delayed header before segs"
  obtains i e where "i < length segs" "segments_ok brotli rlp_u64 delayed header before (take i segs)"
    "segment_error brotli rlp_u64 delayed header (cursor_at before (take i segs)) (segs ! i) = Some e"
proof -
  let ?bad = "\<lambda>i. i < length segs \<and>
    segment_error brotli rlp_u64 delayed header (cursor_at before (take i segs)) (segs ! i) \<noteq> None"
  let ?i = "LEAST i. ?bad i"
  obtain i where "?bad i" using assms by (auto simp: segments_ok_def)
  then have bad: "?bad ?i" by (rule LeastI)
  have "\<not> ?bad j" if "j < ?i" for j using that by (rule not_less_Least)
  with bad have "segments_ok brotli rlp_u64 delayed header before (take ?i segs)"
    by (auto simp: segments_ok_def min_def)
  with bad that show thesis by blast
qed

lemma tail_available_step:
  "tail_available delayed r after \<Longrightarrow> r < after \<Longrightarrow> tail_available delayed (r + 1) after"
  by (auto simp: tail_available_def word_le_nat_alt unat_Suc_less)

lemma drain_delayed_ok:
  "tail_available delayed after' after \<Longrightarrow>
   drain_delayed delayed after after' out = Inr (out @ map (delayed_out delayed) (u64_range after' after))"
proof (induction delayed after after' out rule: drain_delayed.induct)
  case (1 delayed after r out)
  show ?case
  proof (cases "r < after")
    case True
    then obtain dm where dm: "delayed r = Some dm" using "1.prems" by (auto simp: tail_available_def)
    from "1.IH" [OF True dm] tail_available_step [OF "1.prems" True] True dm show ?thesis
      by (subst drain_delayed.simps) (simp add: u64_range_rec delayed_out_def)
  qed (subst drain_delayed.simps, simp)
qed

lemma drain_delayed_missing:
  "r \<le> j \<Longrightarrow> j < after \<Longrightarrow> delayed j = None \<Longrightarrow> tail_available delayed r j \<Longrightarrow>
   drain_delayed delayed after r out = Inl (DelayedMissing j)"
proof (induction delayed after r out rule: drain_delayed.induct)
  case (1 delayed after r out)
  have lt: "r < after" using "1.prems"(1,2) by simp
  show ?case
  proof (cases "r = j")
    case True
    with lt "1.prems"(3) show ?thesis by (subst drain_delayed.simps) simp
  next
    case False
    with "1.prems"(1) have rj: "r < j" by simp
    then obtain dm where dm: "delayed r = Some dm"
      using "1.prems"(4) by (auto simp: tail_available_def)
    from "1.IH" [OF lt dm less_imp_Suc_le [OF rj] "1.prems"(2,3) tail_available_step [OF "1.prems"(4) rj]]
      lt dm show ?thesis by (subst drain_delayed.simps) simp
  qed
qed

lemma tail_not_available:
  assumes "\<not> tail_available delayed r after"
  obtains j where "r \<le> j" "j < after" "delayed j = None" "tail_available delayed r j"
proof -
  let ?bad = "\<lambda>j. r \<le> j \<and> delayed j = None"
  let ?j = "LEAST j. ?bad j"
  obtain i where i: "?bad i" "i < after" using assms by (auto simp: tail_available_def)
  from i(1) have bad: "?bad ?j" by (rule LeastI)
  have "?j \<le> i" using i(1) by (rule Least_le)
  moreover have "\<not> ?bad k" if "k < ?j" for k using that by (rule not_less_Least)
  ultimately show thesis using bad i(2) by (intro that [of ?j]) (auto simp: tail_available_def)
qed

section \<open>Success and failure of a batch\<close>

lemma extract_messages_segments_ok:
  assumes "segments_ok brotli rlp_u64 delayed header before segs"
  shows "extract_messages brotli rlp_u64 header segs before delayed =
     drain_delayed delayed (after_delayed_messages header) (cursor_at before segs)
       (explicit_messages brotli rlp_u64 delayed header before segs)"
  using extract_segments_ok [OF assms] by (simp add: extract_messages_def mux_at_Nil) (simp add: mux_at_def)

lemma extract_messages_ok:
  assumes "segments_ok brotli rlp_u64 delayed header before segs"
    and "tail_available delayed (cursor_at before segs) (after_delayed_messages header)"
  shows "extract_messages brotli rlp_u64 header segs before delayed =
     Inr (explicit_messages brotli rlp_u64 delayed header before segs @
       map (delayed_out delayed) (u64_range (cursor_at before segs) (after_delayed_messages header)))"
  using assms by (simp add: extract_messages_segments_ok drain_delayed_ok)

lemma extract_messages_segment_error:
  assumes "i < length segs" "segments_ok brotli rlp_u64 delayed header before (take i segs)"
    "segment_error brotli rlp_u64 delayed header (cursor_at before (take i segs)) (segs ! i) = Some e"
  shows "extract_messages brotli rlp_u64 header segs before delayed = Inl e"
  using extract_segments_fails [OF assms] by (simp add: extract_messages_def mux_at_Nil)

lemma extract_messages_missing:
  assumes "segments_ok brotli rlp_u64 delayed header before segs"
    "cursor_at before segs \<le> j" "j < after_delayed_messages header" "delayed j = None"
    "tail_available delayed (cursor_at before segs) j"
  shows "extract_messages brotli rlp_u64 header segs before delayed = Inl (DelayedMissing j)"
  using assms by (simp add: extract_messages_segments_ok drain_delayed_missing)

text \<open>The three ways a batch can go.\<close>

lemma batch_cases:
  obtains (ok) "segments_ok brotli rlp_u64 delayed header before segs"
      "tail_available delayed (cursor_at before segs) (after_delayed_messages header)"
    | (segment) i e where "i < length segs"
      "segments_ok brotli rlp_u64 delayed header before (take i segs)"
      "segment_error brotli rlp_u64 delayed header (cursor_at before (take i segs)) (segs ! i) = Some e"
    | (missing) j where "segments_ok brotli rlp_u64 delayed header before segs"
      "cursor_at before segs \<le> j" "j < after_delayed_messages header" "delayed j = None"
      "tail_available delayed (cursor_at before segs) j"
  using segments_not_ok [of brotli rlp_u64 delayed header before segs]
    tail_not_available [of delayed "cursor_at before segs" "after_delayed_messages header"]
  by metis

lemma extract_messages_success:
  assumes "extract_messages brotli rlp_u64 header segs before delayed = Inr out"
  shows "segments_ok brotli rlp_u64 delayed header before segs"
    and "tail_available delayed (cursor_at before segs) (after_delayed_messages header)"
    and "out = explicit_messages brotli rlp_u64 delayed header before segs @
           map (delayed_out delayed) (u64_range (cursor_at before segs) (after_delayed_messages header))"
  using assms
  by (cases rule: batch_cases [of brotli rlp_u64 delayed header before segs];
      simp add: extract_messages_ok extract_messages_segment_error extract_messages_missing)+

text \<open>C1: a batch decodes exactly when no segment raises an error at its position and every
  delayed message up to the batch's count is available; the result is then the positional
  reference list followed by the force-included delayed messages.\<close>

theorem extract_messages_iff:
  "extract_messages brotli rlp_u64 header segs before delayed = Inr out \<longleftrightarrow>
     segments_ok brotli rlp_u64 delayed header before segs
     \<and> tail_available delayed (cursor_at before segs) (after_delayed_messages header)
     \<and> out = explicit_messages brotli rlp_u64 delayed header before segs @
         map (delayed_out delayed) (u64_range (cursor_at before segs) (after_delayed_messages header))"
proof (cases rule: batch_cases [of brotli rlp_u64 delayed header before segs])
  case ok
  then show ?thesis by (auto simp: extract_messages_ok)
next
  case (segment i e)
  then have "\<not> segments_ok brotli rlp_u64 delayed header before segs" by (auto simp: segments_ok_def)
  with extract_messages_segment_error [OF segment] show ?thesis by simp
next
  case (missing j)
  then have "\<not> tail_available delayed (cursor_at before segs) (after_delayed_messages header)"
    by (auto simp: tail_available_def)
  with extract_messages_missing [OF missing] show ?thesis by simp
qed

text \<open>C36: a batch fails with the error of its first failing segment, or, when every segment is
  fine, with the first delayed index before the batch's count that the source cannot provide.\<close>

theorem extract_messages_error_iff:
  "extract_messages brotli rlp_u64 header segs before delayed = Inl e \<longleftrightarrow>
     (\<exists>i. i < length segs \<and> segments_ok brotli rlp_u64 delayed header before (take i segs)
        \<and> segment_error brotli rlp_u64 delayed header (cursor_at before (take i segs)) (segs ! i) = Some e)
     \<or> (segments_ok brotli rlp_u64 delayed header before segs
        \<and> (\<exists>j. cursor_at before segs \<le> j \<and> j < after_delayed_messages header \<and> delayed j = None
               \<and> tail_available delayed (cursor_at before segs) j \<and> e = DelayedMissing j))"
proof (cases rule: batch_cases [of brotli rlp_u64 delayed header before segs])
  case ok
  then show ?thesis
    by (auto simp: extract_messages_ok segments_ok_def tail_available_def)
next
  case (segment i e')
  then show ?thesis
    using extract_messages_segment_error by (metis sum.inject(1) extract_messages_missing)
next
  case (missing j)
  then show ?thesis
    using extract_messages_segment_error by (metis sum.inject(1) extract_messages_missing)
qed

section \<open>Delayed messages: every one, once, in order\<close>

definition from_delayed :: "DerivedMessage \<Rightarrow> bool" where
  "from_delayed m \<longleftrightarrow> h_request_id (d_header m) \<noteq> None"

lemma from_delayed_simps [simp]:
  "from_delayed (delayed_out delayed i)" "\<not> from_delayed (make_l2_message header l2 ts b d)"
  by (simp_all add: from_delayed_def delayed_out_def to_derived_def make_l2_message_def)

lemma delayed_segment_ok:
  assumes "segment_error brotli rlp_u64 delayed header cursor s = None"
    and "seg_kind s = SEG_DELAYED_MESSAGES"
  shows "cursor < after_delayed_messages header" and "delayed cursor \<noteq> None"
  using assms by (auto simp: segment_error_def segment_kind_defs not_le split: if_splits)

lemma le_Suc_of_less: "(c :: u64) < a \<Longrightarrow> b \<le> c \<Longrightarrow> b \<le> c + 1"
  by (simp add: word_le_nat_alt unat_Suc_less)

lemma less_Suc_of_less: "(c :: u64) < a \<Longrightarrow> j < c + 1 \<longleftrightarrow> j \<le> c"
  by (auto simp: word_le_nat_alt word_less_nat_alt unat_Suc_less)

lemma tail_available_Suc:
  "c < a \<Longrightarrow> tail_available delayed b (c + 1) \<longleftrightarrow>
     tail_available delayed b c \<and> (b \<le> c \<longrightarrow> delayed c \<noteq> None)"
  by (auto simp: tail_available_def less_Suc_of_less le_less)

lemma cursor_bounds:
  assumes "segments_ok brotli rlp_u64 delayed header before segs"
  shows "before \<le> cursor_at before segs
    \<and> (cursor_at before segs = before \<or> cursor_at before segs \<le> after_delayed_messages header)
    \<and> tail_available delayed before (cursor_at before segs)"
  using assms
proof (induction segs rule: rev_induct)
  case Nil
  then show ?case by (auto simp: tail_available_def)
next
  case (snoc s segs)
  then show ?case
    using delayed_segment_ok [of brotli rlp_u64 delayed header "cursor_at before segs" s]
    by (auto simp: segments_ok_snoc le_Suc_of_less less_imp_Suc_le tail_available_Suc)
qed

lemma explicit_delayed:
  assumes "segments_ok brotli rlp_u64 delayed header before segs"
  shows "filter from_delayed (explicit_messages brotli rlp_u64 delayed header before segs) =
    map (delayed_out delayed) (u64_range before (cursor_at before segs))"
  using assms
proof (induction segs rule: rev_induct)
  case Nil
  then show ?case by (simp add: explicit_messages_def)
next
  case (snoc s segs)
  from snoc.prems have ok: "segments_ok brotli rlp_u64 delayed header before segs"
    and noerr: "segment_error brotli rlp_u64 delayed header (cursor_at before segs) s = None"
    by (simp_all add: segments_ok_snoc)
  show ?case
  proof (cases "seg_kind s = SEG_DELAYED_MESSAGES")
    case True
    with True delayed_segment_ok(1) [OF noerr] snoc.IH [OF ok] cursor_bounds [OF ok] show ?thesis
      by (simp add: u64_range_snoc emit_at_def is_l2_segment_def segment_kind_defs)
  next
    case False
    with snoc.IH [OF ok] show ?thesis by (simp add: emit_at_def)
  qed
qed

lemma map_u64_range_split:
  "b \<le> c \<Longrightarrow> c = b \<or> c \<le> a \<Longrightarrow> map f (u64_range b c) @ map f (u64_range c a) = map f (u64_range b a)"
  by (cases "c \<le> a") (auto simp: u64_range_append simp flip: map_append)

lemma extract_messages_delayed:
  assumes "extract_messages brotli rlp_u64 header segs before delayed = Inr out"
  shows "filter from_delayed out =
    map (delayed_out delayed) (u64_range before (after_delayed_messages header))"
  using cursor_bounds [OF extract_messages_success(1) [OF assms]]
  by (simp add: extract_messages_success [OF assms] explicit_delayed filter_map o_def
      map_u64_range_split)

lemma extract_messages_available:
  assumes "extract_messages brotli rlp_u64 header segs before delayed = Inr out"
  shows "tail_available delayed before (after_delayed_messages header)"
  using cursor_bounds [OF extract_messages_success(1) [OF assms]] extract_messages_success(2) [OF assms]
  by (auto simp: tail_available_def) (meson not_le_imp_less)

definition wit_header :: BatchHeader where
  "wit_header = \<lparr> min_timestamp = 100, max_timestamp = 200, min_l1_block = 10, max_l1_block = 20,
                   after_delayed_messages = 9 \<rparr>"

definition wit_delayed :: "u64 \<Rightarrow> DelayedMessage" where
  "wit_delayed i = \<lparr> dm_kind = 9, dm_sender = replicate 20 1, dm_block_number = 15, dm_timestamp = 150,
     dm_inbox_seq_num = i, dm_base_fee_l1 = 7, dm_data = [1, 2], dm_before_inbox_acc = replicate 32 0 \<rparr>"

text \<open>For the witnesses: a one-byte RLP integer and the identity as decompression.\<close>

definition wit_rlp_u64 :: "bytes \<Rightarrow> u64 option" where
  "wit_rlp_u64 bs = (case bs of [b] \<Rightarrow> Some (ucast b) | _ \<Rightarrow> None)"

definition wit_segments :: "Segment list" where
  "wit_segments =
     [\<lparr> seg_kind = 3, seg_data = [120] \<rparr>, \<lparr> seg_kind = 0, seg_data = [4, 5] \<rparr>,
      \<lparr> seg_kind = 2, seg_data = [] \<rparr>, \<lparr> seg_kind = 1, seg_data = [6] \<rparr>]"

definition wit_extract :: "MultiplexerError + DerivedMessage list" where
  "wit_extract = extract_messages Some wit_rlp_u64 wit_header wit_segments 7
     (delayed_map_message (from_messages (map wit_delayed [8, 7])))"

lemmas wit_extract_defs =
  wit_extract_def wit_segments_def wit_header_def wit_rlp_u64_def wit_delayed_def
  extract_messages_def extract_segment_def segment_kind_defs MAX_L2_MESSAGE_SIZE_def
  from_messages_def bt_extend_def bt_get_def delayed_map_message_def drain_delayed.simps

lemma wit_extract_not_isl: "\<not> isl wit_extract"
  by (simp add: wit_extract_defs cong: rbind_weak_cong)

lemma wit_extract_ok:
  "extract_messages Some wit_rlp_u64 wit_header wit_segments 7
     (delayed_map_message (from_messages (map wit_delayed [8, 7]))) = Inr (projr wit_extract)"
  unfolding wit_extract_def [symmetric] using sum.collapse(2) [OF wit_extract_not_isl] by (rule sym)

text \<open>C2: a decoded batch carries the delayed messages from its starting cursor up to its own
  count, each exactly once and in index order, with the request id of its index; the source is
  the map built from the fetched messages.\<close>

theorem delayed_messages_exact:
  assumes "extract_messages brotli rlp_u64 header segs before (delayed_map_message (from_messages msgs))
             = Inr out"
  shows "map (\<lambda>m. (h_request_id (d_header m), d_delayed_messages_read m)) (filter from_delayed out) =
         map (\<lambda>i. (Some (u256_to_be (ucast i)), i + 1))
             (u64_range before (after_delayed_messages header))"
proof -
  let ?src = "delayed_map_message (from_messages msgs)"
  have "request_id (the (?src i)) = u256_to_be (ucast i)"
    if "before \<le> i" "i < after_delayed_messages header" for i
  proof -
    have "?src i \<noteq> None"
      using extract_messages_available [OF assms] that by (simp add: tail_available_def)
    then show ?thesis using delayed_map.request_id_of_index by auto
  qed
  then show ?thesis
    by (auto simp: extract_messages_delayed [OF assms] delayed_out_def to_derived_def)
qed

theorem delayed_messages_exact_witness:
  "map (\<lambda>m. (h_request_id (d_header m), d_delayed_messages_read m)) (filter from_delayed (projr wit_extract))
     = map (\<lambda>i. (Some (u256_to_be (ucast i)), i + 1)) (u64_range 7 9)"
  using delayed_messages_exact [OF wit_extract_ok] by (simp add: wit_header_def)

section \<open>Sequencer messages\<close>

lemma explicit_l2:
  "map d_l2_msg (filter (\<lambda>m. \<not> from_delayed m) (explicit_messages brotli rlp_u64 delayed header before segs))
     = map (seg_l2 brotli) (filter is_l2_segment segs)"
proof (induction segs rule: rev_induct)
  case Nil
  then show ?case by (simp add: explicit_messages_def)
next
  case (snoc s segs)
  then show ?case by (simp add: emit_at_def) (simp add: make_l2_message_def)
qed

text \<open>A decoded batch carries the payload of every L2-message segment, plain or compressed,
  in segment order: none is dropped, duplicated or reordered, and no other sequencer message
  appears.\<close>

theorem sequencer_payloads_exact:
  assumes "extract_messages brotli rlp_u64 header segs before delayed = Inr out"
  shows "map d_l2_msg (filter (\<lambda>m. \<not> from_delayed m) out) = map (seg_l2 brotli) (filter is_l2_segment segs)"
  by (simp add: extract_messages_success [OF assms] explicit_l2 filter_map o_def)

theorem sequencer_payloads_exact_witness:
  "map d_l2_msg (filter (\<lambda>m. \<not> from_delayed m) (projr wit_extract)) = [[4, 5], [6]]"
  using sequencer_payloads_exact [OF wit_extract_ok]
  by (simp add: wit_segments_def is_l2_segment_def seg_l2_def segment_kind_defs)

lemma clamp_bounds: "lo \<le> hi \<Longrightarrow> lo \<le> clamp v lo hi \<and> clamp v lo hi \<le> hi"
  by (auto simp: clamp_def min_def max_def)

lemma clamp_inside: "lo \<le> v \<Longrightarrow> v \<le> hi \<Longrightarrow> clamp v lo hi = v"
  by (simp add: clamp_def max_def min_def)

lemma emit_at_member:
  "m \<in> set (emit_at brotli rlp_u64 delayed header before prefix s) \<Longrightarrow> \<not> from_delayed m \<Longrightarrow>
   \<exists>l2 ts b d. m = make_l2_message header l2 ts b d"
  by (auto simp: emit_at_def split: if_splits)

lemma explicit_member:
  assumes "m \<in> set (explicit_messages brotli rlp_u64 delayed header before segs)" "\<not> from_delayed m"
  obtains l2 ts b d where "m = make_l2_message header l2 ts b d"
proof -
  from assms(1) obtain i
    where "m \<in> set (emit_at brotli rlp_u64 delayed header before (take i segs) (segs ! i))"
    by (auto simp: explicit_messages_def)
  from emit_at_member [OF this assms(2)] that show thesis by blast
qed

text \<open>C38: every sequencer message of a decoded batch has the sequencer's kind and address, no
  request id, and a timestamp and L1 block number inside the batch's bounds.\<close>

theorem sequencer_header_bounds:
  assumes "extract_messages brotli rlp_u64 header segs before delayed = Inr out"
    and "min_timestamp header \<le> max_timestamp header" and "min_l1_block header \<le> max_l1_block header"
    and "m \<in> set out" and "\<not> from_delayed m"
  shows "h_kind (d_header m) = KIND_L2_MESSAGE \<and> h_poster (d_header m) = BATCH_POSTER_ADDRESS
    \<and> min_timestamp header \<le> h_timestamp (d_header m) \<and> h_timestamp (d_header m) \<le> max_timestamp header
    \<and> min_l1_block header \<le> h_block_number (d_header m) \<and> h_block_number (d_header m) \<le> max_l1_block header"
proof -
  have "m \<in> set (explicit_messages brotli rlp_u64 delayed header before segs)"
    using assms(4,5) by (auto simp: extract_messages_success(3) [OF assms(1)])
  then obtain l2 ts b d where "m = make_l2_message header l2 ts b d"
    using explicit_member assms(5) by blast
  then show ?thesis
    using clamp_bounds [OF assms(2)] clamp_bounds [OF assms(3)] by (simp add: make_l2_message_def)
qed

definition wit_message :: DerivedMessage where
  "wit_message = make_l2_message wit_header [4, 5] 120 0 7"

lemma wit_message_in: "wit_message \<in> set (projr wit_extract)"
  by (simp add: wit_message_def wit_extract_defs cong: rbind_weak_cong)

theorem sequencer_header_bounds_witness:
  "h_timestamp (d_header wit_message) = 120 \<and> h_block_number (d_header wit_message) = 10
   \<and> (100 :: u64) \<le> h_timestamp (d_header wit_message) \<and> h_block_number (d_header wit_message) \<le> (20 :: u64)"
  using sequencer_header_bounds [OF wit_extract_ok _ _ wit_message_in]
  by (simp add: wit_message_def wit_header_def) (simp add: make_l2_message_def clamp_def)

section \<open>The delayed cursor stamped on each message\<close>

definition cursor_counts :: "u64 \<Rightarrow> DerivedMessage list \<Rightarrow> bool" where
  "cursor_counts before out \<longleftrightarrow>
     (\<forall>k < length out. d_delayed_messages_read (out ! k) =
        before + word_of_nat (length (filter from_delayed (take (Suc k) out))))"

definition delayed_count :: "DerivedMessage list \<Rightarrow> nat" where
  "delayed_count out = length (filter from_delayed out)"

lemma cursor_counts_snoc:
  "cursor_counts before (xs @ [m]) \<longleftrightarrow>
     cursor_counts before xs \<and> d_delayed_messages_read m = before + word_of_nat (delayed_count (xs @ [m]))"
  by (auto simp: cursor_counts_def nth_append less_Suc_eq delayed_count_def)

lemma d_delayed_messages_read_simps [simp]:
  "d_delayed_messages_read (delayed_out delayed i) = i + 1"
  "d_delayed_messages_read (make_l2_message header l2 ts b d) = d"
  by (simp_all add: delayed_out_def to_derived_def make_l2_message_def)

lemma cursor_counts_explicit:
  "cursor_counts before (explicit_messages brotli rlp_u64 delayed header before segs) \<and>
   cursor_at before segs =
     before + word_of_nat (delayed_count (explicit_messages brotli rlp_u64 delayed header before segs))"
proof (induction segs rule: rev_induct)
  case Nil
  then show ?case by (simp add: explicit_messages_def cursor_counts_def delayed_count_def)
next
  case (snoc s segs)
  then show ?case
    by (auto simp: emit_at_def cursor_counts_snoc is_l2_segment_def segment_kind_defs delayed_count_def)
qed

lemma cursor_counts_tail:
  "cursor_counts before xs \<Longrightarrow> c = before + word_of_nat (delayed_count xs) \<Longrightarrow>
   cursor_counts before (xs @ map (delayed_out delayed) (u64_range c after))"
proof (induction "unat after - unat c" arbitrary: c xs)
  case 0
  then show ?case by (simp add: word_le_nat_alt)
next
  case (Suc n)
  then have lt: "c < after" by (simp add: word_less_nat_alt)
  let ?xs = "xs @ [delayed_out delayed c]"
  have "cursor_counts before (?xs @ map (delayed_out delayed) (u64_range (c + 1) after))"
    using Suc.prems Suc.hyps(2) lt
    by (intro Suc.hyps(1)) (auto simp: cursor_counts_snoc unat_Suc_less delayed_count_def)
  with lt show ?case by (simp add: u64_range_rec)
qed

text \<open>the delayed count stamped on each message of a decoded batch is the batch's starting
  cursor plus the number of delayed messages up to and including it.\<close>

theorem delayed_read_counts:
  assumes "extract_messages brotli rlp_u64 header segs before delayed = Inr out"
  shows "cursor_counts before out"
  using cursor_counts_tail [OF cursor_counts_explicit [THEN conjunct1] cursor_counts_explicit [THEN conjunct2]]
  by (simp add: extract_messages_success(3) [OF assms])

theorem delayed_read_counts_witness: "cursor_counts 7 (projr wit_extract)"
  by (rule delayed_read_counts [OF wit_extract_ok])

end
