(* ===== verification/Blob.thy ===== *)
theory Blob
  imports Batch
begin

unbundle bit_operations_syntax

text \<open>
  \<open>crates/arb-reth-derive/src/blob.rs\<close>: EIP-4844 blobs to batch payload bytes.  A blob is 4096
  field elements of 32 bytes; 31 bytes of each carry payload and 6 bits of byte 0 are repacked
  into bytes, eight bits per three quarters of an element.  \<open>rlp\<close> is \<open>Header::decode\<close>.

  The reference encoder \<open>encode_blobs\<close> lays a payload out the way the batch poster does.  Both bit
  packers are read as conversions between base-64 and base-256 digits of one number, which gives
  the round trip.
\<close>

section \<open>The decoder\<close>

definition FIELD_ELEMENTS_PER_BLOB :: nat where
  "FIELD_ELEMENTS_PER_BLOB = 4096"

definition BYTES_PER_FIELD_ELEMENT :: nat where
  "BYTES_PER_FIELD_ELEMENT = 32"

definition BYTES_PER_BLOB :: nat where
  "BYTES_PER_BLOB = FIELD_ELEMENTS_PER_BLOB * BYTES_PER_FIELD_ELEMENT"

definition SPARE_BLOB_BITS :: nat where
  "SPARE_BLOB_BITS = 6"

definition BLOB_ENCODABLE_DATA :: nat where
  "BLOB_ENCODABLE_DATA = 254 * FIELD_ELEMENTS_PER_BLOB div 8"

definition BODY_BYTES_PER_BLOB :: nat where
  "BODY_BYTES_PER_BLOB = (BYTES_PER_FIELD_ELEMENT - 1) * FIELD_ELEMENTS_PER_BLOB"

lemmas blob_consts = FIELD_ELEMENTS_PER_BLOB_def BYTES_PER_FIELD_ELEMENT_def BYTES_PER_BLOB_def
  SPARE_BLOB_BITS_def BLOB_ENCODABLE_DATA_def BODY_BYTES_PER_BLOB_def

datatype BlobDecodeError = SpareBits nat | BlobRlp string

text \<open>The derived \<open>Debug\<close> rendering.\<close>

fun blob_error_debug :: "BlobDecodeError \<Rightarrow> string" where
  "blob_error_debug (SpareBits n) = ''SpareBits('' @ dec n @ '')''"
| "blob_error_debug (BlobRlp s) = ''Rlp('' @ [CHR 0x22] @ s @ [CHR 0x22] @ '')''"

definition blob_bodies :: "bytes \<Rightarrow> bytes" where
  "blob_bodies blob =
     concat (map (\<lambda>fe. let base = fe * BYTES_PER_FIELD_ELEMENT in
                   slice (base + 1) (base + BYTES_PER_FIELD_ELEMENT) blob)
                 [0..<FIELD_ELEMENTS_PER_BLOB])"

type_synonym spare_state = "16 word \<times> nat \<times> bytes"

definition spare_step :: "byte \<Rightarrow> spare_state \<Rightarrow> spare_state" where
  "spare_step b st =
     (case st of (acc, acc_bits, out) \<Rightarrow>
        let acc = acc OR push_bit acc_bits (ucast b);
            acc_bits = acc_bits + SPARE_BLOB_BITS
        in if acc_bits \<ge> 8 then (drop_bit 8 acc, acc_bits - 8, out @ [ucast acc])
           else (acc, acc_bits, out))"

definition blob_spares :: "bytes \<Rightarrow> spare_state" where
  "blob_spares blob =
     fold (\<lambda>fe. spare_step (blob ! (fe * BYTES_PER_FIELD_ELEMENT))) [0..<FIELD_ELEMENTS_PER_BLOB] (0, 0, [])"

fun unpack_blobs :: "bytes list \<Rightarrow> bytes \<Rightarrow> BlobDecodeError + bytes" where
  "unpack_blobs [] rlp_data = Inr rlp_data"
| "unpack_blobs (blob # blobs) rlp_data =
     (case blob_spares blob of (acc, acc_bits, spares) \<Rightarrow>
        if acc_bits \<noteq> 0 then Inl (SpareBits acc_bits)
        else unpack_blobs blobs (rlp_data @ blob_bodies blob @ spares))"

definition decode_blobs :: "rlp_header \<Rightarrow> bytes list \<Rightarrow> BlobDecodeError + bytes" where
  "decode_blobs rlp blobs =
     rbind (unpack_blobs blobs []) (\<lambda>rlp_data.
       case rlp rlp_data of
         None \<Rightarrow> Inl (BlobRlp ''bad header'')
       | Some (is_list, payload_length, data) \<Rightarrow>
           if is_list then Inl (BlobRlp ''expected string, got list'')
           else if payload_length > length data then Inl (BlobRlp ''payload length exceeds data'')
           else Inr (take payload_length data))"

section \<open>The reference encoder\<close>

fun spare_digits :: "nat \<Rightarrow> 16 word \<Rightarrow> nat \<Rightarrow> bytes \<Rightarrow> bytes" where
  "spare_digits 0 acc acc_bits spares = []"
| "spare_digits (Suc n) acc acc_bits spares =
     (let (acc, acc_bits, spares) =
            (case spares of
               s # spares' \<Rightarrow>
                 if acc_bits < SPARE_BLOB_BITS then (acc OR push_bit acc_bits (ucast s), acc_bits + 8, spares')
                 else (acc, acc_bits, spares)
             | [] \<Rightarrow> (acc, acc_bits, spares))
      in ucast (acc AND 0x3f)
           # spare_digits n (drop_bit SPARE_BLOB_BITS acc) (acc_bits - SPARE_BLOB_BITS) spares)"

definition encode_blob :: "bytes \<Rightarrow> bytes" where
  "encode_blob chunk =
     (let bodies = take BODY_BYTES_PER_BLOB chunk; spares = drop BODY_BYTES_PER_BLOB chunk;
          digits = spare_digits FIELD_ELEMENTS_PER_BLOB 0 0 spares
      in concat (map (\<lambda>fe. digits ! fe # slice (fe * 31) (fe * 31 + 31) bodies) [0..<FIELD_ELEMENTS_PER_BLOB]))"

definition blob_chunks :: "bytes \<Rightarrow> bytes list" where
  "blob_chunks stream =
     (let n = max 1 ((length stream + BLOB_ENCODABLE_DATA - 1) div BLOB_ENCODABLE_DATA);
          padded = stream @ replicate (n * BLOB_ENCODABLE_DATA - length stream) 0
      in map (\<lambda>i. slice (i * BLOB_ENCODABLE_DATA) (i * BLOB_ENCODABLE_DATA + BLOB_ENCODABLE_DATA) padded) [0..<n])"

definition encode_blobs :: "(bytes \<Rightarrow> bytes) \<Rightarrow> bytes \<Rightarrow> bytes list" where
  "encode_blobs enc data = map encode_blob (blob_chunks (enc data))"

section \<open>Digits\<close>

fun le_val :: "nat \<Rightarrow> nat list \<Rightarrow> nat" where
  "le_val base [] = 0"
| "le_val base (d # ds) = d + base * le_val base ds"

lemma le_val_append: "le_val base (xs @ ys) = le_val base xs + base ^ length xs * le_val base ys"
  by (induction xs) (auto simp: algebra_simps)

lemma le_val_inject:
  assumes "length xs = length ys" "\<forall>x \<in> set xs. x < base" "\<forall>y \<in> set ys. y < base"
    and "le_val base xs = le_val base ys"
  shows "xs = ys"
  using assms
proof (induction xs ys rule: list_induct2)
  case (Cons x xs y ys)
  from Cons.prems(1,2) have "x < base" "y < base" by simp_all
  then have "(x + base * v) mod base = x" "(x + base * v) div base = v"
    "(y + base * v) mod base = y" "(y + base * v) div base = v" for v by simp_all
  with Cons show ?case by (metis le_val.simps(2) list.set_intros(2))
qed simp

abbreviation le256 :: "bytes \<Rightarrow> nat" where
  "le256 bs \<equiv> le_val 256 (map unat bs)"

abbreviation le64 :: "bytes \<Rightarrow> nat" where
  "le64 bs \<equiv> le_val 64 (map unat bs)"

lemma unat_byte_less [simp]: "unat (b :: byte) < 256"
  using unat_bound [of b] by simp

lemma le256_inject: "length xs = length ys \<Longrightarrow> le256 xs = le256 ys \<Longrightarrow> xs = ys"
  using le_val_inject [of "map unat xs" "map unat ys" 256]
  by (auto simp: inj_on_def word_unat_eq_iff dest!: map_injective)

section \<open>The accumulator\<close>

lemma or_push_bit_nat: "(a :: nat) < 2 ^ k \<Longrightarrow> a OR push_bit k b = a + b * 2 ^ k"
proof -
  assume "a < 2 ^ k"
  then have a: "take_bit k a = a" by (simp add: take_bit_nat_eq_self)
  have "a AND push_bit k b = 0"
    by (subst a [symmetric], rule bit_eqI) (auto simp: bit_and_iff bit_take_bit_iff bit_push_bit_iff)
  then have "a + push_bit k b = a OR push_bit k b" by (rule disjunctive_add_eq_or)
  then show ?thesis by (simp add: push_bit_eq_mult)
qed

lemma unat_ucast_byte: "unat (ucast (b :: byte) :: 16 word) = unat b"
  using take_bit_nat_eq_self [of "unat b" 16] unat_byte_less [of b] by (simp add: unsigned_ucast_eq)

lemma or_push_bit_add:
  fixes acc :: "16 word"
  assumes "unat acc < 2 ^ k" "unat b * 2 ^ k < 2 ^ 16"
  shows "unat (acc OR push_bit k (ucast (b :: byte))) = unat acc + unat b * 2 ^ k"
proof -
  have "unat (push_bit k (ucast b :: 16 word)) = push_bit k (unat b)"
    using assms(2) by (simp only: unsigned_push_bit_eq unat_ucast_byte)
      (simp add: push_bit_eq_mult take_bit_nat_eq_self)
  with assms(1) show ?thesis by (simp add: unsigned_or_eq or_push_bit_nat)
qed

lemma unat_low_byte: "unat (ucast (w :: 16 word) :: byte) = unat w mod 256"
  by (simp add: unsigned_ucast_eq take_bit_eq_mod)

lemma unat_drop_bit_div: "unat (drop_bit k (w :: 16 word)) = unat w div 2 ^ k"
  by (simp only: unat_drop_bit_eq) (simp add: drop_bit_eq_div)

lemma unat_low_six: "unat (ucast ((w :: 16 word) AND 0x3f) :: byte) = unat w mod 64"
proof -
  have "unat (w AND 0x3f) = unat w AND 0x3f" by (simp add: unsigned_and_eq)
  also have "\<dots> = take_bit 6 (unat w)" by (simp add: take_bit_eq_mask mask_eq_exp_minus_1)
  also have "\<dots> = unat w mod 64" by (simp add: take_bit_eq_mod)
  finally show ?thesis by (simp add: unat_low_byte)
qed

section \<open>The decoder reads base-64 digits\<close>

text \<open>Whatever the bytes, the bit counter is determined by how many were read and written.\<close>

lemma spare_step_bits:
  "spare_step b (acc, k, out) = (acc', k', out') \<Longrightarrow> k < 8 \<Longrightarrow>
     k' < 8 \<and> k' + 8 * length out' = k + 6 + 8 * length out"
  by (auto simp: spare_step_def Let_def SPARE_BLOB_BITS_def split: if_splits)

lemma spare_fold_bits:
  "fold spare_step bs (acc, k, out) = (acc', k', out') \<Longrightarrow> k < 8 \<Longrightarrow>
     k' < 8 \<and> k' + 8 * length out' = k + 8 * length out + 6 * length bs"
proof (induction bs arbitrary: acc k out)
  case (Cons b bs)
  obtain acc1 k1 out1 where st: "spare_step b (acc, k, out) = (acc1, k1, out1)" by (metis prod_cases3)
  with Cons.IH [of acc1 k1 out1] Cons.prems spare_step_bits [OF st] show ?case by auto
qed simp

lemma spare_step_digits:
  assumes "spare_step b (acc, k, out) = (acc', k', out')" "k < 8" "unat acc < 2 ^ k" "unat b < 64"
  shows "unat acc' < 2 ^ k' \<and>
    le256 out' + 256 ^ length out' * unat acc' = le256 out + 256 ^ length out * (unat acc + 2 ^ k * unat b)"
proof -
  have "unat b * 2 ^ k < 2 ^ 6 * 2 ^ k" using assms(4) by simp
  also have "\<dots> \<le> 2 ^ (6 + 7)" using assms(2) unfolding power_add [symmetric] by (intro power_increasing) auto
  finally have "unat b * 2 ^ k < 2 ^ 16" by simp
  from or_push_bit_add [OF assms(3) this]
  have sum: "unat (acc OR push_bit k (ucast b)) = unat acc + unat b * 2 ^ k" (is "unat ?w = _") .
  have "unat b * 2 ^ k \<le> 63 * 2 ^ k" using assms(4) by (intro mult_right_mono) auto
  with assms(3) have "unat ?w < 64 * 2 ^ k" unfolding sum by linarith
  then have bound: "unat ?w < 2 ^ (k + 6)" by (simp add: power_add)
  define w where "w = ?w"
  note st = assms(1) [unfolded spare_step_def prod.case Let_def SPARE_BLOB_BITS_def, folded w_def]
  note sum = sum [folded w_def] and bound = bound [folded w_def]
  show ?thesis
  proof (cases "8 \<le> k + 6")
    case True
    then have st: "acc' = drop_bit 8 w" "k' + 8 = k + 6" "out' = out @ [ucast w]"
      using st by auto
    have "unat w < 2 ^ (k' + 8)" using bound by (simp only: st(2))
    then have "unat w div 256 < 2 ^ k'" by (simp add: power_add less_mult_imp_div_less)
    moreover have "unat w = unat w mod 256 + 256 * (unat w div 256)" by simp
    then have "unat acc + 2 ^ k * unat b = unat w mod 256 + 256 * (unat w div 256)"
      using sum by (simp add: mult.commute)
    moreover have "p * (unat w mod 256) + p * (256 * (unat w div 256)) = p * unat w" for p
      by (simp flip: distrib_left)
    from this [of "256 ^ length out"]
    have "256 ^ length out * (unat w mod 256) + 256 * 256 ^ length out * (unat w div 256)
        = 256 ^ length out * unat w" by (simp add: ac_simps)
    ultimately show ?thesis
      by (simp add: st unat_drop_bit_div unat_low_byte le_val_append)
  next
    case False
    with st bound sum show ?thesis by (auto simp: algebra_simps)
  qed
qed

lemma spare_fold_digits:
  assumes "fold spare_step bs (acc, k, out) = (acc', k', out')" "k < 8" "unat acc < 2 ^ k"
    "\<forall>b \<in> set bs. unat b < 64"
    "k + 8 * length out = 6 * n"
  shows "unat acc' < 2 ^ k' \<and>
    le256 out' + 256 ^ length out' * unat acc'
      = le256 out + 256 ^ length out * unat acc + 64 ^ n * le64 bs"
  using assms
proof (induction bs arbitrary: acc k out n)
  case (Cons b bs)
  obtain acc1 k1 out1 where st: "spare_step b (acc, k, out) = (acc1, k1, out1)" by (metis prod_cases3)
  note bits = spare_step_bits [OF st Cons.prems(2)]
  have dig: "unat acc1 < 2 ^ k1 \<and> le256 out1 + 256 ^ length out1 * unat acc1
      = le256 out + 256 ^ length out * (unat acc + 2 ^ k * unat b)"
    using spare_step_digits [OF st] Cons.prems by simp
  have "(256::nat) ^ length out * 2 ^ k = 2 ^ (8 * length out + k)"
    by (simp add: power_mult power_add)
  also have "\<dots> = 64 ^ n" using Cons.prems(5) by (simp add: add.commute power_mult)
  finally have pow: "(256::nat) ^ length out * 2 ^ k = 64 ^ n" .
  have "unat acc' < 2 ^ k' \<and> le256 out' + 256 ^ length out' * unat acc'
      = le256 out1 + 256 ^ length out1 * unat acc1 + 64 ^ Suc n * le64 bs"
    using Cons.prems dig bits st Cons.IH [of acc1 k1 out1 "Suc n"] by simp
  with dig pow show ?case by (simp add: algebra_simps)
qed simp

lemma spare_fold_value:
  assumes "fold spare_step bs (0, 0, []) = (acc, k, out)" "\<forall>b \<in> set bs. unat b < 64" "k = 0"
  shows "le256 out = le64 bs"
  using spare_fold_digits [OF assms(1), of 0] assms by auto

section \<open>The encoder writes base-64 digits\<close>

lemma length_spare_digits [simp]: "length (spare_digits n acc k spares) = n"
  by (induction n acc k spares rule: spare_digits.induct) (auto simp: Let_def split: list.splits prod.splits)

lemma spare_digits_small: "\<forall>d \<in> set (spare_digits n acc k spares). unat d < 64"
  by (induction n acc k spares rule: spare_digits.induct)
     (auto simp: Let_def unat_low_six split: list.splits prod.splits)

lemma spare_digits_value:
  assumes "k + 8 * length spares = 6 * n" "k < 14" "unat acc < 2 ^ k"
  shows "le64 (spare_digits n acc k spares) = unat acc + 2 ^ k * le256 spares"
  using assms
proof (induction n arbitrary: acc k spares)
  case 0
  then show ?case by simp
next
  case (Suc n)
  have emit: "le64 (ucast (w AND 0x3f) # spare_digits n (drop_bit 6 w) (j - 6) ss) = unat w + 2 ^ j * le256 ss"
    if "6 \<le> j" "j < 14" "unat w < 2 ^ j" "j + 8 * length ss = 6 * Suc n" for w :: "16 word" and j ss
  proof -
    have "unat w < 2 ^ (j - 6 + 6)" using that by simp
    then have "unat w div 64 < 2 ^ (j - 6)" by (subst (asm) power_add) (simp add: less_mult_imp_div_less)
    then have "le64 (spare_digits n (drop_bit 6 w) (j - 6) ss) = unat w div 64 + 2 ^ (j - 6) * le256 ss"
      using that by (subst Suc.IH) (auto simp: unat_drop_bit_div)
    moreover have "(64::nat) * 2 ^ (j - 6) = 2 ^ j" using that(1) power_add [of "2::nat" 6 "j - 6"] by simp
    ultimately show ?thesis by (simp add: unat_low_six algebra_simps)
  qed
  show ?case
  proof (cases "k < 6")
    case False
    then show ?thesis
      using Suc.prems emit [of k acc spares] by (cases spares) (auto simp: Let_def SPARE_BLOB_BITS_def)
  next
    case True
    with Suc.prems(1) obtain s ss where sp: "spares = s # ss" by (cases spares) auto
    have "unat s * 2 ^ k < 2 ^ 8 * 2 ^ k" by simp
    also have "\<dots> \<le> 2 ^ (8 + 5)" using True unfolding power_add [symmetric] by (intro power_increasing) auto
    finally have "unat s * 2 ^ k < 2 ^ 16" by simp
    from or_push_bit_add [OF Suc.prems(3) this]
    have sum: "unat (acc OR push_bit k (ucast s)) = unat acc + unat s * 2 ^ k" (is "unat ?w = _") .
    have "unat s * 2 ^ k \<le> 255 * 2 ^ k" using unat_byte_less [of s] by (intro mult_right_mono) linarith+
    with Suc.prems(3) have "unat ?w < 256 * 2 ^ k" unfolding sum by linarith
    then have "unat ?w < 2 ^ (k + 8)" by (simp add: power_add)
    with emit [of "k + 8" ?w ss] Suc.prems True sp sum show ?thesis
      by (simp add: Let_def SPARE_BLOB_BITS_def power_add algebra_simps)
  qed
qed

section \<open>Layout of a blob\<close>

lemma concat_slices:
  "n * k \<le> length xs \<Longrightarrow> concat (map (\<lambda>i. slice (i * k) (i * k + k) xs) [0..<n]) = take (n * k) xs"
proof (induction n)
  case (Suc n)
  then have "concat (map (\<lambda>i. slice (i * k) (i * k + k) xs) [0..<n]) = take (n * k) xs" by simp
  then show ?case by (simp add: slice_def add.commute [of k] take_add)
qed simp

lemma blob_spares_digits:
  "blob_spares blob = fold spare_step (map (\<lambda>fe. blob ! (fe * 32)) [0..<4096]) (0, 0, [])"
  by (simp add: blob_spares_def blob_consts fold_map o_def)

lemma blob_spares_shape:
  assumes "blob_spares blob = (acc, k, spares)"
  shows "k = 0" and "length spares = 3072"
proof -
  have "k < 8 \<and> k + 8 * length spares = 6 * 4096"
    using spare_fold_bits [of "map (\<lambda>fe. blob ! (fe * 32)) [0..<4096]" 0 0 "[]" acc k spares] assms
    by (simp add: blob_spares_digits)
  then show "k = 0" "length spares = 3072" by presburger+
qed

lemma unpack_blobs_total:
  "unpack_blobs blobs data =
     Inr (data @ concat (map (\<lambda>blob. blob_bodies blob @ snd (snd (blob_spares blob))) blobs))"
proof (induction blobs arbitrary: data)
  case (Cons blob blobs)
  obtain acc k spares where sp: "blob_spares blob = (acc, k, spares)" by (metis prod_cases3)
  with blob_spares_shape(1) [OF sp] Cons show ?case by simp
qed simp

definition field_element :: "bytes \<Rightarrow> nat \<Rightarrow> bytes" where
  "field_element chunk fe =
     spare_digits 4096 0 0 (drop 126976 chunk) ! fe # slice (fe * 31) (fe * 31 + 31) (take 126976 chunk)"

lemma encode_blob_elements: "encode_blob chunk = concat (map (field_element chunk) [0..<4096])"
  by (simp add: encode_blob_def field_element_def [abs_def] blob_consts Let_def)

lemma length_field_element:
  "length chunk = 130048 \<Longrightarrow> fe < 4096 \<Longrightarrow> length (field_element chunk fe) = 32"
  by (simp add: field_element_def)

lemma encode_blob_element:
  assumes "length chunk = 130048" "fe < 4096"
  shows "abi_word (encode_blob chunk) fe = field_element chunk fe"
  unfolding encode_blob_elements using assms
  by (subst abi_word_concat) (auto simp: length_field_element)

lemma length_encode_blob: "length chunk = 130048 \<Longrightarrow> length (encode_blob chunk) = BYTES_PER_BLOB"
  unfolding encode_blob_elements
  by (subst length_concat_const [of _ 32]) (auto simp: length_field_element blob_consts)

lemma abi_word_parts:
  "slice (fe * 32 + 1) (fe * 32 + 32) blob = tl (abi_word blob fe)"
  "fe * 32 < length blob \<Longrightarrow> blob ! (fe * 32) = hd (abi_word blob fe)"
  by (simp_all add: abi_word_def slice_def tl_take hd_take hd_drop_conv_nth drop_Suc tl_drop [symmetric])

lemma encode_blob_bodies:
  assumes "length chunk = 130048"
  shows "blob_bodies (encode_blob chunk) = take 126976 chunk"
proof -
  have "blob_bodies (encode_blob chunk) =
      concat (map (\<lambda>fe. slice (fe * 31) (fe * 31 + 31) (take 126976 chunk)) [0..<4096])"
    using assms unfolding blob_bodies_def Let_def blob_consts abi_word_parts(1)
    by (intro arg_cong [where f = concat] map_cong)
       (auto simp: abi_word_parts(1) [simplified] encode_blob_element field_element_def)
  with assms show ?thesis using concat_slices [of 4096 31 "take 126976 chunk"] by simp
qed

lemma encode_blob_spares:
  assumes "length chunk = 130048"
  shows "snd (snd (blob_spares (encode_blob chunk))) = drop 126976 chunk"
proof -
  obtain acc k spares where sp: "blob_spares (encode_blob chunk) = (acc, k, spares)" by (metis prod_cases3)
  let ?digits = "spare_digits 4096 0 0 (drop 126976 chunk)"
  have "map (\<lambda>fe. encode_blob chunk ! (fe * 32)) [0..<4096] = ?digits"
    using assms by (intro nth_equalityI)
      (auto simp: abi_word_parts(2) length_encode_blob blob_consts encode_blob_element field_element_def)
  then have "fold spare_step ?digits (0, 0, []) = (acc, k, spares)"
    using sp by (simp add: blob_spares_digits)
  then have "le256 spares = le64 ?digits"
    using spare_digits_small blob_spares_shape(1) [OF sp] by (intro spare_fold_value)
  also have "\<dots> = le256 (drop 126976 chunk)"
    using assms spare_digits_value [of 0 "drop 126976 chunk" 4096 0] by simp
  finally show ?thesis
    using blob_spares_shape(2) [OF sp] assms sp by (simp add: le256_inject)
qed

lemma unpack_encode_blobs:
  assumes "\<forall>chunk \<in> set chunks. length chunk = 130048"
  shows "unpack_blobs (map encode_blob chunks) [] = Inr (concat chunks)"
  using assms by (simp add: unpack_blobs_total o_def encode_blob_bodies encode_blob_spares cong: map_cong)

lemma blob_chunks_shape:
  "(\<forall>chunk \<in> set (blob_chunks stream). length chunk = 130048) \<and>
   (\<exists>n. concat (blob_chunks stream) = stream @ replicate n 0)"
proof -
  define n where "n = max 1 ((130047 + length stream) div 130048)"
  define padded where "padded = stream @ replicate (n * 130048 - length stream) 0"
  have chunks: "blob_chunks stream = map (\<lambda>i. slice (i * 130048) (i * 130048 + 130048) padded) [0..<n]"
    by (simp add: blob_chunks_def Let_def blob_consts n_def padded_def)
  have "length stream \<le> n * 130048" by (simp add: n_def)
  then have len: "length padded = n * 130048" by (simp add: padded_def)
  have "i * 130048 + 130048 \<le> n * 130048" if "i < n" for i
    using that mult_le_mono1 [of "Suc i" n 130048] by simp
  with len have "\<forall>chunk \<in> set (blob_chunks stream). length chunk = 130048"
    by (auto simp: chunks)
  moreover have "concat (blob_chunks stream) = padded"
    using concat_slices [of n 130048 padded] len by (simp add: chunks)
  ultimately show ?thesis unfolding padded_def by blast
qed

lemma decode_encode_blobs_core:
  assumes "rlp_encodes rlp enc" and "length data < 2 ^ 64"
  shows "decode_blobs rlp (encode_blobs enc data) = Inr data"
proof -
  obtain n where "unpack_blobs (encode_blobs enc data) [] = Inr (enc data @ replicate n 0)"
    using blob_chunks_shape [of "enc data"] unpack_encode_blobs unfolding encode_blobs_def by metis
  moreover have "rlp (enc data @ replicate n 0) = Some (False, length data, data @ replicate n 0)"
    using assms by (simp add: rlp_encodes_def)
  ultimately show ?thesis by (simp add: decode_blobs_def)
qed

text \<open>C34: a payload laid out over as many blobs as it needs, bodies and spare bits, decodes back
  to itself.\<close>

theorem decode_encode_blobs:
  assumes "rlp_encodes rlp enc" and "length data < 2 ^ 64"
  shows "decode_blobs rlp (encode_blobs enc data) = Inr data"
  using assms by (rule decode_encode_blobs_core)

theorem decode_encode_blobs_witness:
  "decode_blobs rlp_ref_header (encode_blobs rlp_ref_encode [7, 0, 255]) = Inr [7, 0, 255]"
  by (rule decode_encode_blobs [OF rlp_ref_encodes]) simp

lemma length_blob_bodies: "length blob = BYTES_PER_BLOB \<Longrightarrow> length (blob_bodies blob) = 126976"
  unfolding blob_bodies_def
  by (subst length_concat_const [of _ 31]) (auto simp: blob_consts Let_def)

text \<open>whatever bytes the blobs hold, their spare bits always drain: each blob contributes
  exactly its 130048 usable bytes, and decoding fails only on the RLP envelope.\<close>

theorem decode_blobs_drains:
  assumes "\<forall>blob \<in> set blobs. length blob = BYTES_PER_BLOB"
  shows "(\<exists>stream. unpack_blobs blobs [] = Inr stream \<and> length stream = length blobs * BLOB_ENCODABLE_DATA)
    \<and> decode_blobs rlp blobs \<noteq> Inl (SpareBits n)"
proof -
  have "length (blob_bodies blob @ snd (snd (blob_spares blob))) = 130048" if "blob \<in> set blobs" for blob
    using that assms blob_spares_shape(2) [of blob] by (cases "blob_spares blob") (auto simp: length_blob_bodies)
  then have "length (concat (map (\<lambda>blob. blob_bodies blob @ snd (snd (blob_spares blob))) blobs))
      = length blobs * BLOB_ENCODABLE_DATA"
    by (subst length_concat_const [of _ 130048]) (auto simp: blob_consts)
  then show ?thesis
    by (auto simp: unpack_blobs_total decode_blobs_def split: option.splits)
qed

theorem decode_blobs_drains_witness:
  "decode_blobs rlp_ref_header [replicate BYTES_PER_BLOB 255] \<noteq> Inl (SpareBits 4)"
  using decode_blobs_drains [of "[replicate BYTES_PER_BLOB 255]"] by simp

end
