(* ===== verification/L1_Assemble.thy ===== *)
theory L1_Assemble
  imports Multiplexer Blob
begin

text \<open>
  \<open>crates/arb-reth-l1/src/{lib,batch_serialize,feed,assemble}.rs\<close>: resolved batches to the numbered
  feed-message stream the driver executes.

  External code is gathered in the record \<open>externals\<close>: brotli, the RLP header and integer decoders,
  keccak256, the \<open>{:#x}\<close> rendering of byte arrays and base64.  The ABI of the three batch-poster
  calls (generated by the \<open>sol!\<close> macro) is the record \<open>poster_abi\<close>.
\<close>

section \<open>Types\<close>

record externals =
  x_brotli :: "bytes \<Rightarrow> bytes option"
  x_rlp :: rlp_header
  x_rlp_u64 :: "bytes \<Rightarrow> u64 option"
  x_keccak :: "bytes \<Rightarrow> b256"
  x_hex :: "bytes \<Rightarrow> string"
  x_base64 :: "bytes \<Rightarrow> string"

record poster_abi =
  origin_selector :: bytes
  origin_decode :: "bytes \<Rightarrow> bytes option"
  legacy_selector :: bytes
  legacy_decode :: "bytes \<Rightarrow> bytes option"
  delay_proof_selector :: bytes
  delay_proof_decode :: "bytes \<Rightarrow> bytes option"

text \<open>\<open>Panic\<close> is not an error of the code: it stands for a panic of the thread.\<close>

datatype L1Error =
    CalldataTooShort nat
  | UnknownSelector bytes
  | Abi
  | L1Batch BatchError
  | L1Mux MultiplexerError
  | L1Blob string
  | UnsupportedDataLocation byte
  | Missing string
  | Rpc string
  | Panic string

datatype BatchPayload =
    Calldata bytes
  | BlobPayload "b256 list" u64
  | NoPayload

record DeliveredBatch =
  db_sequence_number :: u64
  db_before_acc :: b256
  db_after_acc :: b256
  db_event :: SequencerBatchDeliveredData
  db_payload :: BatchPayload

section \<open>Payload decoding\<close>

definition extract_calldata_payload :: "poster_abi \<Rightarrow> bytes \<Rightarrow> L1Error + bytes" where
  "extract_calldata_payload abi input =
     (if length input < 4 then Inl (CalldataTooShort (length input))
      else let selector = take 4 input in
        if selector = origin_selector abi then ok_or Abi (origin_decode abi input)
        else if selector = legacy_selector abi then ok_or Abi (legacy_decode abi input)
        else if selector = delay_proof_selector abi then ok_or Abi (delay_proof_decode abi input)
        else Inl (UnknownSelector selector))"

definition decode_payload_messages ::
  "externals \<Rightarrow> BatchHeader \<Rightarrow> bytes \<Rightarrow> u64 \<Rightarrow> delayed_lookup \<Rightarrow> L1Error + DerivedMessage list" where
  "decode_payload_messages x header payload before_delayed_count delayed =
     rbind (if payload = [] then Inr []
            else rbind (map_err L1Batch (decompress_payload (x_brotli x) payload))
                   (\<lambda>seg_bytes. map_err L1Batch (parse_segments (x_rlp x) seg_bytes)))
       (\<lambda>segments. map_err L1Mux
          (extract_messages (x_brotli x) (x_rlp_u64 x) header segments before_delayed_count delayed))"

definition decode_batch_messages ::
  "externals \<Rightarrow> DeliveredBatch \<Rightarrow> u64 \<Rightarrow> delayed_lookup \<Rightarrow> L1Error + DerivedMessage list" where
  "decode_batch_messages x batch before_delayed_count delayed =
     (case db_payload batch of
        Calldata p \<Rightarrow> decode_payload_messages x (batch_header (db_event batch)) p before_delayed_count delayed
      | NoPayload \<Rightarrow> Inr []
      | BlobPayload _ _ \<Rightarrow> Inl (UnsupportedDataLocation LOC_BLOB_HASHES))"

section \<open>Batch serialization for posting reports\<close>

record BatchDataStats =
  bs_length :: u64
  bs_non_zeros :: u64

definition FLAG_BLOB_HASHES :: byte where
  "FLAG_BLOB_HASHES = 0x50"

definition serialize_batch :: "DeliveredBatch \<Rightarrow> bytes" where
  "serialize_batch batch =
     (let h = batch_header (db_event batch) in
      concat (map u64_to_be [min_timestamp h, max_timestamp h, min_l1_block h, max_l1_block h,
                             after_delayed_messages h])
      @ (case db_payload batch of
           Calldata d \<Rightarrow> d
         | BlobPayload hashes _ \<Rightarrow> FLAG_BLOB_HASHES # concat hashes
         | NoPayload \<Rightarrow> []))"

definition batch_data_hash :: "externals \<Rightarrow> DeliveredBatch \<Rightarrow> b256" where
  "batch_data_hash x batch = x_keccak x (serialize_batch batch)"

definition batch_data_stats :: "bytes \<Rightarrow> BatchDataStats" where
  "batch_data_stats serialized =
     \<lparr> bs_length = word_of_nat (length serialized),
       bs_non_zeros = word_of_nat (length (filter (\<lambda>b. b \<noteq> 0) serialized)) \<rparr>"

definition report_data_hash :: "bytes \<Rightarrow> b256 option" where
  "report_data_hash body = get_range body 52 84"

definition report_batch_num :: "bytes \<Rightarrow> u64 option" where
  "report_batch_num body = map_option (\<lambda>word. u64_of_be (slice 24 32 word)) (get_range body 84 116)"

section \<open>Feed messages\<close>

datatype json = JNull | JString string | JNumber u64

record FeedHeader =
  fh_kind :: byte
  fh_sender :: string
  fh_block_number :: u64
  fh_timestamp :: u64
  fh_request_id :: json
  fh_base_fee_l1 :: json

record BroadcastFeedMessage =
  bf_sequence_number :: u64
  bf_header :: FeedHeader
  bf_l2msg :: string
  bf_batch_data_stats :: "BatchDataStats option"
  bf_delayed_messages_read :: u64

definition u64_try_from :: "u256 \<Rightarrow> u64 option" where
  "u64_try_from v = (if unat v < 2 ^ 64 then Some (ucast v) else None)"

definition derived_to_feed_message_with_stats ::
  "externals \<Rightarrow> DerivedMessage \<Rightarrow> u64 \<Rightarrow> BatchDataStats option \<Rightarrow> BroadcastFeedMessage" where
  "derived_to_feed_message_with_stats x derived sequence_number stats =
     (let h = d_header derived in
      \<lparr> bf_sequence_number = sequence_number,
        bf_header =
          \<lparr> fh_kind = h_kind h,
            fh_sender = x_hex x (h_poster h),
            fh_block_number = h_block_number h,
            fh_timestamp = h_timestamp h,
            fh_request_id = (case h_request_id h of Some rid \<Rightarrow> JString (x_hex x rid) | None \<Rightarrow> JNull),
            fh_base_fee_l1 =
              JNumber (case u64_try_from (h_l1_base_fee h) of Some v \<Rightarrow> v | None \<Rightarrow> 0) \<rparr>,
        bf_l2msg = x_base64 x (d_l2_msg derived),
        bf_batch_data_stats = stats,
        bf_delayed_messages_read = d_delayed_messages_read derived \<rparr>)"

definition derived_to_feed_message :: "externals \<Rightarrow> DerivedMessage \<Rightarrow> u64 \<Rightarrow> BroadcastFeedMessage" where
  "derived_to_feed_message x derived sequence_number =
     derived_to_feed_message_with_stats x derived sequence_number None"

section \<open>Assembly\<close>

definition KIND_BATCH_POSTING_REPORT :: byte where
  "KIND_BATCH_POSTING_REPORT = 13"

type_synonym report_stats = "(b256, BatchDataStats) btree"

definition derived_to_feed ::
  "externals \<Rightarrow> DerivedMessage \<Rightarrow> u64 \<Rightarrow> report_stats \<Rightarrow> L1Error + BroadcastFeedMessage" where
  "derived_to_feed x m seq stats =
     (if h_kind (d_header m) = KIND_BATCH_POSTING_REPORT then
        rbind (ok_or (Missing ''batch posting report data_hash'') (report_data_hash (d_l2_msg m)))
          (\<lambda>dh. rbind (ok_or (Missing ''batch posting report stats (batch not seen)'') (bt_get dh stats))
            (\<lambda>s. Inr (derived_to_feed_message_with_stats x m seq (Some s))))
      else Inr (derived_to_feed_message x m seq))"

fun feed_loop ::
  "externals \<Rightarrow> DerivedMessage list \<Rightarrow> u64 \<Rightarrow> report_stats \<Rightarrow> L1Error + BroadcastFeedMessage list" where
  "feed_loop x [] seq stats = Inr []"
| "feed_loop x (m # ms) seq stats =
     rbind (derived_to_feed x m seq stats)
       (\<lambda>f. rbind (feed_loop x ms (seq + 1) stats) (\<lambda>fs. Inr (f # fs)))"

definition batch_to_feed_messages ::
  "externals \<Rightarrow> DeliveredBatch \<Rightarrow> bytes \<Rightarrow> u64 \<Rightarrow> delayed_lookup \<Rightarrow> report_stats \<Rightarrow> u64
   \<Rightarrow> L1Error + BroadcastFeedMessage list" where
  "batch_to_feed_messages x batch payload before_delayed_count delayed stats seq_start =
     rbind (decode_payload_messages x (batch_header (db_event batch)) payload before_delayed_count delayed)
       (\<lambda>msgs. feed_loop x msgs seq_start stats)"

fun assemble_loop ::
  "externals \<Rightarrow> (DeliveredBatch \<times> bytes) list \<Rightarrow> delayed_lookup \<Rightarrow> u64 \<Rightarrow> u64 \<Rightarrow> report_stats
   \<Rightarrow> BroadcastFeedMessage list \<Rightarrow> L1Error + BroadcastFeedMessage list" where
  "assemble_loop x [] delayed before seq stats out = Inr out"
| "assemble_loop x ((batch, payload) # resolved) delayed before seq stats out =
     (let stats' = bt_insert (batch_data_hash x batch) (batch_data_stats (serialize_batch batch)) stats;
          after = sb_after_delayed_messages_read (db_event batch)
      in rbind (batch_to_feed_messages x batch payload before delayed stats' seq)
           (\<lambda>msgs. assemble_loop x resolved delayed after (seq + word_of_nat (length msgs)) stats' (out @ msgs)))"

definition assemble_feed_messages_with_seed ::
  "externals \<Rightarrow> (DeliveredBatch \<times> bytes) list \<Rightarrow> delayed_lookup \<Rightarrow> u64 \<Rightarrow> report_stats
   \<Rightarrow> L1Error + BroadcastFeedMessage list" where
  "assemble_feed_messages_with_seed x resolved delayed start_delayed_count seed_stats =
     assemble_loop x resolved delayed start_delayed_count 0 seed_stats []"

definition assemble_feed_messages ::
  "externals \<Rightarrow> (DeliveredBatch \<times> bytes) list \<Rightarrow> delayed_lookup \<Rightarrow> u64 \<Rightarrow> L1Error + BroadcastFeedMessage list" where
  "assemble_feed_messages x resolved delayed start_delayed_count =
     assemble_feed_messages_with_seed x resolved delayed start_delayed_count []"

section \<open>Serialization\<close>

definition payload_bytes :: "BatchPayload \<Rightarrow> bytes" where
  "payload_bytes p =
     (case p of Calldata d \<Rightarrow> d | BlobPayload hashes _ \<Rightarrow> FLAG_BLOB_HASHES # concat hashes | NoPayload \<Rightarrow> [])"

text \<open>the serialized form a posting report hashes reads back as the batch's own time bounds
  and delayed count, followed by its on-chain payload bytes.\<close>

theorem parse_serialize_batch:
  "BatchHeader_parse (serialize_batch batch) =
     Inr (batch_header (db_event batch), payload_bytes (db_payload batch))"
  using BatchHeader_parse_bytes
  by (simp add: serialize_batch_def payload_bytes_def Let_def BatchHeader_parse_bytes)

text \<open>The fixed-width body of a posting report.\<close>

definition report_body :: "bytes \<Rightarrow> address \<Rightarrow> b256 \<Rightarrow> u64 \<Rightarrow> bytes \<Rightarrow> bytes" where
  "report_body timestamp poster data_hash batch_num rest =
     timestamp @ poster @ data_hash @ abi_u64 batch_num @ rest"

lemma report_body_fields:
  assumes "length timestamp = 32" "length poster = 20" "length data_hash = 32"
  shows "report_data_hash (report_body timestamp poster data_hash n rest) = Some data_hash"
    and "report_batch_num (report_body timestamp poster data_hash n rest) = Some n"
  using assms
  by (simp_all add: report_data_hash_def report_batch_num_def report_body_def get_range_def slice_def)

section \<open>Payloads\<close>

text \<open>a brotli payload of RLP-framed segments decodes to what the multiplexer makes of those
  segments, empty items skipped; an empty payload is decoded as a batch with no segments.\<close>

theorem decode_payload_framed:
  assumes "rlp_encodes (x_rlp x) enc" and "\<forall>item \<in> set items. length item < 2 ^ 64"
    and "x_brotli x z = Some (concat (map enc items))"
  shows "decode_payload_messages x header (FLAG_BROTLI # z) before delayed =
      map_err L1Mux (extract_messages (x_brotli x) (x_rlp_u64 x) header
        (map segment_of (filter (\<lambda>i. i \<noteq> []) items)) before delayed)
    \<and> decode_payload_messages x header [] before delayed =
      map_err L1Mux (extract_messages (x_brotli x) (x_rlp_u64 x) header [] before delayed)"
  using assms by (simp add: decode_payload_messages_def decompress_payload_def parse_segments_items)

definition wit_ext :: externals where
  "wit_ext = \<lparr> x_brotli = Some, x_rlp = rlp_ref_header, x_rlp_u64 = wit_rlp_u64,
               x_keccak = (\<lambda>s. replicate 32 (word_of_nat (length s))),
               x_hex = map (\<lambda>b. char_of (unat b)), x_base64 = map (\<lambda>b. char_of (unat b)) \<rparr>"

theorem decode_payload_framed_witness:
  "decode_payload_messages wit_ext wit_header (FLAG_BROTLI # concat (map rlp_ref_encode [[0, 9], []])) 9
     (\<lambda>_. None) =
   map_err L1Mux (extract_messages Some wit_rlp_u64 wit_header [\<lparr> seg_kind = 0, seg_data = [9] \<rparr>] 9 (\<lambda>_. None))"
  using decode_payload_framed [of wit_ext rlp_ref_encode "[[0, 9], []]"
      "concat (map rlp_ref_encode [[0, 9], []])" wit_header 9 "\<lambda>_. None"] rlp_ref_encodes
  by (simp add: wit_ext_def segment_of_def)

lemma extract_no_segments:
  "tail_available delayed before (after_delayed_messages header) \<Longrightarrow>
   extract_messages brotli rlp_u64 header [] before delayed =
     Inr (map (delayed_out delayed) (u64_range before (after_delayed_messages header)))"
  by (subst extract_messages_ok) (simp_all add: segments_ok_def explicit_messages_def)

text \<open>C39: for a batch without data, the calldata shortcut decode_batch_messages returns no
  message, while decoding its empty payload yields every delayed message the batch forces in.\<close>

theorem no_data_batch_drops_delayed:
  assumes "db_payload batch = NoPayload"
    and "before < sb_after_delayed_messages_read (db_event batch)"
    and "tail_available delayed before (sb_after_delayed_messages_read (db_event batch))"
  shows "decode_batch_messages x batch before delayed = Inr []
    \<and> (\<exists>ms. decode_payload_messages x (batch_header (db_event batch)) [] before delayed = Inr ms
          \<and> length ms = unat (sb_after_delayed_messages_read (db_event batch)) - unat before \<and> ms \<noteq> [])"
proof -
  let ?after = "sb_after_delayed_messages_read (db_event batch)"
  have "after_delayed_messages (batch_header (db_event batch)) = ?after"
    by (simp add: batch_header_def)
  then have "decode_payload_messages x (batch_header (db_event batch)) [] before delayed =
      Inr (map (delayed_out delayed) (u64_range before ?after))"
    using assms(3) by (simp add: decode_payload_messages_def extract_no_segments)
  moreover have "u64_range before ?after \<noteq> []" using assms(2) by (simp add: u64_range_rec)
  ultimately show ?thesis using assms(1) by (simp add: decode_batch_messages_def)
qed

definition wit_event :: SequencerBatchDeliveredData where
  "wit_event = \<lparr> sb_delayed_acc = replicate 32 0, sb_after_delayed_messages_read = 9,
     sb_min_timestamp = 100, sb_max_timestamp = 200, sb_min_l1_block = 10, sb_max_l1_block = 20,
     sb_data_location = 2 \<rparr>"

definition wit_no_data :: DeliveredBatch where
  "wit_no_data = \<lparr> db_sequence_number = 1, db_before_acc = replicate 32 0, db_after_acc = replicate 32 1,
     db_event = wit_event, db_payload = NoPayload \<rparr>"

theorem no_data_batch_drops_delayed_witness:
  "decode_batch_messages wit_ext wit_no_data 7 (\<lambda>i. Some (wit_delayed i)) = Inr []
   \<and> (\<exists>ms. decode_payload_messages wit_ext (batch_header wit_event) [] 7 (\<lambda>i. Some (wit_delayed i)) = Inr ms
         \<and> length ms = 2 \<and> ms \<noteq> [])"
  using no_data_batch_drops_delayed [of wit_no_data 7 "\<lambda>i. Some (wit_delayed i)" wit_ext]
  by (simp add: wit_no_data_def wit_event_def tail_available_def)

section \<open>The assembled stream\<close>

text \<open>A run of one batch without data that forces in two delayed messages, the second a posting
  report on that same batch.\<close>

definition wit_report :: DelayedMessage where
  "wit_report = (wit_delayed 8)\<lparr>dm_kind := 13,
     dm_data := report_body (replicate 32 0) (replicate 20 1) (batch_data_hash wit_ext wit_no_data) 1 []\<rparr>"

definition wit_source :: delayed_lookup where
  "wit_source = delayed_map_message (from_messages [wit_delayed 7, wit_report])"

definition wit_run :: "L1Error + BroadcastFeedMessage list" where
  "wit_run = assemble_feed_messages_with_seed wit_ext [(wit_no_data, [])] wit_source 7 []"

lemma wit_source_values: "wit_source 7 = Some (wit_delayed 7)" "wit_source 8 = Some wit_report"
  by (simp_all add: wit_source_def delayed_map_message_def from_messages_def bt_extend_def bt_get_def
      wit_delayed_def wit_report_def)

lemma wit_decoded:
  "decode_payload_messages wit_ext (batch_header wit_event) [] 7 wit_source =
     Inr [delayed_out wit_source 7, delayed_out wit_source 8]"
proof -
  have "u64_range 7 9 = [7, 8]" by (simp add: u64_range_rec)
  moreover have "tail_available wit_source 7 9"
    unfolding tail_available_def
  proof (intro allI impI)
    fix j :: u64 assume "7 \<le> j \<and> j < 9"
    then have "j \<in> set (u64_range 7 9)" by simp
    then have "j = 7 \<or> j = 8" by (simp add: \<open>u64_range 7 9 = [7, 8]\<close> del: set_u64_range)
    then show "wit_source j \<noteq> None" by (auto simp: wit_source_values)
  qed
  ultimately show ?thesis
    by (simp add: decode_payload_messages_def extract_no_segments batch_header_def wit_event_def)
qed

lemma wit_facts:
  "length (batch_data_hash wit_ext batch) = 32" "db_event wit_no_data = wit_event"
  by (simp_all add: batch_data_hash_def wit_ext_def wit_no_data_def)

lemma wit_run_not_isl: "\<not> isl wit_run"
  by (simp add: wit_run_def assemble_feed_messages_with_seed_def batch_to_feed_messages_def Let_def
      wit_facts wit_decoded derived_to_feed_def delayed_out_def wit_source_values to_derived_def
      wit_report_def wit_delayed_def KIND_BATCH_POSTING_REPORT_def report_body_fields bt_get_def)

lemma wit_run_ok:
  "assemble_feed_messages_with_seed wit_ext [(wit_no_data, [])]
     (delayed_map_message (from_messages [wit_delayed 7, wit_report])) 7 [] = Inr (projr wit_run)"
  unfolding wit_run_def [unfolded wit_source_def, symmetric]
  using sum.collapse(2) [OF wit_run_not_isl] by (rule sym)

text \<open>A feed message that was built from a derived one.\<close>

definition renders :: "externals \<Rightarrow> DerivedMessage \<Rightarrow> u64 \<Rightarrow> BroadcastFeedMessage \<Rightarrow> bool" where
  "renders x m seq f \<longleftrightarrow> (\<exists>s. f = derived_to_feed_message_with_stats x m seq s)"

lemma derived_to_feed_renders: "derived_to_feed x m seq stats = Inr f \<Longrightarrow> renders x m seq f"
  by (auto simp: derived_to_feed_def derived_to_feed_message_def renders_def result_simps split: if_splits)

lemma feed_loop_renders:
  "feed_loop x ms seq stats = Inr fs \<Longrightarrow>
   length fs = length ms \<and> (\<forall>i < length ms. renders x (ms ! i) (seq + word_of_nat i) (fs ! i))"
proof (induction ms arbitrary: seq fs)
  case (Cons m ms)
  then obtain f fs' where fs: "fs = f # fs'" "renders x m seq f" "feed_loop x ms (seq + 1) stats = Inr fs'"
    by (auto simp: result_simps dest: derived_to_feed_renders)
  from Cons.IH [OF fs(3)] fs(1,2) show ?case
    by (auto simp: nth_Cons less_Suc_eq_0_disj algebra_simps)
qed simp

text \<open>The stream's parts: per batch, what it decodes to and the messages it contributes.\<close>

definition decoded_from :: "externals \<Rightarrow> delayed_lookup \<Rightarrow> DeliveredBatch \<Rightarrow> bytes \<Rightarrow> u64 \<Rightarrow> DerivedMessage list \<Rightarrow> bool" where
  "decoded_from x delayed batch payload before ms \<longleftrightarrow>
     decode_payload_messages x (batch_header (db_event batch)) payload before delayed = Inr ms"

lemma batch_to_feed_Inr:
  assumes "batch_to_feed_messages x batch payload before delayed stats seq = Inr fs"
  obtains ms where "decoded_from x delayed batch payload before ms" "feed_loop x ms seq stats = Inr fs"
  using assms by (auto simp: batch_to_feed_messages_def decoded_from_def result_simps)

definition numbered :: "BroadcastFeedMessage list \<Rightarrow> bool" where
  "numbered out \<longleftrightarrow> (\<forall>i < length out. bf_sequence_number (out ! i) = word_of_nat i)"

lemma numbered_append:
  assumes "numbered out" "feed_loop x ms (word_of_nat (length out)) stats = Inr fs"
  shows "numbered (out @ fs)"
proof -
  have "bf_sequence_number (fs ! j) = word_of_nat (length out + j)" if "j < length fs" for j
    using feed_loop_renders [OF assms(2)] that
    by (auto simp: renders_def derived_to_feed_message_with_stats_def Let_def)
  with assms(1) show ?thesis
    by (auto simp: numbered_def nth_append)
qed

definition stats_after :: "externals \<Rightarrow> DeliveredBatch \<Rightarrow> report_stats \<Rightarrow> report_stats" where
  "stats_after x batch stats =
     bt_insert (batch_data_hash x batch) (batch_data_stats (serialize_batch batch)) stats"

lemma assemble_loop_ConsE:
  assumes "assemble_loop x ((batch, payload) # resolved) delayed before seq stats out = Inr out'"
  obtains ms fs where "decoded_from x delayed batch payload before ms"
    "feed_loop x ms seq (stats_after x batch stats) = Inr fs"
    "assemble_loop x resolved delayed (sb_after_delayed_messages_read (db_event batch))
       (seq + word_of_nat (length fs)) (stats_after x batch stats) (out @ fs) = Inr out'"
  using assms
  by (auto simp: Let_def result_simps stats_after_def elim!: batch_to_feed_Inr)

lemma assemble_loop_numbered:
  "assemble_loop x resolved delayed before seq stats out = Inr out' \<Longrightarrow>
   numbered out \<Longrightarrow> seq = word_of_nat (length out) \<Longrightarrow> numbered out'"
proof (induction resolved arbitrary: before seq stats out)
  case (Cons bp resolved)
  obtain batch payload where bp: "bp = (batch, payload)" by force
  from Cons.prems(1) [unfolded bp] obtain ms fs where
    fs: "feed_loop x ms seq (stats_after x batch stats) = Inr fs"
    and rest: "assemble_loop x resolved delayed (sb_after_delayed_messages_read (db_event batch))
       (seq + word_of_nat (length fs)) (stats_after x batch stats) (out @ fs) = Inr out'"
    by (rule assemble_loop_ConsE)
  from Cons.IH [OF rest] numbered_append [OF Cons.prems(2)] fs Cons.prems(3) show ?case by simp
qed simp

text \<open>the messages of an assembled run are numbered consecutively from zero across batches.\<close>

theorem assemble_numbered:
  assumes "assemble_feed_messages_with_seed x resolved delayed start seed = Inr out"
  shows "\<forall>i < length out. bf_sequence_number (out ! i) = word_of_nat i"
  using assemble_loop_numbered [of x resolved delayed start 0 seed "[]" out] assms
  by (simp add: assemble_feed_messages_with_seed_def numbered_def)

theorem assemble_numbered_witness: "numbered (projr wit_run)"
  unfolding numbered_def by (rule assemble_numbered [OF wit_run_ok])

section \<open>Delayed messages across batches\<close>

fun final_cursor :: "u64 \<Rightarrow> (DeliveredBatch \<times> bytes) list \<Rightarrow> u64" where
  "final_cursor before [] = before"
| "final_cursor before ((batch, payload) # resolved) =
     final_cursor (sb_after_delayed_messages_read (db_event batch)) resolved"

text \<open>The delayed counts of successive batches never fall, as the contract guarantees.\<close>

fun cursors_ascend :: "u64 \<Rightarrow> (DeliveredBatch \<times> bytes) list \<Rightarrow> bool" where
  "cursors_ascend before [] \<longleftrightarrow> True"
| "cursors_ascend before ((batch, payload) # resolved) \<longleftrightarrow>
     before \<le> sb_after_delayed_messages_read (db_event batch)
     \<and> cursors_ascend (sb_after_delayed_messages_read (db_event batch)) resolved"

lemma cursors_ascend_final: "cursors_ascend before resolved \<Longrightarrow> before \<le> final_cursor before resolved"
  by (induction before resolved rule: final_cursor.induct) auto

definition feed_delayed :: "BroadcastFeedMessage \<Rightarrow> bool" where
  "feed_delayed f \<longleftrightarrow> fh_request_id (bf_header f) \<noteq> JNull"

definition feed_key :: "BroadcastFeedMessage \<Rightarrow> json \<times> u64" where
  "feed_key f = (fh_request_id (bf_header f), bf_delayed_messages_read f)"

lemma renders_delayed:
  assumes "renders x m seq f"
  shows "feed_delayed f = from_delayed m"
    and "from_delayed m \<Longrightarrow>
      feed_key f = (JString (x_hex x (the (h_request_id (d_header m)))), d_delayed_messages_read m)"
  using assms
  by (auto simp: renders_def feed_delayed_def from_delayed_def feed_key_def
      derived_to_feed_message_with_stats_def Let_def split: option.splits)

lemma feed_loop_delayed:
  "feed_loop x ms seq stats = Inr fs \<Longrightarrow>
   map feed_key (filter feed_delayed fs) =
     map (\<lambda>m. (JString (x_hex x (the (h_request_id (d_header m)))), d_delayed_messages_read m))
         (filter from_delayed ms)"
proof (induction ms arbitrary: seq fs)
  case (Cons m ms)
  then obtain f fs' where fs: "fs = f # fs'" "renders x m seq f" "feed_loop x ms (seq + 1) stats = Inr fs'"
    by (auto simp: result_simps dest: derived_to_feed_renders)
  from Cons.IH [OF fs(3)] renders_delayed [OF fs(2)] show ?case by (simp add: fs(1))
qed simp

lemma decoded_delayed:
  assumes "decoded_from x delayed batch payload before ms"
  shows "filter from_delayed ms =
      map (delayed_out delayed) (u64_range before (sb_after_delayed_messages_read (db_event batch)))"
    and "tail_available delayed before (sb_after_delayed_messages_read (db_event batch))"
proof -
  obtain segs where ex: "extract_messages (x_brotli x) (x_rlp_u64 x) (batch_header (db_event batch)) segs
      before delayed = Inr ms"
    using assms by (auto simp: decoded_from_def decode_payload_messages_def result_simps)
  have "after_delayed_messages (batch_header (db_event batch)) = sb_after_delayed_messages_read (db_event batch)"
    by (simp add: batch_header_def)
  with extract_messages_delayed [OF ex] extract_messages_available [OF ex]
  show "filter from_delayed ms =
      map (delayed_out delayed) (u64_range before (sb_after_delayed_messages_read (db_event batch)))"
    and "tail_available delayed before (sb_after_delayed_messages_read (db_event batch))" by simp_all
qed

definition delayed_key :: "externals \<Rightarrow> u64 \<Rightarrow> json \<times> u64" where
  "delayed_key x i = (JString (x_hex x (u256_to_be (ucast i))), i + 1)"

text \<open>Against any source that files messages under their own index.\<close>

context delayed_source
begin

lemma delayed_out_key:
  "message i \<noteq> None \<Longrightarrow>
   (JString (x_hex x (the (h_request_id (d_header (delayed_out message i))))),
    d_delayed_messages_read (delayed_out message i)) = delayed_key x i"
  by (auto simp: delayed_out_def to_derived_def delayed_key_def request_id_of_index)

lemma batch_delayed_keys:
  assumes "decoded_from x message batch payload before ms" "feed_loop x ms seq stats = Inr fs"
  shows "map feed_key (filter feed_delayed fs) =
    map (delayed_key x) (u64_range before (sb_after_delayed_messages_read (db_event batch)))"
  using decoded_delayed(2) [OF assms(1)] delayed_out_key
  by (auto simp: feed_loop_delayed [OF assms(2)] decoded_delayed(1) [OF assms(1)] tail_available_def
      simp del: d_delayed_messages_read_simps)

lemma assemble_loop_delayed:
  "assemble_loop x resolved message before seq stats out = Inr out' \<Longrightarrow> cursors_ascend before resolved \<Longrightarrow>
   map feed_key (filter feed_delayed out') =
     map feed_key (filter feed_delayed out)
     @ map (delayed_key x) (u64_range before (final_cursor before resolved))"
proof (induction resolved arbitrary: before seq stats out)
  case (Cons bp resolved)
  obtain batch payload where bp: "bp = (batch, payload)" by force
  let ?after = "sb_after_delayed_messages_read (db_event batch)"
  from Cons.prems(1) [unfolded bp] obtain ms fs where
    ms: "decoded_from x message batch payload before ms"
    and fs: "feed_loop x ms seq (stats_after x batch stats) = Inr fs"
    and rest: "assemble_loop x resolved message ?after
       (seq + word_of_nat (length fs)) (stats_after x batch stats) (out @ fs) = Inr out'"
    by (rule assemble_loop_ConsE)
  have asc: "before \<le> ?after" "cursors_ascend ?after resolved" using Cons.prems(2) by (simp_all add: bp)
  from Cons.IH [OF rest asc(2)] batch_delayed_keys [OF ms fs]
    map_u64_range_split [OF asc(1) disjI2 [OF cursors_ascend_final [OF asc(2)]], of "delayed_key x"]
  show ?case by (simp add: bp)
qed simp

end

text \<open>over a whole run of batches with non-falling delayed counts, the assembled stream carries
  the delayed messages from the starting cursor to the last batch's count, each exactly once, in
  order, under the request id of its index and with the matching delayed count.\<close>

theorem assemble_delayed_exact:
  assumes "assemble_feed_messages_with_seed x resolved (delayed_map_message (from_messages msgs)) start seed
             = Inr out"
    and "cursors_ascend start resolved"
  shows "map feed_key (filter feed_delayed out) =
    map (delayed_key x) (u64_range start (final_cursor start resolved))"
  using delayed_map.assemble_loop_delayed assms
  by (fastforce simp: assemble_feed_messages_with_seed_def)

theorem assemble_delayed_exact_witness:
  "map feed_key (filter feed_delayed (projr wit_run)) = map (delayed_key wit_ext) [7, 8]"
proof -
  have "cursors_ascend 7 [(wit_no_data, [])]" by (simp add: wit_no_data_def wit_event_def)
  from assemble_delayed_exact [OF wit_run_ok this] show ?thesis
    by (simp add: wit_no_data_def wit_event_def u64_range_rec)
qed

section \<open>Batch posting reports\<close>

definition stats_from :: "externals \<Rightarrow> report_stats \<Rightarrow> (DeliveredBatch \<times> bytes) list \<Rightarrow> b256 \<Rightarrow> BatchDataStats \<Rightarrow> bool" where
  "stats_from x seed resolved dh s \<longleftrightarrow>
     bt_get dh seed = Some s
     \<or> (\<exists>(batch, payload) \<in> set resolved.
          batch_data_hash x batch = dh \<and> s = batch_data_stats (serialize_batch batch))"

definition report_priced :: "externals \<Rightarrow> report_stats \<Rightarrow> (DeliveredBatch \<times> bytes) list \<Rightarrow> BroadcastFeedMessage \<Rightarrow> bool" where
  "report_priced x seed resolved f \<longleftrightarrow>
     (\<exists>m. if h_kind (d_header m) = KIND_BATCH_POSTING_REPORT
          then \<exists>dh s. report_data_hash (d_l2_msg m) = Some dh \<and> stats_from x seed resolved dh s
                 \<and> f = derived_to_feed_message_with_stats x m (bf_sequence_number f) (Some s)
          else f = derived_to_feed_message x m (bf_sequence_number f))"

lemma derived_to_feed_priced:
  assumes "derived_to_feed x m seq stats = Inr f" "\<forall>dh s. bt_get dh stats = Some s \<longrightarrow> stats_from x seed all dh s"
  shows "report_priced x seed all f"
  unfolding report_priced_def
  using assms
  by (intro exI [of _ m])
     (auto simp: derived_to_feed_def derived_to_feed_message_def derived_to_feed_message_with_stats_def
        Let_def result_simps split: if_splits)

lemma feed_loop_priced:
  "feed_loop x ms seq stats = Inr fs \<Longrightarrow> \<forall>dh s. bt_get dh stats = Some s \<longrightarrow> stats_from x seed all dh s \<Longrightarrow>
   \<forall>f \<in> set fs. report_priced x seed all f"
  by (induction ms arbitrary: seq fs) (auto simp: result_simps intro: derived_to_feed_priced)

lemma assemble_loop_priced:
  "assemble_loop x resolved delayed before seq stats out = Inr out' \<Longrightarrow>
   set resolved \<subseteq> set all \<Longrightarrow> \<forall>dh s. bt_get dh stats = Some s \<longrightarrow> stats_from x seed all dh s \<Longrightarrow>
   \<forall>f \<in> set out. report_priced x seed all f \<Longrightarrow> \<forall>f \<in> set out'. report_priced x seed all f"
proof (induction resolved arbitrary: before seq stats out)
  case (Cons bp resolved)
  obtain batch payload where bp: "bp = (batch, payload)" by force
  from Cons.prems(1) [unfolded bp] obtain ms fs where
    fs: "feed_loop x ms seq (stats_after x batch stats) = Inr fs"
    and rest: "assemble_loop x resolved delayed (sb_after_delayed_messages_read (db_event batch))
       (seq + word_of_nat (length fs)) (stats_after x batch stats) (out @ fs) = Inr out'"
    by (rule assemble_loop_ConsE)
  have st: "\<forall>dh s. bt_get dh (stats_after x batch stats) = Some s \<longrightarrow> stats_from x seed all dh s"
    using Cons.prems(2,3) by (auto simp: stats_after_def bt_get_insert stats_from_def bp split: if_splits)
  from Cons.IH [OF rest _ st] feed_loop_priced [OF fs st] Cons.prems(2,4) show ?case by auto
qed simp

lemma assemble_priced:
  assumes "assemble_feed_messages_with_seed x resolved delayed start seed = Inr out"
  shows "\<forall>f \<in> set out. report_priced x seed resolved f"
  using assemble_loop_priced [of x resolved delayed start 0 seed "[]" out resolved seed] assms
  by (simp add: assemble_feed_messages_with_seed_def stats_from_def)

text \<open>every posting report in an assembled run is priced with the statistics of a batch whose
  serialized bytes hash to the report's data hash (one of the run, or seeded); no other message
  carries statistics.\<close>

theorem assemble_reports_priced:
  assumes "assemble_feed_messages_with_seed x resolved delayed start seed = Inr out"
  shows "\<forall>f \<in> set out. report_priced x seed resolved f"
  using assms by (rule assemble_priced)

theorem assemble_reports_priced_witness:
  "list_all (report_priced wit_ext [] [(wit_no_data, [])]) (projr wit_run)"
  unfolding list_all_iff by (rule assemble_reports_priced [OF wit_run_ok])

end
