(* ===== verification/L1_Reader.thy ===== *)
theory L1_Reader
  imports L1_Assemble
begin

text \<open>
  \<open>crates/arb-reth-l1/src/{reader,beacon}.rs\<close>: batch counts, batch logs and payload resolution from
  an L1 RPC endpoint, and blob sidecars from a beacon endpoint.

  The endpoints are parameters.  \<open>provider\<close> holds the RPC answers the reader asks for (an error is
  the stringified transport error); \<open>beacon_response\<close> is what one HTTP attempt came back with.
\<close>

section \<open>The endpoints\<close>

record Log =
  log_address :: address
  log_topics :: "b256 list"
  log_data :: bytes
  log_block_number :: "u64 option"
  log_index :: "u64 option"
  log_tx_hash :: "b256 option"

record Filter =
  flt_address :: "address option"
  flt_event_signature :: b256
  flt_topic1 :: "b256 list option"
  flt_from_block :: u64
  flt_to_block :: u64

record PostingTx =
  tx_input :: bytes
  tx_blob_hashes :: "b256 list option"

record provider =
  pr_call :: "address \<Rightarrow> bytes \<Rightarrow> u64 \<Rightarrow> string + bytes"
  pr_get_logs :: "Filter \<Rightarrow> string + Log list"
  pr_get_tx :: "b256 \<Rightarrow> string + PostingTx option"
  pr_block_timestamp :: "u64 \<Rightarrow> string + u64 option"

record SequencerInboxReader =
  rd_provider :: provider
  rd_address :: address
  rd_delivered_topic :: b256
  rd_data_topic :: b256
  rd_abi :: poster_abi

section \<open>Counting and finding batches\<close>

definition batch_count :: "SequencerInboxReader \<Rightarrow> u64 \<Rightarrow> L1Error + u64" where
  "batch_count r at_block =
     rbind (map_err Rpc (pr_call (rd_provider r) (rd_address r) [0x06, 0xf1, 0x30, 0x56] at_block))
       (\<lambda>out. if length out < 32 then Inr 0 else Inr (u64_of_be (slice 24 32 out)))"

function first_block_with_batch_count_above :: "SequencerInboxReader \<Rightarrow> u64 \<Rightarrow> u64 \<Rightarrow> u64 \<Rightarrow> L1Error + u64" where
  "first_block_with_batch_count_above r lo hi have_count =
     (if lo < hi then
        let mid = lo + (hi - lo) div 2 in
        (case batch_count r mid of
           Inl e \<Rightarrow> Inl e
         | Inr count \<Rightarrow>
             if count > have_count then first_block_with_batch_count_above r lo mid have_count
             else first_block_with_batch_count_above r (mid + 1) hi have_count)
      else Inr lo)"
  by pat_completeness auto

lemma mid_bounds:
  fixes lo hi :: u64
  assumes "lo < hi"
  shows "unat (lo + (hi - lo) div 2) = unat lo + (unat hi - unat lo) div 2"
    and "lo \<le> lo + (hi - lo) div 2" and "lo + (hi - lo) div 2 < hi"
proof -
  have lt: "unat lo < unat hi" using assms by (simp add: word_less_nat_alt)
  have half: "unat ((hi - lo) div 2) = (unat hi - unat lo) div 2"
    using assms by (simp add: unat_div unat_sub word_le_nat_alt less_imp_le word_less_nat_alt)
  have "unat lo + (unat hi - unat lo) div 2 < unat hi" using lt by linarith
  then show mid: "unat (lo + (hi - lo) div 2) = unat lo + (unat hi - unat lo) div 2"
    using half unat_bound [of hi] by (simp add: unat_word_ariths)
  show "lo \<le> lo + (hi - lo) div 2" "lo + (hi - lo) div 2 < hi"
    using lt unfolding word_le_nat_alt word_less_nat_alt mid by linarith+
qed

termination first_block_with_batch_count_above
proof (relation "measure (\<lambda>(r, lo, hi, have_count). unat hi - unat lo)")
  fix r :: SequencerInboxReader and lo hi have_count mid count :: u64
  assume lt: "lo < hi" and mid: "mid = lo + (hi - lo) div 2"
  note m = mid_bounds [OF lt, folded mid]
  have lt': "unat lo < unat hi" using lt by (simp add: word_less_nat_alt)
  show "((r, lo, mid, have_count), r, lo, hi, have_count) \<in> measure (\<lambda>(r, lo, hi, have_count). unat hi - unat lo)"
    using lt' m(1) by simp
  show "((r, mid + 1, hi, have_count), r, lo, hi, have_count) \<in> measure (\<lambda>(r, lo, hi, have_count). unat hi - unat lo)"
    using lt' m(1) unat_Suc_less [OF m(3)] by simp
qed simp

declare first_block_with_batch_count_above.simps [simp del]

definition batch_logs :: "SequencerInboxReader \<Rightarrow> u64 \<Rightarrow> u64 \<Rightarrow> L1Error + Log list" where
  "batch_logs r from_block to_block =
     map_err Rpc (pr_get_logs (rd_provider r)
       \<lparr> flt_address = Some (rd_address r), flt_event_signature = rd_delivered_topic r, flt_topic1 = None,
         flt_from_block = from_block, flt_to_block = to_block \<rparr>)"

definition topic_seq :: "b256 \<Rightarrow> u64" where
  "topic_seq topic = u64_of_be (slice 24 32 topic)"

fun scan_logs :: "u64 \<Rightarrow> Log list \<Rightarrow> L1Error + u64 option" where
  "scan_logs sequence_number [] = Inr None"
| "scan_logs sequence_number (log # logs) =
     (if length (log_topics log) < 4 then scan_logs sequence_number logs
      else if topic_seq (log_topics log ! 1) = sequence_number
           then rbind (ok_or (Missing ''log block_number'') (log_block_number log)) (\<lambda>b. Inr (Some b))
      else scan_logs sequence_number logs)"

fun delivery_scan :: "SequencerInboxReader \<Rightarrow> u64 \<Rightarrow> u64 \<Rightarrow> u64 \<Rightarrow> nat \<Rightarrow> L1Error + u64 option" where
  "delivery_scan r sequence_number from window 0 = Inr None"
| "delivery_scan r sequence_number from window (Suc n) =
     (let to = from + window - 1 in
      rbind (batch_logs r from to)
        (\<lambda>logs. rbind (scan_logs sequence_number logs)
          (\<lambda>found. case found of
             Some b \<Rightarrow> Inr (Some b)
           | None \<Rightarrow> delivery_scan r sequence_number (to + 1) window n)))"

definition delivery_block_of_batch :: "SequencerInboxReader \<Rightarrow> u64 \<Rightarrow> u64 \<Rightarrow> u64 \<Rightarrow> L1Error + u64 option" where
  "delivery_block_of_batch r sequence_number from_block window =
     delivery_scan r sequence_number from_block window 64"

section \<open>Resolving one batch\<close>

definition decode_event_bytes :: "bytes \<Rightarrow> L1Error + bytes" where
  "decode_event_bytes data =
     (if length data < 64 then Inl (Missing ''SequencerBatchData head'')
      else let len = be_nat (slice 32 64 data) in
        if len \<ge> 2 ^ 64 then Inl (Missing ''SequencerBatchData length overflow'')
        else ok_or (Missing ''SequencerBatchData body'') (get_range data 64 ((64 + len) mod 2 ^ 64)))"

definition fetch_posting_tx :: "SequencerInboxReader \<Rightarrow> Log \<Rightarrow> L1Error + PostingTx" where
  "fetch_posting_tx r log =
     rbind (ok_or (Missing ''log transaction_hash'') (log_tx_hash log))
       (\<lambda>tx_hash. rbind (map_err Rpc (pr_get_tx (rd_provider r) tx_hash))
         (ok_or (Missing ''posting transaction'')))"

definition fetch_separate_batch_payload :: "SequencerInboxReader \<Rightarrow> Log \<Rightarrow> u64 \<Rightarrow> L1Error + bytes" where
  "fetch_separate_batch_payload r log sequence_number =
     rbind (ok_or (Missing ''log block_number'') (log_block_number log))
       (\<lambda>block_number.
          rbind (map_err Rpc (pr_get_logs (rd_provider r)
            \<lparr> flt_address = Some (rd_address r), flt_event_signature = rd_data_topic r,
              flt_topic1 = Some [u256_to_be (ucast sequence_number)],
              flt_from_block = block_number, flt_to_block = block_number \<rparr>))
          (\<lambda>logs. case logs of
             [] \<Rightarrow> Inl (Missing ''SequencerBatchData event'')
           | [data_log] \<Rightarrow> decode_event_bytes (log_data data_log)
           | _ \<Rightarrow> Inl (Missing ''unique SequencerBatchData event'')))"

definition resolve_payload ::
  "SequencerInboxReader \<Rightarrow> Log \<Rightarrow> u64 \<Rightarrow> SequencerBatchDeliveredData \<Rightarrow> L1Error + BatchPayload" where
  "resolve_payload r log sequence_number event =
     (if sb_data_location event = LOC_TX_INPUT then
        rbind (fetch_posting_tx r log)
          (\<lambda>tx. rbind (extract_calldata_payload (rd_abi r) (tx_input tx)) (\<lambda>d. Inr (Calldata d)))
      else if sb_data_location event = LOC_SEPARATE_BATCH_EVENT then
        rbind (fetch_separate_batch_payload r log sequence_number) (\<lambda>d. Inr (Calldata d))
      else if sb_data_location event = LOC_BLOB_HASHES then
        rbind (fetch_posting_tx r log)
          (\<lambda>tx. rbind (ok_or (Missing ''log block_number'') (log_block_number log))
            (\<lambda>b. Inr (BlobPayload (case tx_blob_hashes tx of Some hs \<Rightarrow> hs | None \<Rightarrow> []) b)))
      else if sb_data_location event = LOC_NO_DATA then Inr NoPayload
      else Inl (UnsupportedDataLocation (sb_data_location event)))"

definition resolve_batch :: "SequencerInboxReader \<Rightarrow> Log \<Rightarrow> L1Error + DeliveredBatch" where
  "resolve_batch r log =
     (if length (log_topics log) < 4 then Inl (Missing ''indexed batch topics'')
      else let sequence_number = topic_seq (log_topics log ! 1) in
        rbind (map_err L1Batch (parse_sequencer_batch_delivered (log_data log)))
          (\<lambda>event. rbind (resolve_payload r log sequence_number event)
            (\<lambda>payload. Inr \<lparr> db_sequence_number = sequence_number, db_before_acc = log_topics log ! 2,
                             db_after_acc = log_topics log ! 3, db_event = event, db_payload = payload \<rparr>)))"

section \<open>The beacon client\<close>

definition MAINNET_GENESIS_TIME :: u64 where
  "MAINNET_GENESIS_TIME = 1606824023"

definition SECONDS_PER_SLOT :: u64 where
  "SECONDS_PER_SLOT = 12"

record BlobSidecar =
  sc_versioned_hash :: b256
  sc_blob :: bytes

record RawSidecar =
  raw_kzg_commitment :: string
  raw_blob :: string

datatype beacon_response =
    NetworkError string
  | HttpStatus nat string
  | Body "string + RawSidecar list"

text \<open>The client: timing, one HTTP exchange per attempt, and the hex and KZG helpers it calls.\<close>

record BeaconClient =
  bc_genesis_time :: u64
  bc_seconds_per_slot :: u64
  bc_get :: "u64 \<Rightarrow> nat \<Rightarrow> beacon_response"
  bc_hex_decode :: "string \<Rightarrow> string + bytes"
  bc_kzg_to_versioned_hash :: "bytes \<Rightarrow> b256"

definition slot_for_timestamp :: "BeaconClient \<Rightarrow> u64 \<Rightarrow> L1Error + u64" where
  "slot_for_timestamp c ts =
     (if bc_seconds_per_slot c = 0 then Inl (Panic ''divide by zero'')
      else Inr (sat_sub ts (bc_genesis_time c) div bc_seconds_per_slot c))"

definition sidecar_try_from :: "BeaconClient \<Rightarrow> RawSidecar \<Rightarrow> L1Error + BlobSidecar" where
  "sidecar_try_from c raw =
     rbind (map_err (\<lambda>e. Rpc (''commitment hex: '' @ e)) (bc_hex_decode c (raw_kzg_commitment raw)))
       (\<lambda>commitment. rbind (map_err (\<lambda>e. Rpc (''blob hex: '' @ e)) (bc_hex_decode c (raw_blob raw)))
         (\<lambda>blob. if length blob \<noteq> BYTES_PER_BLOB
                 then Inl (Rpc (''blob length '' @ dec (length blob) @ '' != '' @ dec BYTES_PER_BLOB))
                 else Inr \<lparr> sc_versioned_hash = bc_kzg_to_versioned_hash c commitment, sc_blob = blob \<rparr>))"

text \<open>A status comes with its rendering by the HTTP library.\<close>

definition MAX_ATTEMPTS :: nat where
  "MAX_ATTEMPTS = 12"

text \<open>
  The retry loop, from the given attempt and backoff (milliseconds), with \<open>n\<close> attempts left after
  this one.  Beside the result it yields the delays slept.
\<close>

fun sidecars_loop :: "BeaconClient \<Rightarrow> u64 \<Rightarrow> nat \<Rightarrow> nat \<Rightarrow> nat \<Rightarrow> (L1Error + BlobSidecar list) \<times> nat list" where
  "sidecars_loop c slot attempt backoff n =
     (let again = (\<lambda>last_error. case n of
            0 \<Rightarrow> (Inl last_error, [])
          | Suc n' \<Rightarrow>
              (case sidecars_loop c slot (attempt + 1) (min (backoff * 2) 30000) n' of
                 (res, delays) \<Rightarrow> (res, backoff # delays)))
      in case bc_get c slot attempt of
           Body (Inl e) \<Rightarrow> (Inl (Rpc e), [])
         | Body (Inr raws) \<Rightarrow> (try_map (sidecar_try_from c) raws, [])
         | HttpStatus status shown \<Rightarrow>
             let err = Rpc (''beacon blob_sidecars/'' @ dec (unat slot) @ '' -> '' @ shown) in
             if status = 429 \<or> 500 \<le> status \<and> status < 600 then again err else (Inl err, [])
         | NetworkError e \<Rightarrow> again (Rpc e))"

definition blob_sidecars :: "BeaconClient \<Rightarrow> u64 \<Rightarrow> (L1Error + BlobSidecar list) \<times> nat list" where
  "blob_sidecars c slot = sidecars_loop c slot 1 500 (MAX_ATTEMPTS - 1)"

fun pick_blobs :: "BlobSidecar list \<Rightarrow> b256 list \<Rightarrow> L1Error + bytes list" where
  "pick_blobs sidecars [] = Inr []"
| "pick_blobs sidecars (vh # vhs) =
     rbind (ok_or (Missing ''blob sidecar for versioned hash'')
             (find (\<lambda>s. sc_versioned_hash s = vh) sidecars))
       (\<lambda>sc. rbind (pick_blobs sidecars vhs) (\<lambda>blobs. Inr (sc_blob sc # blobs)))"

definition blob_batch_payload :: "rlp_header \<Rightarrow> BeaconClient \<Rightarrow> u64 \<Rightarrow> b256 list \<Rightarrow> L1Error + bytes" where
  "blob_batch_payload rlp c slot versioned_hashes =
     rbind (fst (blob_sidecars c slot))
       (\<lambda>sidecars. rbind (pick_blobs sidecars versioned_hashes)
         (\<lambda>blobs. map_err (\<lambda>e. L1Blob (blob_error_debug e)) (decode_blobs rlp blobs)))"

definition resolve_blob_payload ::
  "rlp_header \<Rightarrow> SequencerInboxReader \<Rightarrow> BeaconClient \<Rightarrow> u64 \<Rightarrow> b256 list \<Rightarrow> L1Error + bytes" where
  "resolve_blob_payload rlp r c block_number versioned_hashes =
     rbind (map_err Rpc (pr_block_timestamp (rd_provider r) block_number))
       (\<lambda>block. rbind (ok_or (Missing ''L1 block'') block)
         (\<lambda>timestamp. rbind (slot_for_timestamp c timestamp)
           (\<lambda>slot. blob_batch_payload rlp c slot versioned_hashes)))"

section \<open>The binary search\<close>

text \<open>The count view answers at every block of the range and never falls.\<close>

definition counts_on :: "SequencerInboxReader \<Rightarrow> (u64 \<Rightarrow> u64) \<Rightarrow> u64 \<Rightarrow> u64 \<Rightarrow> bool" where
  "counts_on r cnt lo hi \<longleftrightarrow>
     (\<forall>b. lo \<le> b \<and> b \<le> hi \<longrightarrow> batch_count r b = Inr (cnt b))
     \<and> (\<forall>a b. lo \<le> a \<and> a \<le> b \<and> b \<le> hi \<longrightarrow> cnt a \<le> cnt b)"

lemma counts_on_sub: "counts_on r cnt lo hi \<Longrightarrow> lo \<le> lo' \<Longrightarrow> hi' \<le> hi \<Longrightarrow> counts_on r cnt lo' hi'"
  unfolding counts_on_def by (meson order_trans)

definition first_above :: "(u64 \<Rightarrow> u64) \<Rightarrow> u64 \<Rightarrow> u64 \<Rightarrow> u64 \<Rightarrow> u64 \<Rightarrow> bool" where
  "first_above cnt have_count lo hi b \<longleftrightarrow>
     lo \<le> b \<and> b \<le> hi \<and> have_count < cnt b \<and> (\<forall>a. lo \<le> a \<and> a < b \<longrightarrow> cnt a \<le> have_count)"

text \<open>When the count at \<open>mid\<close> is not above, the answer of the upper half is the answer.\<close>

lemma first_above_upper:
  assumes "counts_on r cnt lo hi" "lo \<le> mid" "mid < hi" "cnt mid \<le> have_count"
    and "first_above cnt have_count (mid + 1) hi b"
  shows "first_above cnt have_count lo hi b"
proof -
  have "cnt a \<le> have_count" if a: "lo \<le> a" "a < b" for a
  proof (cases "a \<le> mid")
    case True
    then have "cnt a \<le> cnt mid" using assms(1,3) a(1) by (auto simp: counts_on_def)
    with assms(4) show ?thesis by simp
  next
    case False
    then show ?thesis using assms(5) a(2) less_imp_Suc_le [of mid a] by (simp add: first_above_def)
  qed
  with assms(2,3,5) show ?thesis using le_Suc_of_less [OF assms(3,2)] by (auto simp: first_above_def)
qed

lemma first_block_search:
  "counts_on r cnt lo hi \<Longrightarrow> lo \<le> hi \<Longrightarrow> have_count < cnt hi \<Longrightarrow>
   \<exists>b. first_block_with_batch_count_above r lo hi have_count = Inr b \<and> first_above cnt have_count lo hi b"
proof (induction r lo hi have_count rule: first_block_with_batch_count_above.induct)
  case (1 r lo hi have_count)
  show ?case
  proof (cases "lo < hi")
    case False
    with "1.prems" show ?thesis
      by (subst first_block_with_batch_count_above.simps) (auto simp: first_above_def)
  next
    case lt: True
    define mid where "mid = lo + (hi - lo) div 2"
    have m: "lo \<le> mid" "mid < hi" using mid_bounds(2,3) [OF lt] by (simp_all add: mid_def)
    have cm: "batch_count r mid = Inr (cnt mid)" using "1.prems"(1) m by (auto simp: counts_on_def)
    show ?thesis
    proof (cases "have_count < cnt mid")
      case True
      from "1.IH"(1) [OF lt mid_def cm True counts_on_sub [OF "1.prems"(1) order_refl less_imp_le [OF m(2)]]
          m(1) True] lt cm True m
      show ?thesis
        by (subst first_block_with_batch_count_above.simps)
           (auto simp: mid_def [symmetric] Let_def first_above_def)
    next
      case False
      from "1.IH"(2) [OF lt mid_def cm False counts_on_sub [OF "1.prems"(1) le_Suc_of_less [OF m(2,1)] order_refl]
          less_imp_Suc_le [OF m(2)] "1.prems"(3)] lt cm False
      show ?thesis
        by (subst first_block_with_batch_count_above.simps)
           (auto simp: mid_def [symmetric] Let_def not_less intro: first_above_upper [OF "1.prems"(1) m])
    qed
  qed
qed

text \<open>over a range whose batch counts are available and never fall, the search returns the
  first block at which the count exceeds the given one, provided the last block's does.\<close>

theorem first_block_is_least:
  assumes "counts_on r cnt lo hi" and "lo \<le> hi" and "have_count < cnt hi"
  shows "\<exists>b. first_block_with_batch_count_above r lo hi have_count = Inr b \<and> lo \<le> b \<and> b \<le> hi
     \<and> have_count < cnt b \<and> (\<forall>a. lo \<le> a \<and> a < b \<longrightarrow> cnt a \<le> have_count)"
  using first_block_search [OF assms] by (auto simp: first_above_def)

definition wit_provider :: provider where
  "wit_provider = \<lparr> pr_call = (\<lambda>addr data b. Inr (abi_u64 (if 15 \<le> b then 4 else 3))),
     pr_get_logs = (\<lambda>f. Inr []), pr_get_tx = (\<lambda>h. Inr None), pr_block_timestamp = (\<lambda>b. Inr None) \<rparr>"

definition wit_reader :: SequencerInboxReader where
  "wit_reader = \<lparr> rd_provider = wit_provider, rd_address = [], rd_delivered_topic = [], rd_data_topic = [],
     rd_abi = \<lparr> origin_selector = [], origin_decode = Some, legacy_selector = [], legacy_decode = Some,
                delay_proof_selector = [], delay_proof_decode = Some \<rparr> \<rparr>"

lemma wit_batch_count: "batch_count wit_reader b = Inr (if 15 \<le> b then 4 else 3)"
  by (simp add: batch_count_def wit_reader_def wit_provider_def slice_def)

theorem first_block_is_least_witness:
  "\<exists>b. first_block_with_batch_count_above wit_reader 10 20 3 = Inr b \<and> 10 \<le> b \<and> b \<le> 20
     \<and> (3 :: u64) < (if 15 \<le> b then 4 else 3) \<and> (\<forall>a. 10 \<le> a \<and> a < b \<longrightarrow> (if (15 :: u64) \<le> a then 4 else 3) \<le> (3 :: u64))"
  by (rule first_block_is_least) (auto simp: counts_on_def wit_batch_count)

section \<open>Scanning for a batch's delivery block\<close>

definition delivers :: "u64 \<Rightarrow> Log \<Rightarrow> bool" where
  "delivers sequence_number log \<longleftrightarrow>
     4 \<le> length (log_topics log) \<and> topic_seq (log_topics log ! 1) = sequence_number"

lemma scan_logs_find:
  "scan_logs sequence_number logs =
     (case find (delivers sequence_number) logs of
        None \<Rightarrow> Inr None
      | Some log \<Rightarrow> (case log_block_number log of
          None \<Rightarrow> Inl (Missing ''log block_number'') | Some b \<Rightarrow> Inr (Some b)))"
  by (induction logs) (auto simp: delivers_def split: option.splits)

definition window_from :: "u64 \<Rightarrow> u64 \<Rightarrow> nat \<Rightarrow> u64" where
  "window_from from window k = from + word_of_nat k * window"

definition window_logs :: "SequencerInboxReader \<Rightarrow> u64 \<Rightarrow> u64 \<Rightarrow> nat \<Rightarrow> L1Error + Log list" where
  "window_logs r from window k =
     batch_logs r (window_from from window k) (window_from from window k + window - 1)"

lemma window_logs_Suc: "window_logs r (from + window) window k = window_logs r from window (Suc k)"
  by (simp add: window_logs_def window_from_def algebra_simps)

definition window_silent :: "SequencerInboxReader \<Rightarrow> u64 \<Rightarrow> u64 \<Rightarrow> u64 \<Rightarrow> nat \<Rightarrow> bool" where
  "window_silent r sequence_number from window k \<longleftrightarrow>
     (\<exists>logs. window_logs r from window k = Inr logs \<and> find (delivers sequence_number) logs = None)"

lemma delivery_scan_Suc:
  "delivery_scan r sequence_number from window (Suc n) =
     rbind (window_logs r from window 0)
       (\<lambda>logs. rbind (scan_logs sequence_number logs)
         (\<lambda>found. case found of
            Some b \<Rightarrow> Inr (Some b)
          | None \<Rightarrow> delivery_scan r sequence_number (from + window) window n))"
  by (simp add: window_logs_def window_from_def Let_def)

lemma silent_Suc:
  "window_silent r sequence_number (from + window) window k \<longleftrightarrow>
   window_silent r sequence_number from window (Suc k)"
  by (simp add: window_silent_def window_logs_Suc)

definition found_in :: "SequencerInboxReader \<Rightarrow> u64 \<Rightarrow> u64 \<Rightarrow> u64 \<Rightarrow> nat \<Rightarrow> u64 \<Rightarrow> bool" where
  "found_in r sequence_number from window k b \<longleftrightarrow>
     (\<exists>logs log. window_logs r from window k = Inr logs
        \<and> find (delivers sequence_number) logs = Some log \<and> log_block_number log = Some b)"

lemma found_Suc:
  "found_in r sequence_number (from + window) window k b \<longleftrightarrow>
   found_in r sequence_number from window (Suc k) b"
  by (simp add: found_in_def window_logs_Suc)

lemma delivery_scan_result:
  "delivery_scan r sequence_number from window n = Inr res \<Longrightarrow>
   (case res of
      Some b \<Rightarrow> \<exists>k < n. found_in r sequence_number from window k b
                     \<and> (\<forall>j < k. window_silent r sequence_number from window j)
    | None \<Rightarrow> \<forall>j < n. window_silent r sequence_number from window j)"
proof (induction n arbitrary: "from")
  case (Suc n)
  then obtain logs found where logs: "window_logs r from window 0 = Inr logs"
    and found: "scan_logs sequence_number logs = Inr found"
    and cont: "(case found of Some b \<Rightarrow> Inr (Some b)
      | None \<Rightarrow> delivery_scan r sequence_number (from + window) window n) = Inr res"
    by (auto simp only: delivery_scan_Suc result_simps)
  show ?case
  proof (cases found)
    case None
    with found logs have silent: "window_silent r sequence_number from window 0"
      by (auto simp: scan_logs_find window_silent_def split: option.splits)
    from None cont have "delivery_scan r sequence_number (from + window) window n = Inr res" by simp
    note IH = Suc.IH [OF this]
    show ?thesis
    proof (cases res)
      case None
      with IH silent show ?thesis by (auto simp: silent_Suc less_Suc_eq_0_disj)
    next
      case (Some b)
      with IH obtain k where "k < n" "found_in r sequence_number from window (Suc k) b"
        "\<forall>j < k. window_silent r sequence_number from window (Suc j)"
        by (auto simp: silent_Suc found_Suc)
      moreover from this silent have "\<forall>j < Suc k. window_silent r sequence_number from window j"
        by (auto simp: less_Suc_eq_0_disj)
      ultimately show ?thesis using Some by (auto intro!: exI [of _ "Suc k"])
    qed
  next
    case (Some b)
    with found logs cont show ?thesis
      by (auto simp: scan_logs_find found_in_def intro!: exI [of _ 0] split: option.splits)
  qed
qed simp

text \<open>the delivery block reported for a batch is the block of the first log carrying its
  number in the first of the 64 consecutive windows that has one; when none is reported, none of
  the 64 windows holds such a log.\<close>

theorem delivery_block_sound:
  assumes "delivery_block_of_batch r sequence_number from window = Inr res"
  shows "case res of
      Some b \<Rightarrow> \<exists>k < 64. found_in r sequence_number from window k b
                     \<and> (\<forall>j < k. window_silent r sequence_number from window j)
    | None \<Rightarrow> \<forall>j < 64. window_silent r sequence_number from window j"
  using delivery_scan_result assms by (simp add: delivery_block_of_batch_def)

definition wit_delivery_provider :: provider where
  "wit_delivery_provider = wit_provider\<lparr>pr_get_logs := (\<lambda>f.
     Inr (if flt_from_block f \<le> 125 \<and> 125 \<le> flt_to_block f
          then [\<lparr> log_address = [], log_topics = [[], abi_u64 5, [], []], log_data = [], log_block_number = Some 125,
                  log_index = Some 0, log_tx_hash = None \<rparr>] else []))\<rparr>"

definition wit_delivery_reader :: SequencerInboxReader where
  "wit_delivery_reader = wit_reader\<lparr>rd_provider := wit_delivery_provider\<rparr>"

lemma wit_delivery: "delivery_block_of_batch wit_delivery_reader 5 100 10 = Inr (Some 125)"
proof -
  have "(64 :: nat) = Suc (Suc (Suc 61))" by simp
  then show ?thesis
    unfolding delivery_block_of_batch_def
    by (simp only: delivery_scan.simps)
       (simp add: Let_def batch_logs_def wit_delivery_reader_def wit_delivery_provider_def
         wit_reader_def wit_provider_def topic_seq_def slice_def cong: rbind_weak_cong)
qed

theorem delivery_block_sound_witness:
  "\<exists>k < 64. found_in wit_delivery_reader 5 100 10 k 125
     \<and> (\<forall>j < k. window_silent wit_delivery_reader 5 100 10 j)"
  using delivery_block_sound [OF wit_delivery] by simp

section \<open>Event payloads\<close>

lemma be_nat_length_word:
  assumes "length body < 2 ^ 63"
  shows "be_nat (u256_to_be (word_of_nat (length body))) = length body"
proof -
  have "unat (word_of_nat (length body) :: u256) = length body"
    using assms by (simp add: unat_of_nat)
  then show ?thesis using assms by (simp add: u256_to_be_def be_nat_nat_be)
qed

text \<open>The payload of a separate batch event (offset word, length word, body, padding) is read
  back exactly.\<close>

lemma decode_event_bytes_roundtrip:
  assumes "length offset = 32" and "length body < 2 ^ 63"
  shows "decode_event_bytes (offset @ u256_to_be (word_of_nat (length body)) @ body @ padding) = Inr body"
  using assms be_nat_length_word [OF assms(2)]
  by (simp add: decode_event_bytes_def Let_def slice_def get_range_def)

lemma decode_event_bytes_roundtrip_witness:
  "decode_event_bytes (replicate 32 0 @ u256_to_be (word_of_nat (length [1, 2, 3 :: byte])) @ [1, 2, 3] @ replicate 29 0)
     = Inr [1, 2, 3]"
  by (rule decode_event_bytes_roundtrip) auto

section \<open>Blob payloads\<close>

lemma pick_blobs_found:
  "list_all2 (\<lambda>vh blob. map_option sc_blob (find (\<lambda>s. sc_versioned_hash s = vh) sidecars) = Some blob) vhs blobs
   \<longleftrightarrow> pick_blobs sidecars vhs = Inr blobs"
proof (induction vhs arbitrary: blobs)
  case Nil
  then show ?case by auto
next
  case (Cons vh vhs)
  then show ?case by (auto simp: list_all2_Cons1 result_simps)
qed

lemma find_distinct:
  assumes "distinct (map f xs)" "x \<in> set xs"
  shows "find (\<lambda>y. f y = f x) xs = Some x"
  using assms by (induction xs) auto

text \<open>when the sidecars of a slot include, in any order and among any others, one sidecar per
  versioned hash, and those hold the blobs a payload was laid out over, the payload is recovered.\<close>

theorem blob_batch_payload_recovers:
  assumes "fst (blob_sidecars c slot) = Inr sidecars"
    and "distinct (map sc_versioned_hash sidecars)" and "set chosen \<subseteq> set sidecars"
    and "map sc_blob chosen = encode_blobs enc data"
    and "rlp_encodes rlp enc" and "length data < 2 ^ 64"
  shows "blob_batch_payload rlp c slot (map sc_versioned_hash chosen) = Inr data"
proof -
  have "pick_blobs sidecars (map sc_versioned_hash chosen) = Inr (map sc_blob chosen)"
    unfolding pick_blobs_found [symmetric] list_all2_map1 list_all2_map2
    using assms(2,3) by (auto simp: list_all2_same find_distinct subset_iff)
  moreover have "decode_blobs rlp (encode_blobs enc data) = Inr data"
    using decode_encode_blobs_core [OF assms(5,6)] .
  ultimately show ?thesis using assms(1,4) by (simp add: blob_batch_payload_def)
qed

definition wit_blob :: bytes where
  "wit_blob = hd (encode_blobs rlp_ref_encode [7, 0, 255])"

definition wit_beacon :: BeaconClient where
  "wit_beacon = \<lparr> bc_genesis_time = 0, bc_seconds_per_slot = 12,
     bc_get = (\<lambda>slot attempt. Body (Inr [\<lparr> raw_kzg_commitment = ''c'', raw_blob = ''b'' \<rparr>])),
     bc_hex_decode = (\<lambda>s. Inr (if s = ''b'' then wit_blob else [1])), bc_kzg_to_versioned_hash = id \<rparr>"

lemma wit_blob: "encode_blobs rlp_ref_encode [7, 0, 255] = [wit_blob]" "length wit_blob = BYTES_PER_BLOB"
proof -
  have "length (blob_chunks (rlp_ref_encode [7, 0, 255])) = 1"
    by (simp add: blob_chunks_def Let_def blob_consts rlp_ref_encode_def)
  then obtain chunk where ch: "blob_chunks (rlp_ref_encode [7, 0, 255]) = [chunk]"
    by (metis One_nat_def length_0_conv length_Suc_conv)
  then have "length chunk = 130048" using blob_chunks_shape [of "rlp_ref_encode [7, 0, 255]"] by simp
  then show "encode_blobs rlp_ref_encode [7, 0, 255] = [wit_blob]" "length wit_blob = BYTES_PER_BLOB"
    by (simp_all add: wit_blob_def encode_blobs_def ch length_encode_blob)
qed

theorem blob_batch_payload_recovers_witness:
  "blob_batch_payload rlp_ref_header wit_beacon 9 [[1]] = Inr [7, 0, 255]"
  using blob_batch_payload_recovers [of wit_beacon 9 "[\<lparr> sc_versioned_hash = [1], sc_blob = wit_blob \<rparr>]"
      "[\<lparr> sc_versioned_hash = [1], sc_blob = wit_blob \<rparr>]" rlp_ref_encode "[7, 0, 255]", OF _ _ _ _ rlp_ref_encodes]
  by (simp add: blob_sidecars_def wit_beacon_def sidecar_try_from_def wit_blob)

section \<open>Retries\<close>

definition transient :: "beacon_response \<Rightarrow> bool" where
  "transient resp =
     (case resp of NetworkError e \<Rightarrow> True | HttpStatus s shown \<Rightarrow> s = 429 \<or> 500 \<le> s \<and> s < 600 | Body b \<Rightarrow> False)"

definition response_result :: "BeaconClient \<Rightarrow> u64 \<Rightarrow> beacon_response \<Rightarrow> L1Error + BlobSidecar list" where
  "response_result c slot resp =
     (case resp of
        NetworkError e \<Rightarrow> Inl (Rpc e)
      | HttpStatus s shown \<Rightarrow> Inl (Rpc (''beacon blob_sidecars/'' @ dec (unat slot) @ '' -> '' @ shown))
      | Body (Inl e) \<Rightarrow> Inl (Rpc e)
      | Body (Inr raws) \<Rightarrow> try_map (sidecar_try_from c) raws)"

lemma sidecars_loop_final:
  "\<not> transient (bc_get c slot attempt) \<or> n = 0 \<Longrightarrow>
   sidecars_loop c slot attempt backoff n = (response_result c slot (bc_get c slot attempt), [])"
  by (auto simp: Let_def transient_def response_result_def split: beacon_response.splits sum.splits)

lemma sidecars_loop_again:
  "transient (bc_get c slot attempt) \<Longrightarrow>
   sidecars_loop c slot attempt backoff (Suc n) =
     (case sidecars_loop c slot (attempt + 1) (min (backoff * 2) 30000) n of
        (res, delays) \<Rightarrow> (res, backoff # delays))"
  by (subst sidecars_loop.simps)
     (auto simp: Let_def transient_def split: beacon_response.splits simp del: sidecars_loop.simps)

definition backoff_ms :: "nat \<Rightarrow> nat" where
  "backoff_ms i = min (500 * 2 ^ i) 30000"

lemma backoff_ms_Suc: "min (backoff_ms i * 2) 30000 = backoff_ms (Suc i)"
  by (simp add: backoff_ms_def min_def)

lemma sidecars_loop_run:
  assumes "\<forall>i < m. transient (bc_get c slot (attempt + i))" "m \<le> n"
    and "\<not> transient (bc_get c slot (attempt + m)) \<or> m = n"
  shows "sidecars_loop c slot attempt (backoff_ms k) n =
    (response_result c slot (bc_get c slot (attempt + m)), map backoff_ms [k..<k + m])"
  using assms
proof (induction m arbitrary: attempt k n)
  case 0
  then show ?case by (simp add: sidecars_loop_final del: sidecars_loop.simps)
next
  case (Suc m)
  then obtain n' where n: "n = Suc n'" by (cases n) auto
  have "transient (bc_get c slot attempt)" using Suc.prems(1) by (metis add_0_right zero_less_Suc)
  moreover have "sidecars_loop c slot (attempt + 1) (backoff_ms (Suc k)) n' =
      (response_result c slot (bc_get c slot (attempt + 1 + m)), map backoff_ms [Suc k..<Suc k + m])"
    using Suc.prems n by (intro Suc.IH) auto
  moreover have "[k..<k + Suc m] = k # [Suc k..<Suc k + m]" by (simp add: upt_conv_Cons del: upt_Suc)
  ultimately show ?case
    by (simp add: n sidecars_loop_again backoff_ms_Suc del: sidecars_loop.simps upt_Suc)
qed

text \<open>the sidecar request is repeated after each transient failure, at most twelve attempts in
  all, and its outcome is that of the first attempt that is not transient (or of the twelfth); the
  waits between attempts double from half a second up to thirty seconds.\<close>

theorem blob_sidecars_retry:
  assumes "\<forall>i < m. transient (bc_get c slot (1 + i))" and "m \<le> 11"
    and "\<not> transient (bc_get c slot (1 + m)) \<or> m = 11"
  shows "blob_sidecars c slot =
    (response_result c slot (bc_get c slot (1 + m)), map (\<lambda>i. min (500 * 2 ^ i) 30000) [0..<m])"
  using sidecars_loop_run [of m c slot 1 11 0] assms
  by (simp add: blob_sidecars_def MAX_ATTEMPTS_def backoff_ms_def [abs_def] del: sidecars_loop.simps)

theorem blob_sidecars_retry_witness:
  "blob_sidecars (wit_beacon\<lparr>bc_get := (\<lambda>slot attempt. if attempt < 3 then HttpStatus 503 ''Service Unavailable'' else Body (Inr []))\<rparr>) 9
     = (Inr [], [500, 1000])"
proof -
  let ?c = "wit_beacon\<lparr>bc_get := (\<lambda>slot attempt. if attempt < 3 then HttpStatus 503 ''Service Unavailable'' else Body (Inr []))\<rparr>"
  have "blob_sidecars ?c 9 = (response_result ?c 9 (bc_get ?c 9 (1 + 2)), map (\<lambda>i. min (500 * 2 ^ i) 30000) [0..<2])"
    by (rule blob_sidecars_retry) (auto simp: transient_def)
  then show ?thesis by (simp add: response_result_def upt_rec)
qed

end
