(* ===== verification/L1_Delayed.thy ===== *)
theory L1_Delayed
  imports L1_Reader "HOL-Library.Multiset"
begin

text \<open>
  \<open>crates/arb-reth-l1/src/delayed.rs\<close>: delayed-inbox messages rebuilt from bridge and inbox events.

  The reader record carries the provider, the event topics and the ABI decoder generated by
  \<open>sol!\<close>, keccak256, and \<open>di_completion\<close>: the order in which the concurrent body fetches of
  \<open>buffer_unordered\<close> complete.  \<open>fetch_bodies_any_order\<close> shows that the order does not matter.
\<close>

section \<open>The reader\<close>

record DelayedEvent =
  de_index :: u64
  de_before_inbox_acc :: b256
  de_inbox :: address
  de_kind :: byte
  de_sender :: address
  de_message_data_hash :: b256
  de_base_fee_l1 :: u256
  de_timestamp :: u64
  de_l1_block :: u64

record DelayedInboxReader =
  di_provider :: provider
  di_bridge :: address
  di_message_topic :: b256
  di_inline_topic :: b256
  di_origin_topic :: b256
  di_origin_decode :: "bytes \<Rightarrow> bytes option"
  di_keccak :: "bytes \<Rightarrow> b256"
  di_completion :: "Log list \<Rightarrow> Log list"

definition into_message :: "(bytes \<Rightarrow> b256) \<Rightarrow> DelayedEvent \<Rightarrow> bytes \<Rightarrow> L1Error + DelayedMessage" where
  "into_message keccak e body =
     (let msg = \<lparr> dm_kind = de_kind e, dm_sender = de_sender e, dm_block_number = de_l1_block e,
                  dm_timestamp = de_timestamp e, dm_inbox_seq_num = de_index e,
                  dm_base_fee_l1 = de_base_fee_l1 e, dm_data = body,
                  dm_before_inbox_acc = de_before_inbox_acc e \<rparr>
      in if message_data_hash keccak msg \<noteq> de_message_data_hash e
         then Inl (L1Blob (''delayed body hash mismatch at index '' @ dec (unat (de_index e))))
         else Inr msg)"

definition delayed_get_logs :: "DelayedInboxReader \<Rightarrow> Filter \<Rightarrow> L1Error + Log list" where
  "delayed_get_logs r flt = map_err Rpc (pr_get_logs (di_provider r) flt)"

definition topic_u64 :: "Log \<Rightarrow> string \<Rightarrow> L1Error + u64" where
  "topic_u64 log what =
     (if length (log_topics log) \<le> 1 then Inl (Missing what)
      else Inr (u64_of_be (slice 24 32 (log_topics log ! 1))))"

definition parse_message_delivered :: "b256 list \<Rightarrow> bytes \<Rightarrow> u64 \<Rightarrow> L1Error + DelayedEvent" where
  "parse_message_delivered topics data l1_block =
     (if length topics < 3 then Inl (Missing ''MessageDelivered indexed topics'')
      else if length data \<noteq> 6 * 32 then Inl (L1Batch (EventDataWrongLen (length data)))
      else Inr \<lparr> de_index = u64_of_be (slice 24 32 (topics ! 1)),
                 de_before_inbox_acc = topics ! 2,
                 de_inbox = slice 12 32 (abi_word data 0),
                 de_kind = abi_word data 1 ! 31,
                 de_sender = slice 12 32 (abi_word data 2),
                 de_message_data_hash = abi_word data 3,
                 de_base_fee_l1 = u256_of_be (abi_word data 4),
                 de_timestamp = u64_of_be (slice 24 32 (abi_word data 5)),
                 de_l1_block = l1_block \<rparr>)"

definition parse_inbox_message_data :: "bytes \<Rightarrow> L1Error + bytes" where
  "parse_inbox_message_data data =
     (if length data < 64 then Inl (Missing ''InboxMessageDelivered data head'')
      else let len = be_nat (slice 32 64 data) in
        if len \<ge> 2 ^ 64 then Inl (Missing ''InboxMessageDelivered length overflow'')
        else ok_or (Missing ''InboxMessageDelivered body'') (get_range data 64 ((64 + len) mod 2 ^ 64)))"

fun collect_metas :: "Log list \<Rightarrow> (u64, DelayedEvent) btree \<Rightarrow> L1Error + (u64, DelayedEvent) btree" where
  "collect_metas [] metas = Inr metas"
| "collect_metas (log # logs) metas =
     rbind (ok_or (Missing ''MessageDelivered block_number'') (log_block_number log))
       (\<lambda>l1_block. rbind (parse_message_delivered (log_topics log) (log_data log) l1_block)
         (\<lambda>event. collect_metas logs (bt_insert (de_index event) event metas)))"

definition fetch_metas :: "DelayedInboxReader \<Rightarrow> u64 \<Rightarrow> u64 \<Rightarrow> L1Error + (u64, DelayedEvent) btree" where
  "fetch_metas r from_block to_block =
     rbind (delayed_get_logs r
       \<lparr> flt_address = Some (di_bridge r), flt_event_signature = di_message_topic r, flt_topic1 = None,
         flt_from_block = from_block, flt_to_block = to_block \<rparr>)
       (\<lambda>logs. collect_metas logs [])"

type_synonym bodies = "(u64 \<times> address, bytes) btree"

fun collect_inline :: "Log list \<Rightarrow> bodies \<Rightarrow> L1Error + bodies" where
  "collect_inline [] bodies = Inr bodies"
| "collect_inline (log # logs) bodies =
     rbind (topic_u64 log ''InboxMessageDelivered messageNum'')
       (\<lambda>index. rbind (parse_inbox_message_data (log_data log))
         (\<lambda>data. collect_inline logs (bt_insert (index, log_address log) data bodies)))"

definition fetch_from_origin_body :: "DelayedInboxReader \<Rightarrow> Log \<Rightarrow> L1Error + bytes" where
  "fetch_from_origin_body r log =
     rbind (ok_or (Missing ''log transaction_hash'') (log_tx_hash log))
       (\<lambda>tx_hash. rbind (map_err Rpc (pr_get_tx (di_provider r) tx_hash))
         (\<lambda>found. rbind (ok_or (Missing ''from-origin transaction'') found)
           (\<lambda>tx. ok_or Abi (di_origin_decode r (tx_input tx)))))"

definition origin_body_entry :: "DelayedInboxReader \<Rightarrow> Log \<Rightarrow> L1Error + ((u64 \<times> address) \<times> bytes)" where
  "origin_body_entry r log =
     rbind (topic_u64 log ''InboxMessageDeliveredFromOrigin messageNum'')
       (\<lambda>index. rbind (fetch_from_origin_body r log)
         (\<lambda>data. Inr ((index, log_address log), data)))"

definition fetch_bodies :: "DelayedInboxReader \<Rightarrow> u64 \<Rightarrow> u64 \<Rightarrow> L1Error + bodies" where
  "fetch_bodies r from_block to_block =
     (let with_topic = (\<lambda>topic. \<lparr> flt_address = None, flt_event_signature = topic, flt_topic1 = None,
                                  flt_from_block = from_block, flt_to_block = to_block \<rparr>)
      in rbind (delayed_get_logs r (with_topic (di_inline_topic r)))
           (\<lambda>inline_logs. rbind (delayed_get_logs r (with_topic (di_origin_topic r)))
             (\<lambda>from_origin_logs. rbind (collect_inline inline_logs [])
               (\<lambda>bodies. rbind (try_map (origin_body_entry r) (di_completion r from_origin_logs))
                 (\<lambda>fetched. Inr (bt_extend fetched bodies))))))"

fun attach_bodies :: "(bytes \<Rightarrow> b256) \<Rightarrow> bodies \<Rightarrow> DelayedEvent list \<Rightarrow> L1Error + DelayedMessage list" where
  "attach_bodies keccak bodies [] = Inr []"
| "attach_bodies keccak bodies (event # events) =
     rbind (ok_or (Missing ''delayed message body for (index, inbox)'')
             (bt_get (de_index event, de_inbox event) bodies))
       (\<lambda>body. rbind (into_message keccak event body)
         (\<lambda>msg. rbind (attach_bodies keccak bodies events) (\<lambda>msgs. Inr (msg # msgs))))"

text \<open>The two requests run concurrently. When both fail, the source reports the error that arrives first, here it is
  that of the events; no property depends on which.\<close>

definition fetch_delayed :: "DelayedInboxReader \<Rightarrow> u64 \<Rightarrow> u64 \<Rightarrow> L1Error + DelayedMessage list" where
  "fetch_delayed r from_block to_block =
     rbind (fetch_metas r from_block to_block)
       (\<lambda>metas. rbind (fetch_bodies r from_block to_block)
         (\<lambda>bodies. attach_bodies (di_keccak r) bodies (bt_values metas)))"

definition fetch_delayed_map :: "DelayedInboxReader \<Rightarrow> u64 \<Rightarrow> u64 \<Rightarrow> L1Error + DelayedMap" where
  "fetch_delayed_map r from_block to_block =
     rbind (fetch_delayed r from_block to_block) (\<lambda>msgs. Inr (from_messages msgs))"

fun verify_accumulator_chain :: "(bytes \<Rightarrow> b256) \<Rightarrow> DelayedMessage list \<Rightarrow> bool" where
  "verify_accumulator_chain keccak (a # b # msgs) \<longleftrightarrow>
     dm_inbox_seq_num b = dm_inbox_seq_num a + 1 \<and> accumulator keccak a = dm_before_inbox_acc b
     \<and> verify_accumulator_chain keccak (b # msgs)"
| "verify_accumulator_chain keccak _ \<longleftrightarrow> True"

section \<open>The accumulator chain\<close>

lemma verify_snoc:
  "verify_accumulator_chain keccak (msgs @ [a, b]) \<longleftrightarrow>
     verify_accumulator_chain keccak (msgs @ [a])
     \<and> dm_inbox_seq_num b = dm_inbox_seq_num a + 1 \<and> accumulator keccak a = dm_before_inbox_acc b"
  by (induction keccak msgs rule: verify_accumulator_chain.induct) auto

text \<open>Addresses and digests have the same width in both chains, as the fixed-size types ensure.\<close>

definition same_widths :: "DelayedMessage list \<Rightarrow> DelayedMessage list \<Rightarrow> bool" where
  "same_widths xs ys \<longleftrightarrow>
     list_all2 (\<lambda>x y. length (dm_sender x) = length (dm_sender y)
                   \<and> length (dm_before_inbox_acc x) = length (dm_before_inbox_acc y)) xs ys"

lemma same_widths_snoc:
  "same_widths (xs @ [x]) (ys @ [y]) \<longleftrightarrow>
     same_widths xs ys \<and> length (dm_sender x) = length (dm_sender y)
     \<and> length (dm_before_inbox_acc x) = length (dm_before_inbox_acc y)"
  unfolding same_widths_def
  by (cases "length xs = length ys") (auto simp: list_all2_append dest: list_all2_lengthD)

definition chain_inputs :: "(bytes \<Rightarrow> b256) \<Rightarrow> DelayedMessage list \<Rightarrow> bytes set" where
  "chain_inputs keccak msgs = (\<Union>m \<in> set msgs. hashed_inputs keccak m)"

lemma chain_binding:
  assumes "inj_on keccak H"
  shows "verify_accumulator_chain keccak xs \<Longrightarrow> verify_accumulator_chain keccak ys \<Longrightarrow>
    chain_inputs keccak xs \<union> chain_inputs keccak ys \<subseteq> H \<Longrightarrow> same_widths xs ys \<Longrightarrow> xs \<noteq> [] \<Longrightarrow>
    accumulator keccak (last xs) = accumulator keccak (last ys) \<Longrightarrow> xs = ys"
proof (induction xs arbitrary: ys rule: rev_induct)
  case (snoc x xs)
  have len: "length ys = Suc (length xs)"
    using snoc.prems(4) by (auto simp: same_widths_def dest: list_all2_lengthD)
  then obtain ys' y where ys: "ys = ys' @ [y]" by (metis length_Suc_conv_rev)
  have w: "same_widths xs ys'" "length (dm_sender x) = length (dm_sender y)"
    "length (dm_before_inbox_acc x) = length (dm_before_inbox_acc y)"
    using snoc.prems(4) by (simp_all add: ys same_widths_snoc)
  have xy: "x = y"
    using snoc.prems(3,6) ys w by (intro accumulator_inject [OF assms]) (auto simp: chain_inputs_def)
  show ?case
  proof (cases xs rule: rev_cases)
    case Nil
    with len ys xy show ?thesis by simp
  next
    case xs: (snoc xs' a)
    obtain ys'' b where ys': "ys' = ys'' @ [b]" using xs len ys by (cases ys' rule: rev_cases) auto
    have "verify_accumulator_chain keccak xs" "accumulator keccak a = dm_before_inbox_acc x"
      using snoc.prems(1) xs verify_snoc [of keccak xs' a x] by simp_all
    moreover have "verify_accumulator_chain keccak ys'" "accumulator keccak b = dm_before_inbox_acc y"
      using snoc.prems(2) ys ys' verify_snoc [of keccak ys'' b y] by simp_all
    ultimately have "xs = ys'"
      using snoc.prems(3) xs ys ys' w(1) xy by (intro snoc.IH) (auto simp: chain_inputs_def)
    with xy ys show ?thesis by simp
  qed
qed simp

text \<open>C35: two verified chains of equally many delayed messages that end in the same accumulator
  are the same messages, unless keccak256 collides on the inputs hashed for them.\<close>

theorem accumulator_chain_binds:
  assumes "inj_on keccak (chain_inputs keccak xs \<union> chain_inputs keccak ys)"
    and "verify_accumulator_chain keccak xs" and "verify_accumulator_chain keccak ys"
    and "same_widths xs ys" and "xs \<noteq> []"
    and "accumulator keccak (last xs) = accumulator keccak (last ys)"
  shows "xs = ys"
  using chain_binding [OF assms(1-3) order_refl assms(4-6)] .

definition wit_chain :: "DelayedMessage list" where
  "wit_chain = [wit_delayed 7, (wit_delayed 8)\<lparr>dm_before_inbox_acc := accumulator id (wit_delayed 7)\<rparr>]"

theorem accumulator_chain_binds_witness:
  "verify_accumulator_chain id wit_chain \<and> \<not> (\<exists>ys. verify_accumulator_chain id ys \<and> same_widths wit_chain ys
     \<and> accumulator id (last ys) = accumulator id (last wit_chain) \<and> ys \<noteq> wit_chain)"
proof -
  have chain: "verify_accumulator_chain id wit_chain" "wit_chain \<noteq> []"
    by (simp_all add: wit_chain_def wit_delayed_def)
  moreover have "ys = wit_chain" if "verify_accumulator_chain id ys" "same_widths wit_chain ys"
    "accumulator id (last ys) = accumulator id (last wit_chain)" for ys
    using accumulator_chain_binds [OF inj_on_id chain(1) that(1,2) chain(2) that(3) [symmetric]] by (rule sym)
  ultimately show ?thesis by blast
qed

section \<open>Bodies: completion order\<close>

lemma decode_inline:
  assumes "length offset = 32" and "length body < 2 ^ 63"
  shows "parse_inbox_message_data (offset @ u256_to_be (word_of_nat (length body)) @ body @ padding) = Inr body"
  using assms be_nat_length_word [OF assms(2)]
  by (simp add: parse_inbox_message_data_def Let_def slice_def get_range_def)

lemma try_map_mset:
  assumes "try_map f xs = Inr ys" "mset xs' = mset xs"
  obtains ys' where "try_map f xs' = Inr ys'" "mset ys' = mset ys"
proof -
  define g where "g x = projr (f x)" for x
  have all: "f x = Inr (g x)" if "x \<in> set xs" for x
  proof -
    from that obtain i where "i < length xs" "x = xs ! i" by (metis in_set_conv_nth)
    with try_map_nth [OF assms(1)] show ?thesis by (simp add: g_def)
  qed
  from try_map_all [of xs f g] all assms(1) have ys: "ys = map g xs" by simp
  have "set xs' = set xs" using assms(2) by (metis set_mset_mset)
  with try_map_all [of xs' f g] all have "try_map f xs' = Inr (map g xs')" by simp
  moreover have "mset (map g xs') = mset ys" using assms(2) by (simp add: ys)
  ultimately show thesis by (rule that)
qed

definition origin_key :: "Log \<Rightarrow> u64 \<times> address" where
  "origin_key log = (u64_of_be (slice 24 32 (log_topics log ! 1)), log_address log)"

lemma origin_body_entry_key: "origin_body_entry r log = Inr entry \<Longrightarrow> fst entry = origin_key log"
  by (auto simp: origin_body_entry_def origin_key_def topic_u64_def result_simps split: if_splits)

lemma try_map_origin_keys:
  "try_map (origin_body_entry r) logs = Inr entries \<Longrightarrow> map fst entries = map origin_key logs"
  by (induction logs arbitrary: entries) (auto simp: result_simps dest: origin_body_entry_key)

lemma collect_inline_wf: "collect_inline logs bodies = Inr bodies' \<Longrightarrow> bt_wf bodies \<Longrightarrow> bt_wf bodies'"
  by (induction logs arbitrary: bodies) (auto simp: result_simps bt_wf_insert)

definition origin_filter :: "DelayedInboxReader \<Rightarrow> u64 \<Rightarrow> u64 \<Rightarrow> Filter" where
  "origin_filter r from_block to_block =
     \<lparr> flt_address = None, flt_event_signature = di_origin_topic r, flt_topic1 = None,
       flt_from_block = from_block, flt_to_block = to_block \<rparr>"

text \<open>the body fetches of a range run concurrently and finish in any order; as long as no two
  of their events share an index and an emitter, every completion order gives the same bodies.\<close>

theorem fetch_bodies_any_order:
  assumes "fetch_bodies r from_block to_block = Inr bodies"
    and "\<forall>logs. mset (di_completion r logs) = mset logs" and "\<forall>logs. mset (other logs) = mset logs"
    and "\<forall>logs. delayed_get_logs r (origin_filter r from_block to_block) = Inr logs \<longrightarrow>
           distinct (map origin_key logs)"
  shows "fetch_bodies (r\<lparr>di_completion := other\<rparr>) from_block to_block = Inr bodies"
proof -
  from assms(1) obtain inline logs inl fetched where
    inline: "delayed_get_logs r \<lparr> flt_address = None, flt_event_signature = di_inline_topic r,
      flt_topic1 = None, flt_from_block = from_block, flt_to_block = to_block \<rparr> = Inr inline"
    and logs: "delayed_get_logs r (origin_filter r from_block to_block) = Inr logs"
    and inl: "collect_inline inline [] = Inr inl"
    and fetched: "try_map (origin_body_entry r) (di_completion r logs) = Inr fetched"
    and bodies: "bodies = bt_extend fetched inl"
    by (auto simp: fetch_bodies_def Let_def origin_filter_def result_simps)
  obtain fetched' where fetched': "try_map (origin_body_entry r) (other logs) = Inr fetched'"
    and ms: "mset fetched' = mset fetched"
    using try_map_mset [OF fetched] assms(2,3) by metis
  have "mset (map origin_key (di_completion r logs)) = mset (map origin_key logs)"
    "mset (map origin_key (other logs)) = mset (map origin_key logs)"
    using assms(2,3) by simp_all
  then have "distinct (map origin_key (di_completion r logs))" "distinct (map origin_key (other logs))"
    using assms(4) logs mset_eq_imp_distinct_iff by blast+
  then have "bt_extend fetched' inl = bt_extend fetched inl"
    using collect_inline_wf [OF inl] try_map_origin_keys [OF fetched] try_map_origin_keys [OF fetched'] ms
    by (intro bt_extend_permute) (auto dest: mset_eq_setD)
  moreover have "origin_body_entry (r\<lparr>di_completion := other\<rparr>) = origin_body_entry r"
    by (simp add: fun_eq_iff origin_body_entry_def fetch_from_origin_body_def)
  ultimately show ?thesis
    using inline logs inl fetched' bodies
    by (simp add: fetch_bodies_def Let_def delayed_get_logs_def origin_filter_def)
qed

section \<open>What a fetched range contains\<close>

definition log_index_of :: "Log \<Rightarrow> u64" where
  "log_index_of log = u64_of_be (slice 24 32 (log_topics log ! 1))"

definition event_of :: "Log \<Rightarrow> DelayedEvent \<Rightarrow> bool" where
  "event_of log e \<longleftrightarrow>
     (\<exists>b. log_block_number log = Some b \<and> parse_message_delivered (log_topics log) (log_data log) b = Inr e)"

lemma event_of_index: "event_of log e \<Longrightarrow> de_index e = log_index_of log"
  by (auto simp: event_of_def parse_message_delivered_def log_index_of_def split: if_splits)

definition metas_from :: "Log set \<Rightarrow> (u64, DelayedEvent) btree \<Rightarrow> bool" where
  "metas_from logs metas \<longleftrightarrow> bt_wf metas \<and> fst ` set metas = log_index_of ` logs
     \<and> (\<forall>(k, e) \<in> set metas. de_index e = k \<and> (\<exists>log \<in> logs. event_of log e))"

lemma metas_from_snd: "metas_from L metas \<Longrightarrow> kv \<in> set metas \<Longrightarrow> \<exists>log \<in> L. event_of log (snd kv)"
  by (cases kv) (auto simp: metas_from_def)

lemma metas_from_insert:
  assumes "metas_from L metas" "event_of log e"
  shows "metas_from (insert log L) (bt_insert (de_index e) e metas)"
proof -
  let ?metas = "bt_insert (de_index e) e metas"
  have "fst ` set ?metas = log_index_of ` insert log L"
    using assms(1) event_of_index [OF assms(2)] by (simp add: metas_from_def set_bt_insert_keys)
  moreover have "\<forall>(k, e) \<in> set ?metas. de_index e = k \<and> (\<exists>log \<in> insert log L. event_of log e)"
    using assms by (auto simp: metas_from_def set_bt_insert)
  ultimately show ?thesis using assms(1) by (simp add: metas_from_def bt_wf_insert)
qed

lemma collect_metas_from:
  "collect_metas logs metas = Inr metas' \<Longrightarrow> metas_from L metas \<Longrightarrow> metas_from (L \<union> set logs) metas'"
proof (induction logs arbitrary: metas L)
  case (Cons log logs)
  then obtain e where e: "event_of log e" "collect_metas logs (bt_insert (de_index e) e metas) = Inr metas'"
    by (auto simp: result_simps event_of_def)
  from Cons.IH [OF e(2) metas_from_insert [OF Cons.prems(2) e(1)]] show ?case by simp
qed simp

lemma into_message_fields:
  "into_message keccak e body = Inr m \<Longrightarrow> dm_data m = body \<and> dm_inbox_seq_num m = de_index e"
  by (auto simp: into_message_def Let_def split: if_splits)

lemma attach_bodies_Inr:
  "attach_bodies keccak bodies events = Inr msgs \<Longrightarrow>
   list_all2 (\<lambda>e m. into_message keccak e (dm_data m) = Inr m) events msgs"
  by (induction events arbitrary: msgs) (auto simp: result_simps dest: into_message_fields)

lemma attach_bodies_index:
  "attach_bodies keccak bodies events = Inr msgs \<Longrightarrow> map dm_inbox_seq_num msgs = map de_index events"
  by (induction events arbitrary: msgs) (auto simp: result_simps dest: into_message_fields)

definition bridge_filter :: "DelayedInboxReader \<Rightarrow> u64 \<Rightarrow> u64 \<Rightarrow> Filter" where
  "bridge_filter r from_block to_block =
     \<lparr> flt_address = Some (di_bridge r), flt_event_signature = di_message_topic r, flt_topic1 = None,
       flt_from_block = from_block, flt_to_block = to_block \<rparr>"

text \<open>A fetched range of delayed messages is in strictly ascending index order, has exactly the
  indices the bridge's events of the range announce, and each message is one such event paired
  with a body whose hash the event records.\<close>

theorem fetch_delayed_sound:
  assumes "fetch_delayed r from_block to_block = Inr msgs"
  shows "\<exists>logs. delayed_get_logs r (bridge_filter r from_block to_block) = Inr logs
    \<and> sorted_wrt (<) (map dm_inbox_seq_num msgs)
    \<and> dm_inbox_seq_num ` set msgs = log_index_of ` set logs
    \<and> (\<forall>m \<in> set msgs. \<exists>log \<in> set logs. \<exists>e. event_of log e
          \<and> into_message (di_keccak r) e (dm_data m) = Inr m)"
proof -
  from assms obtain logs metas bodies where logs: "delayed_get_logs r (bridge_filter r from_block to_block) = Inr logs"
    and metas: "collect_metas logs [] = Inr metas"
    and msgs: "attach_bodies (di_keccak r) bodies (bt_values metas) = Inr msgs"
    by (auto simp: fetch_delayed_def fetch_metas_def bridge_filter_def result_simps)
  have from_logs: "metas_from (set logs) metas"
    using collect_metas_from [OF metas, of "{}"] by (simp add: metas_from_def)
  have "map de_index (bt_values metas) = bt_keys metas"
    using from_logs by (auto simp: metas_from_def bt_values_def bt_keys_def)
  with attach_bodies_index [OF msgs] have idx: "map dm_inbox_seq_num msgs = bt_keys metas" by simp
  have "sorted_wrt (<) (bt_keys metas)" using from_logs by (simp add: metas_from_def bt.keys_sorted)
  moreover have "dm_inbox_seq_num ` set msgs = log_index_of ` set logs"
    using from_logs arg_cong [OF idx, of set] by (simp add: metas_from_def bt_keys_def)
  moreover have "\<exists>log \<in> set logs. \<exists>e. event_of log e \<and> into_message (di_keccak r) e (dm_data m) = Inr m"
    if "m \<in> set msgs" for m
  proof -
    note all = attach_bodies_Inr [OF msgs]
    from that obtain i where i: "i < length msgs" "m = msgs ! i" by (auto simp: in_set_conv_nth)
    define e where "e = bt_values metas ! i"
    have "into_message (di_keccak r) e (dm_data m) = Inr m"
      using list_all2_nthD2 [OF all i(1)] by (simp add: i(2) e_def)
    moreover have "metas ! i \<in> set metas" "e = snd (metas ! i)"
      using i(1) list_all2_lengthD [OF all] by (simp_all add: e_def bt_values_def)
    then have "\<exists>log \<in> set logs. event_of log e" using metas_from_snd [OF from_logs] by blast
    ultimately show ?thesis by blast
  qed
  ultimately show ?thesis using logs idx by auto
qed

section \<open>A concrete range\<close>

text \<open>One bridge event for index 7, body inline, and one for index 8, body in the calldata of the
  originating transaction; the digest is the body itself, padded.\<close>

definition wit_digest :: "bytes \<Rightarrow> b256" where
  "wit_digest body = take 32 (body @ replicate 32 0)"

definition wit_event_log :: "u64 \<Rightarrow> bytes \<Rightarrow> Log" where
  "wit_event_log i body = \<lparr> log_address = replicate 20 9, log_topics = [[], abi_u64 i, replicate 32 0],
     log_data = replicate 12 0 @ replicate 20 5 @ replicate 31 0 @ [9] @ replicate 32 0 @ wit_digest body
       @ replicate 32 0 @ abi_u64 150,
     log_block_number = Some 15, log_index = Some 0, log_tx_hash = Some [] \<rparr>"

definition wit_body_log :: "u64 \<Rightarrow> bytes \<Rightarrow> Log" where
  "wit_body_log i body = \<lparr> log_address = replicate 20 5, log_topics = [[], abi_u64 i],
     log_data = replicate 32 0 @ u256_to_be (word_of_nat (length body)) @ body,
     log_block_number = Some 15, log_index = Some 1, log_tx_hash = Some [] \<rparr>"

definition wit_inbox_logs :: "b256 \<Rightarrow> Log list" where
  "wit_inbox_logs topic =
     (if topic = [1] then [wit_event_log 7 [1, 2], wit_event_log 8 [3]]
      else if topic = [2] then [wit_body_log 7 [1, 2]]
      else [wit_body_log 8 []])"

definition wit_delayed_reader :: DelayedInboxReader where
  "wit_delayed_reader = \<lparr> di_provider = wit_provider\<lparr>
       pr_get_logs := (\<lambda>f. Inr (if flt_from_block f \<le> 15 \<and> 15 \<le> flt_to_block f
                                then wit_inbox_logs (flt_event_signature f) else [])),
       pr_get_tx := (\<lambda>h. Inr (Some \<lparr> tx_input = [3], tx_blob_hashes = None \<rparr>))\<rparr>,
     di_bridge = replicate 20 9, di_message_topic = [1], di_inline_topic = [2], di_origin_topic = [3],
     di_origin_decode = Some, di_keccak = wit_digest, di_completion = id \<rparr>"

definition wit_bodies :: bodies where
  "wit_bodies = [((7, replicate 20 5), [1, 2]), ((8, replicate 20 5), [3])]"

lemma wit_logs:
  "delayed_get_logs wit_delayed_reader f =
     Inr (if flt_from_block f \<le> 15 \<and> 15 \<le> flt_to_block f then wit_inbox_logs (flt_event_signature f) else [])"
  "di_message_topic wit_delayed_reader = [1]" "di_inline_topic wit_delayed_reader = [2]"
  "di_origin_topic wit_delayed_reader = [3]" "di_keccak wit_delayed_reader = wit_digest"
  "di_completion wit_delayed_reader = id"
  by (simp_all add: delayed_get_logs_def wit_delayed_reader_def)

lemma wit_origin_entry: "origin_body_entry wit_delayed_reader (wit_body_log 8 []) = Inr ((8, replicate 20 5), [3])"
  by (simp add: origin_body_entry_def fetch_from_origin_body_def wit_delayed_reader_def topic_u64_def
      wit_body_log_def slice_def)

lemma wit_collect_inline: "collect_inline [wit_body_log 7 [1, 2]] [] = Inr [((7, replicate 20 5), [1, 2])]"
  using decode_inline [of "replicate 32 0" "[1, 2]" "[]"]
  by (simp add: wit_body_log_def topic_u64_def slice_def)

lemma wit_fetch_bodies:
  "fetch_bodies wit_delayed_reader lo hi = Inr (if lo \<le> 15 \<and> 15 \<le> hi then wit_bodies else [])"
  unfolding fetch_bodies_def Let_def wit_logs
  using wit_collect_inline
  by (simp add: wit_inbox_logs_def wit_origin_entry wit_bodies_def bt_extend_def)

theorem fetch_bodies_any_order_witness:
  "fetch_bodies (wit_delayed_reader\<lparr>di_completion := rev\<rparr>) 10 20 = Inr wit_bodies"
  by (rule fetch_bodies_any_order) (auto simp: wit_fetch_bodies wit_logs origin_filter_def wit_inbox_logs_def)

definition wit_metas :: "(u64, DelayedEvent) btree" where
  "wit_metas = projr (collect_metas (wit_inbox_logs [1]) [])"

definition wit_fetched :: "DelayedMessage list" where
  "wit_fetched = projr (attach_bodies wit_digest wit_bodies (bt_values wit_metas))"

lemmas wit_eval = wit_metas_def wit_inbox_logs_def parse_message_delivered_def wit_event_log_def abi_word_def
  slice_def wit_digest_def wit_bodies_def bt_values_def bt_get_def into_message_def message_data_hash_def Let_def

lemma wit_metas: "collect_metas (wit_inbox_logs [1]) [] = Inr wit_metas"
  by (simp add: wit_eval)

lemma wit_attach: "attach_bodies wit_digest wit_bodies (bt_values wit_metas) = Inr wit_fetched"
  by (simp add: wit_eval wit_fetched_def)

lemma wit_fetched_indices: "map dm_inbox_seq_num wit_fetched = [7, 8]"
  by (simp add: wit_eval wit_fetched_def)

lemma wit_fetch_delayed:
  "fetch_delayed wit_delayed_reader lo hi = Inr (if lo \<le> 15 \<and> 15 \<le> hi then wit_fetched else [])"
  by (simp add: fetch_delayed_def fetch_metas_def wit_logs wit_metas wit_fetch_bodies wit_attach bt_values_def [of "[]"])

theorem fetch_delayed_sound_witness:
  "sorted_wrt (<) (map dm_inbox_seq_num wit_fetched) \<and> dm_inbox_seq_num ` set wit_fetched = {7, 8}"
proof -
  have "fetch_delayed wit_delayed_reader 10 20 = Inr wit_fetched" by (simp add: wit_fetch_delayed)
  from fetch_delayed_sound [OF this] show ?thesis
    by (auto simp: wit_logs bridge_filter_def log_index_of_def wit_event_log_def slice_def wit_inbox_logs_def)
qed

end
