(* ===== verification/L1_Range.thy ===== *)
theory L1_Range
  imports L1_Delayed
begin

text \<open>
  \<open>crates/arb-reth-l1/src/sync.rs\<close>: one L1 block range to feed messages.  The delayed cache is threaded
  as explicit state and every operation returns it, also when it fails: a failing scan keeps the
  messages it had already folded in.  \<open>L1Error.Panic\<close> marks the two \<open>expect\<close> calls.
\<close>

section \<open>Resolving a range's batches\<close>

record DerivedRange =
  dr_messages :: "BroadcastFeedMessage list"
  dr_next_delayed_count :: u64
  dr_batches :: nat

definition DEFAULT_DELAYED_WINDOW :: u64 where
  "DEFAULT_DELAYED_WINDOW = 10000"

definition log_key :: "Log \<Rightarrow> u64 \<times> u64" where
  "log_key l = (case log_block_number l of Some b \<Rightarrow> b | None \<Rightarrow> 0,
                case log_index l of Some i \<Rightarrow> i | None \<Rightarrow> 0)"

definition resolve_one ::
  "rlp_header \<Rightarrow> SequencerInboxReader \<Rightarrow> BeaconClient option \<Rightarrow> Log \<Rightarrow> L1Error + (DeliveredBatch \<times> bytes)" where
  "resolve_one rlp seq_reader beacon log =
     rbind (resolve_batch seq_reader log)
       (\<lambda>batch. rbind
          (case db_payload batch of
             Calldata p \<Rightarrow> Inr p
           | NoPayload \<Rightarrow> Inr []
           | BlobPayload hashes block_number \<Rightarrow>
               rbind (ok_or (Missing ''beacon client for blob batch'') beacon)
                 (\<lambda>c. resolve_blob_payload rlp seq_reader c block_number hashes))
          (\<lambda>payload. Inr (batch, payload)))"

definition resolve_batches ::
  "rlp_header \<Rightarrow> SequencerInboxReader \<Rightarrow> BeaconClient option \<Rightarrow> u64 \<Rightarrow> u64
   \<Rightarrow> L1Error + (DeliveredBatch \<times> bytes) list" where
  "resolve_batches rlp seq_reader beacon from_block to_block =
     rbind (batch_logs seq_reader from_block to_block)
       (\<lambda>logs. try_map (resolve_one rlp seq_reader beacon) (sort_key log_key logs))"

section \<open>Delayed coverage without a cache\<close>

definition insert_all :: "DelayedMessage list \<Rightarrow> DelayedMap \<Rightarrow> DelayedMap" where
  "insert_all msgs acc = bt_extend (map (\<lambda>m. (dm_inbox_seq_num m, m)) msgs) acc"

definition has_all :: "u64 \<Rightarrow> u64 \<Rightarrow> DelayedMap \<Rightarrow> bool" where
  "has_all need_from need_to acc = list_all (\<lambda>i. bt_contains i acc) (u64_range need_from need_to)"

lemma sat_sub_le: "sat_sub a b \<le> a"
  by (simp add: word_le_nat_alt unat_sat_sub)

lemma unat_pred_less: "(lo :: u64) \<le> hi \<Longrightarrow> lo \<noteq> 0 \<Longrightarrow> unat (lo - 1) < unat hi"
proof -
  assume "lo \<le> hi" "lo \<noteq> 0"
  then have "0 < unat lo" "unat lo \<le> unat hi" by (simp_all add: word_le_nat_alt unat_gt_0)
  then show ?thesis by (simp add: unat_minus_one [OF \<open>lo \<noteq> 0\<close>])
qed

function covering_loop :: "DelayedInboxReader \<Rightarrow> u64 \<Rightarrow> u64 \<Rightarrow> u64 \<Rightarrow> u64 \<Rightarrow> DelayedMap \<Rightarrow> L1Error + DelayedMap" where
  "covering_loop r hi need_from need_to window acc =
     (let lo = sat_sub hi (window - 1) in
      case fetch_delayed r lo hi of
        Inl e \<Rightarrow> Inl e
      | Inr msgs \<Rightarrow>
          let acc' = insert_all msgs acc in
          if bt_contains need_from acc' \<or> has_all need_from need_to acc' then Inr acc'
          else if lo = 0
            then Inl (Missing ''delayed messages: scan reached block 0 without coverage'')
          else covering_loop r (lo - 1) need_from need_to window acc')"
  by pat_completeness auto

termination covering_loop
  by (relation "measure (\<lambda>(r, hi, need_from, need_to, window, acc). unat hi)")
     (auto intro: unat_pred_less sat_sub_le)

declare covering_loop.simps [simp del]

definition fetch_delayed_map_covering ::
  "DelayedInboxReader \<Rightarrow> u64 \<Rightarrow> u64 \<Rightarrow> u64 \<Rightarrow> u64 \<Rightarrow> L1Error + DelayedMap" where
  "fetch_delayed_map_covering r to_block need_from need_to window =
     (if need_to \<le> need_from then Inr []
      else rbind (covering_loop r to_block need_from need_to (max window 1) [])
        (\<lambda>acc. if has_all need_from need_to acc then Inr (from_messages (bt_values acc))
               else Inl (Missing ''delayed message index not found in scan'')))"

section \<open>The delayed cache\<close>

record DelayedCache =
  dc_msgs :: DelayedMap
  dc_scanned_lo :: "u64 option"
  dc_scanned_hi :: "u64 option"

definition DelayedCache_new :: DelayedCache where
  "DelayedCache_new = \<lparr> dc_msgs = [], dc_scanned_lo = None, dc_scanned_hi = None \<rparr>"

definition covers :: "DelayedCache \<Rightarrow> u64 \<Rightarrow> u64 \<Rightarrow> bool" where
  "covers c need_from need_to = has_all need_from need_to (dc_msgs c)"

function scan_loop :: "DelayedInboxReader \<Rightarrow> u64 \<Rightarrow> u64 \<Rightarrow> u64 \<Rightarrow> DelayedMap \<Rightarrow> DelayedMap \<times> (L1Error + unit)" where
  "scan_loop r lo chunk_hi window msgs =
     (let chunk_lo = max (sat_sub chunk_hi (window - 1)) lo in
      case fetch_delayed r chunk_lo chunk_hi of
        Inl e \<Rightarrow> (msgs, Inl e)
      | Inr ms \<Rightarrow>
          let msgs' = insert_all ms msgs in
          if chunk_lo = lo then (msgs', Inr ())
          else scan_loop r lo (chunk_lo - 1) window msgs')"
  by pat_completeness auto

lemma chunk_decreases:
  assumes "max (sat_sub hi w) lo \<noteq> lo"
  shows "unat (max (sat_sub hi w) lo - 1) < unat hi"
proof (rule unat_pred_less)
  have "lo < sat_sub hi w" using assms by (auto simp: max_def split: if_splits)
  then have "max (sat_sub hi w) lo = sat_sub hi w" by simp
  then show "max (sat_sub hi w) lo \<le> hi" by (simp add: sat_sub_le)
  show "max (sat_sub hi w) lo \<noteq> 0"
    using \<open>lo < sat_sub hi w\<close> \<open>max (sat_sub hi w) lo = sat_sub hi w\<close> by auto
qed

termination scan_loop
  by (relation "measure (\<lambda>(r, lo, chunk_hi, window, msgs). unat chunk_hi)") (auto intro: chunk_decreases)

declare scan_loop.simps [simp del]

definition scan_range :: "DelayedInboxReader \<Rightarrow> u64 \<Rightarrow> u64 \<Rightarrow> u64 \<Rightarrow> DelayedCache \<Rightarrow> DelayedCache \<times> (L1Error + unit)" where
  "scan_range r lo hi window c =
     (case scan_loop r lo hi (max window 1) (dc_msgs c) of
        (msgs, Inl e) \<Rightarrow> (c\<lparr>dc_msgs := msgs\<rparr>, Inl e)
      | (msgs, Inr _) \<Rightarrow>
          (c\<lparr>dc_msgs := msgs,
             dc_scanned_lo := Some (case dc_scanned_lo c of None \<Rightarrow> lo | Some x \<Rightarrow> min x lo),
             dc_scanned_hi := Some (case dc_scanned_hi c of None \<Rightarrow> hi | Some x \<Rightarrow> max x hi)\<rparr>, Inr ()))"

function backfill :: "DelayedInboxReader \<Rightarrow> u64 \<Rightarrow> u64 \<Rightarrow> u64 \<Rightarrow> DelayedCache \<Rightarrow> DelayedCache \<times> (L1Error + unit)" where
  "backfill r need_from need_to window c =
     (if covers c need_from need_to then (c, Inr ())
      else case dc_scanned_lo c of
        None \<Rightarrow> (c, Inl (Panic ''scanned after forward extend''))
      | Some lo \<Rightarrow>
          if lo = 0 then (c, Inl (Missing ''delayed messages: scan reached block 0 without coverage''))
          else let next_hi = lo - 1; next_lo = sat_sub next_hi (window - 1) in
            (case scan_range r next_lo next_hi window c of
               (c', Inl e) \<Rightarrow> (c', Inl e)
             | (c', Inr _) \<Rightarrow> backfill r need_from need_to window c'))"
  by pat_completeness auto

lemma scan_range_scanned:
  assumes "scan_range r lo hi window c = (c', Inr u)"
  shows "dc_scanned_lo c' = Some (case dc_scanned_lo c of None \<Rightarrow> lo | Some x \<Rightarrow> min x lo)"
    and "dc_scanned_hi c' = Some (case dc_scanned_hi c of None \<Rightarrow> hi | Some x \<Rightarrow> max x hi)"
  using assms by (auto simp: scan_range_def split: prod.splits sum.splits)

lemma backfill_lo_decreases:
  fixes lo w :: u64
  assumes "lo \<noteq> 0"
  shows "sat_sub (lo - 1) w < lo" and "unat (min lo (sat_sub (lo - 1) w)) < unat lo"
proof -
  have "lo - 1 < lo" using unat_pred_less [of lo lo] assms by (simp add: word_less_nat_alt)
  with sat_sub_le [of "lo - 1" w] show *: "sat_sub (lo - 1) w < lo" by simp
  then show "unat (min lo (sat_sub (lo - 1) w)) < unat lo"
    by (simp add: min_absorb2 less_imp_le flip: word_less_nat_alt)
qed

termination backfill
  by (relation "measure (\<lambda>(r, need_from, need_to, window, c).
        case dc_scanned_lo c of None \<Rightarrow> 0 | Some lo \<Rightarrow> unat lo)")
     (auto dest!: scan_range_scanned(1) [OF sym] intro: backfill_lo_decreases(2))

declare backfill.simps [simp del]

definition extend_forward :: "DelayedInboxReader \<Rightarrow> u64 \<Rightarrow> u64 \<Rightarrow> DelayedCache \<Rightarrow> DelayedCache \<times> (L1Error + unit)" where
  "extend_forward r to_block window c =
     (case dc_scanned_hi c of
        Some hi \<Rightarrow> if hi < to_block then scan_range r (hi + 1) to_block window c else (c, Inr ())
      | None \<Rightarrow> scan_range r (sat_sub to_block (window - 1)) to_block window c)"

definition take_needed :: "u64 \<Rightarrow> u64 \<Rightarrow> DelayedCache \<Rightarrow> DelayedCache \<times> (L1Error + DelayedMap)" where
  "take_needed need_from need_to c =
     (case try_map (\<lambda>i. ok_or (Panic ''covered above'') (bt_get i (dc_msgs c))) (u64_range need_from need_to) of
        Inl e \<Rightarrow> (c, Inl e)
      | Inr ms \<Rightarrow> (c\<lparr>dc_msgs := bt_retain (\<lambda>i. need_from \<le> i) (dc_msgs c)\<rparr>, Inr (from_messages ms)))"

definition cover ::
  "DelayedInboxReader \<Rightarrow> u64 \<Rightarrow> u64 \<Rightarrow> u64 \<Rightarrow> u64 \<Rightarrow> DelayedCache \<Rightarrow> DelayedCache \<times> (L1Error + DelayedMap)" where
  "cover r to_block need_from need_to window c =
     (if need_to \<le> need_from then (c, Inr [])
      else let window = max window 1 in
        if covers c need_from need_to then take_needed need_from need_to c
        else case extend_forward r to_block window c of
          (c1, Inl e) \<Rightarrow> (c1, Inl e)
        | (c1, Inr _) \<Rightarrow>
            (case backfill r need_from need_to window c1 of
               (c2, Inl e) \<Rightarrow> (c2, Inl e)
             | (c2, Inr _) \<Rightarrow> take_needed need_from need_to c2))"

section \<open>Deriving a range\<close>

type_synonym ReportStatsCache = report_stats

fun find_reported :: "externals \<Rightarrow> SequencerInboxReader \<Rightarrow> u64 \<Rightarrow> b256 \<Rightarrow> Log list \<Rightarrow> L1Error + BatchDataStats" where
  "find_reported x seq_reader seq_num data_hash [] =
     Inl (Missing ''reported batch not found at its delivery block'')"
| "find_reported x seq_reader seq_num data_hash (log # logs) =
     (if length (log_topics log) \<le> 1 \<or> topic_seq (log_topics log ! 1) \<noteq> seq_num
      then find_reported x seq_reader seq_num data_hash logs
      else rbind (resolve_batch seq_reader log)
        (\<lambda>batch. if batch_data_hash x batch \<noteq> data_hash
                 then Inl (Missing ''reported batch data_hash mismatch'')
                 else Inr (batch_data_stats (serialize_batch batch))))"

definition stats_for_reported_batch ::
  "externals \<Rightarrow> SequencerInboxReader \<Rightarrow> u64 \<Rightarrow> u64 \<Rightarrow> b256 \<Rightarrow> L1Error + BatchDataStats" where
  "stats_for_reported_batch x seq_reader l1_block seq_num data_hash =
     rbind (batch_logs seq_reader l1_block l1_block) (find_reported x seq_reader seq_num data_hash)"

fun seed_loop ::
  "externals \<Rightarrow> SequencerInboxReader \<Rightarrow> b256 list \<Rightarrow> DelayedMessage list \<Rightarrow> report_stats \<Rightarrow> ReportStatsCache
   \<Rightarrow> ReportStatsCache \<times> (L1Error + report_stats)" where
  "seed_loop x seq_reader in_range [] seed cache = (cache, Inr seed)"
| "seed_loop x seq_reader in_range (m # ms) seed cache =
     (if dm_kind m \<noteq> KIND_BATCH_POSTING_REPORT then seed_loop x seq_reader in_range ms seed cache
      else case report_data_hash (dm_data m) of
        None \<Rightarrow> (cache, Inl (Missing ''report data_hash''))
      | Some dh \<Rightarrow>
          if dh \<in> set in_range \<or> bt_contains dh seed then seed_loop x seq_reader in_range ms seed cache
          else case bt_get dh cache of
            Some stats \<Rightarrow> seed_loop x seq_reader in_range ms (bt_insert dh stats seed) cache
          | None \<Rightarrow>
              (case report_batch_num (dm_data m) of
                 None \<Rightarrow> (cache, Inl (Missing ''report batch num''))
               | Some seq \<Rightarrow>
                   (case stats_for_reported_batch x seq_reader (dm_block_number m) seq dh of
                      Inl e \<Rightarrow> (cache, Inl e)
                    | Inr stats \<Rightarrow>
                        seed_loop x seq_reader in_range ms (bt_insert dh stats seed) (bt_insert dh stats cache))))"

definition seed_report_stats ::
  "externals \<Rightarrow> SequencerInboxReader \<Rightarrow> DelayedMap \<Rightarrow> b256 list \<Rightarrow> ReportStatsCache
   \<Rightarrow> ReportStatsCache \<times> (L1Error + report_stats)" where
  "seed_report_stats x seq_reader delayed in_range cache =
     seed_loop x seq_reader in_range (bt_values delayed) [] cache"

fun record_in_range :: "externals \<Rightarrow> (DeliveredBatch \<times> bytes) list \<Rightarrow> ReportStatsCache \<Rightarrow> ReportStatsCache" where
  "record_in_range x [] cache = cache"
| "record_in_range x ((batch, payload) # resolved) cache =
     (let dh = batch_data_hash x batch in
      record_in_range x resolved
        (if bt_contains dh cache then cache
         else bt_insert dh (batch_data_stats (serialize_batch batch)) cache))"

definition derive_from_resolved_cached ::
  "externals \<Rightarrow> SequencerInboxReader \<Rightarrow> DelayedInboxReader \<Rightarrow> (DeliveredBatch \<times> bytes) list \<Rightarrow> u64 \<Rightarrow> u64 \<Rightarrow> u64
   \<Rightarrow> DelayedCache \<Rightarrow> ReportStatsCache \<Rightarrow> DelayedCache \<times> ReportStatsCache \<times> (L1Error + DerivedRange)" where
  "derive_from_resolved_cached x seq_reader delayed_reader resolved to_block start_delayed_count window
       delayed_cache report_cache =
     (if resolved = [] then
        (delayed_cache, report_cache,
         Inr \<lparr> dr_messages = [], dr_next_delayed_count = start_delayed_count, dr_batches = 0 \<rparr>)
      else
        let next_delayed_count = sb_after_delayed_messages_read (db_event (fst (last resolved)));
            finish = (\<lambda>r. rbind r (\<lambda>messages.
              Inr \<lparr> dr_messages = messages, dr_next_delayed_count = next_delayed_count,
                    dr_batches = length resolved \<rparr>));
            in_range = map (\<lambda>(b, _). batch_data_hash x b) resolved;
            report_cache1 = record_in_range x resolved report_cache
        in if next_delayed_count \<le> start_delayed_count then
             (delayed_cache, report_cache1,
              finish (assemble_feed_messages_with_seed x resolved no_delayed_message start_delayed_count []))
           else case cover delayed_reader to_block start_delayed_count next_delayed_count window delayed_cache of
             (dc, Inl e) \<Rightarrow> (dc, report_cache1, Inl e)
           | (dc, Inr delayed) \<Rightarrow>
               (case seed_report_stats x seq_reader delayed in_range report_cache1 of
                  (rc, Inl e) \<Rightarrow> (dc, rc, Inl e)
                | (rc, Inr seed_stats) \<Rightarrow>
                    (dc, rc, finish (assemble_feed_messages_with_seed x resolved (delayed_map_message delayed)
                                       start_delayed_count seed_stats))))"

definition derive_from_resolved ::
  "externals \<Rightarrow> SequencerInboxReader \<Rightarrow> DelayedInboxReader \<Rightarrow> (DeliveredBatch \<times> bytes) list \<Rightarrow> u64 \<Rightarrow> u64 \<Rightarrow> u64
   \<Rightarrow> L1Error + DerivedRange" where
  "derive_from_resolved x seq_reader delayed_reader resolved to_block start_delayed_count window =
     snd (snd (derive_from_resolved_cached x seq_reader delayed_reader resolved to_block start_delayed_count
       window DelayedCache_new []))"

definition derive_range ::
  "externals \<Rightarrow> SequencerInboxReader \<Rightarrow> DelayedInboxReader \<Rightarrow> BeaconClient option \<Rightarrow> u64 \<Rightarrow> u64 \<Rightarrow> u64 \<Rightarrow> u64
   \<Rightarrow> L1Error + DerivedRange" where
  "derive_range x seq_reader delayed_reader beacon from_block to_block start_delayed_count window =
     rbind (resolve_batches (x_rlp x) seq_reader beacon from_block to_block)
       (\<lambda>resolved. derive_from_resolved x seq_reader delayed_reader resolved to_block start_delayed_count window)"

section \<open>What the delayed inbox holds\<close>

text \<open>
  The endpoint reports, for any block range, exactly the messages delivered in its blocks, and
  delivered messages have distinct indices.
\<close>

definition in_blocks :: "(u64 \<Rightarrow> DelayedMessage set) \<Rightarrow> u64 \<Rightarrow> u64 \<Rightarrow> DelayedMessage set" where
  "in_blocks delivered lo hi = {m. \<exists>b. lo \<le> b \<and> b \<le> hi \<and> m \<in> delivered b}"

definition delivered_by :: "DelayedInboxReader \<Rightarrow> (u64 \<Rightarrow> DelayedMessage set) \<Rightarrow> bool" where
  "delivered_by r delivered \<longleftrightarrow>
     (\<forall>lo hi ms. fetch_delayed r lo hi = Inr ms \<longrightarrow> set ms = in_blocks delivered lo hi)
     \<and> inj_on dm_inbox_seq_num (in_blocks delivered 0 u64_max)"

definition healthy :: "DelayedInboxReader \<Rightarrow> bool" where
  "healthy r \<longleftrightarrow> (\<forall>lo hi. \<exists>ms. fetch_delayed r lo hi = Inr ms)"

text \<open>A map that holds messages of \<open>D\<close> only, and all of those at or above \<open>floor\<close>.\<close>

definition holds :: "DelayedMap \<Rightarrow> DelayedMessage set \<Rightarrow> u64 \<Rightarrow> bool" where
  "holds msgs D floor \<longleftrightarrow> bt_wf msgs
     \<and> (\<forall>i m. bt_get i msgs = Some m \<longrightarrow> m \<in> D \<and> dm_inbox_seq_num m = i)
     \<and> (\<forall>m \<in> D. floor \<le> dm_inbox_seq_num m \<longrightarrow> bt_get (dm_inbox_seq_num m) msgs = Some m)"

definition cache_inv :: "(u64 \<Rightarrow> DelayedMessage set) \<Rightarrow> u64 \<Rightarrow> DelayedCache \<Rightarrow> bool" where
  "cache_inv delivered floor c =
     (case (dc_scanned_lo c, dc_scanned_hi c) of
        (None, None) \<Rightarrow> holds (dc_msgs c) {} floor
      | (Some lo, Some hi) \<Rightarrow> lo \<le> hi \<and> holds (dc_msgs c) (in_blocks delivered lo hi) floor
      | _ \<Rightarrow> False)"

lemma in_blocks_subset: "in_blocks delivered lo hi \<subseteq> in_blocks delivered 0 u64_max"
  by (auto simp: in_blocks_def)

lemma in_blocks_split:
  assumes "lo \<le> mid" "mid < hi"
  shows "in_blocks delivered lo mid \<union> in_blocks delivered (mid + 1) hi = in_blocks delivered lo hi"
proof -
  have "lo \<le> b \<and> b \<le> hi \<longleftrightarrow> lo \<le> b \<and> b \<le> mid \<or> mid + 1 \<le> b \<and> b \<le> hi" for b
    using assms unat_Suc_less [OF assms(2)] by (auto simp: word_le_nat_alt word_less_nat_alt)
  then show ?thesis by (auto simp: in_blocks_def)
qed

lemma bt_get_insert_all:
  assumes "bt_wf acc" "inj_on dm_inbox_seq_num (set ms)"
  shows "bt_get i (insert_all ms acc) = Some m \<longleftrightarrow>
    m \<in> set ms \<and> dm_inbox_seq_num m = i \<or> i \<notin> dm_inbox_seq_num ` set ms \<and> bt_get i acc = Some m"
proof -
  let ?kvs = "map (\<lambda>m. (dm_inbox_seq_num m, m)) ms"
  have get: "bt_get i (insert_all ms acc) = (case map_of (rev ?kvs) i of Some v \<Rightarrow> Some v | None \<Rightarrow> bt_get i acc)"
    using assms(1) by (simp add: insert_all_def bt_get_extend)
  show ?thesis
  proof (cases "map_of (rev ?kvs) i")
    case None
    then have "i \<notin> dm_inbox_seq_num ` set ms" by (auto simp: map_of_eq_None_iff image_image)
    with None get show ?thesis by auto
  next
    case (Some m')
    from map_of_keyed [OF Some] have m': "m' \<in> set ms" "dm_inbox_seq_num m' = i" by simp_all
    have "x = m'" if "x \<in> set ms" "dm_inbox_seq_num x = i" for x
      using inj_onD [OF assms(2) _ that(1) m'(1)] that(2) m'(2) by simp
    then have "m' = m \<longleftrightarrow> m \<in> set ms \<and> dm_inbox_seq_num m = i" using m' by metis
    moreover have "i \<in> dm_inbox_seq_num ` set ms" using m' by blast
    ultimately show ?thesis by (simp add: get Some)
  qed
qed

lemma holds_insert_all:
  assumes "holds msgs D floor" "inj_on dm_inbox_seq_num (D \<union> set ms)"
  shows "holds (insert_all ms msgs) (D \<union> set ms) floor"
proof -
  have wf: "bt_wf msgs" using assms(1) by (simp add: holds_def)
  have inj: "inj_on dm_inbox_seq_num (set ms)" using assms(2) by (auto intro: inj_on_subset)
  have "bt_get (dm_inbox_seq_num m) (insert_all ms msgs) = Some m"
    if m: "m \<in> D" "floor \<le> dm_inbox_seq_num m" for m
  proof (cases "dm_inbox_seq_num m \<in> dm_inbox_seq_num ` set ms")
    case True
    then obtain m' where m': "m' \<in> set ms" "dm_inbox_seq_num m' = dm_inbox_seq_num m" by auto
    with m(1) have "m' = m" by (intro inj_onD [OF assms(2) m'(2)]) auto
    with m' have "m \<in> set ms" by simp
    then show ?thesis by (simp add: bt_get_insert_all [OF wf inj])
  next
    case False
    with m assms(1) show ?thesis by (simp add: bt_get_insert_all [OF wf inj] holds_def)
  qed
  moreover have "bt_wf (insert_all ms msgs)" using wf by (simp add: insert_all_def bt_wf_extend)
  ultimately show ?thesis
    using assms(1) by (simp add: holds_def bt_get_insert_all [OF wf inj]) blast
qed

section \<open>Scans\<close>

lemma delivered_by_fetch:
  "delivered_by r delivered \<Longrightarrow> fetch_delayed r lo hi = Inr ms \<Longrightarrow> set ms = in_blocks delivered lo hi"
  by (simp add: delivered_by_def)

lemma delivered_by_inj:
  "delivered_by r delivered \<Longrightarrow> D \<subseteq> in_blocks delivered 0 u64_max \<Longrightarrow> inj_on dm_inbox_seq_num D"
  by (auto simp: delivered_by_def intro: inj_on_subset)

lemma holds_fetch:
  assumes "delivered_by r delivered" "D \<subseteq> in_blocks delivered 0 u64_max" "holds msgs D floor"
    and "fetch_delayed r lo hi = Inr ms"
  shows "holds (insert_all ms msgs) (D \<union> in_blocks delivered lo hi) floor"
  using holds_insert_all [OF assms(3), of ms] delivered_by_fetch [OF assms(1,4)]
    delivered_by_inj [OF assms(1)] assms(2) in_blocks_subset by simp

lemma scan_loop_holds:
  assumes "delivered_by r delivered"
  shows "D \<subseteq> in_blocks delivered 0 u64_max \<Longrightarrow> holds msgs D floor \<Longrightarrow> lo \<le> hi \<Longrightarrow>
    scan_loop r lo hi window msgs = (msgs', Inr u) \<Longrightarrow> holds msgs' (D \<union> in_blocks delivered lo hi) floor"
  using assms
proof (induction r lo hi window msgs arbitrary: D rule: scan_loop.induct)
  case (1 r lo hi window msgs)
  define mid where "mid = max (sat_sub hi (window - 1)) lo"
  obtain ms where ms: "fetch_delayed r mid hi = Inr ms"
    using "1.prems"(4) by (subst (asm) scan_loop.simps) (auto simp: Let_def mid_def split: sum.splits)
  note step = holds_fetch [OF "1.prems"(5,1,2) ms]
  show ?case
  proof (cases "mid = lo")
    case True
    with "1.prems"(4) ms step show ?thesis
      by (subst (asm) scan_loop.simps) (auto simp: Let_def mid_def [symmetric])
  next
    case False
    have lt: "lo < mid" "mid \<le> hi" "mid \<noteq> 0"
      using False "1.prems"(3) sat_sub_le [of hi "window - 1"] by (auto simp: mid_def max_def split: if_splits)
    have pred: "lo \<le> mid - 1" "mid - 1 < hi" "mid - 1 + 1 = mid"
      using lt by (simp_all add: word_le_nat_alt word_less_nat_alt unat_minus_one)
    have rest: "scan_loop r lo (mid - 1) window (insert_all ms msgs) = (msgs', Inr u)"
      using "1.prems"(4) ms False by (subst (asm) scan_loop.simps) (simp add: Let_def mid_def [symmetric])
    have "holds msgs' ((D \<union> in_blocks delivered mid hi) \<union> in_blocks delivered lo (mid - 1)) floor"
      using "1.prems"(1,5) step in_blocks_subset pred(1) rest
      by (intro "1.IH" [OF mid_def ms refl False]) auto
    moreover have "in_blocks delivered lo (mid - 1) \<union> in_blocks delivered mid hi = in_blocks delivered lo hi"
      using in_blocks_split [OF pred(1,2)] by (simp add: pred(3))
    ultimately show ?thesis by (simp add: Un_assoc Un_commute [of "in_blocks delivered mid hi"])
  qed
qed

lemma scan_range_holds:
  assumes "delivered_by r delivered" "D \<subseteq> in_blocks delivered 0 u64_max" "holds (dc_msgs c) D floor"
    and "lo \<le> hi" "scan_range r lo hi window c = (c', Inr u)"
  shows "holds (dc_msgs c') (D \<union> in_blocks delivered lo hi) floor"
  using assms scan_loop_holds [OF assms(1-4), of "max window 1"]
  by (auto simp: scan_range_def split: prod.splits sum.splits)

lemma cache_inv_first:
  assumes "delivered_by r delivered" "cache_inv delivered floor c" "dc_scanned_hi c = None" "lo \<le> hi"
    and "scan_range r lo hi window c = (c', Inr u)"
  shows "cache_inv delivered floor c' \<and> dc_scanned_hi c' = Some hi"
proof -
  have c: "dc_scanned_lo c = None" "holds (dc_msgs c) {} floor"
    using assms(2,3) by (auto simp: cache_inv_def split: option.splits)
  show ?thesis
    using scan_range_holds [OF assms(1) _ c(2) assms(4,5)] scan_range_scanned [OF assms(5)] assms(3,4) c(1)
    by (simp add: cache_inv_def)
qed

lemma cache_inv_forward:
  assumes "delivered_by r delivered" "cache_inv delivered floor c" "dc_scanned_hi c = Some h" "h < hi"
    and "scan_range r (h + 1) hi window c = (c', Inr u)"
  shows "cache_inv delivered floor c' \<and> dc_scanned_hi c' = Some hi"
proof -
  obtain l where l: "dc_scanned_lo c = Some l" "l \<le> h" "holds (dc_msgs c) (in_blocks delivered l h) floor"
    using assms(2,3) by (auto simp: cache_inv_def split: option.splits)
  have "min l (h + 1) = l" "max h hi = hi"
    using le_Suc_of_less [OF assms(4) l(2)] assms(4) by (auto simp: min_def max_def)
  then show ?thesis
    using scan_range_holds [OF assms(1) in_blocks_subset l(3) less_imp_Suc_le [OF assms(4)] assms(5)]
      scan_range_scanned [OF assms(5)] assms(3,4) l in_blocks_split [OF l(2) assms(4)]
    by (simp add: cache_inv_def)
qed

lemma cache_inv_backward:
  assumes "delivered_by r delivered" "cache_inv delivered floor c" "dc_scanned_lo c = Some l" "l \<noteq> 0"
    and "lo \<le> l - 1" "scan_range r lo (l - 1) window c = (c', Inr u)"
  shows "cache_inv delivered floor c' \<and> dc_scanned_hi c' = dc_scanned_hi c"
proof -
  obtain h where h: "dc_scanned_hi c = Some h" "l \<le> h" "holds (dc_msgs c) (in_blocks delivered l h) floor"
    using assms(2,3) by (auto simp: cache_inv_def split: option.splits)
  have pred: "l - 1 < l" "l - 1 + 1 = l" using unat_pred_less [of l l] assms(4) by (simp_all add: word_less_nat_alt)
  have "min l lo = lo" "max h (l - 1) = h" using pred(1) assms(5) h(2) by (auto simp: min_def max_def)
  moreover have "in_blocks delivered l h \<union> in_blocks delivered lo (l - 1) = in_blocks delivered lo h"
    using in_blocks_split [OF assms(5), of h delivered] pred h(2) by (simp add: Un_commute)
  ultimately show ?thesis
    using scan_range_holds [OF assms(1) in_blocks_subset h(3) assms(5,6)] scan_range_scanned [OF assms(6)]
      assms(3,5) h pred by (simp add: cache_inv_def)
qed

lemma sat_sub_le_pred: "sat_sub (l - 1) w \<le> l - (1 :: u64)"
  by (rule sat_sub_le)

lemma backfill_inv:
  assumes "delivered_by r delivered"
  shows "cache_inv delivered floor c \<Longrightarrow> backfill r need_from need_to window c = (c', Inr u) \<Longrightarrow>
    cache_inv delivered floor c' \<and> covers c' need_from need_to"
  using assms
proof (induction r need_from need_to window c rule: backfill.induct)
  case (1 r need_from need_to window c)
  show ?case
  proof (cases "covers c need_from need_to")
    case True
    with "1.prems" show ?thesis by (subst (asm) backfill.simps) simp
  next
    case False
    with "1.prems"(2) obtain l c1 where l: "dc_scanned_lo c = Some l" "l \<noteq> 0"
      and scan: "scan_range r (sat_sub (l - 1) (window - 1)) (l - 1) window c = (c1, Inr ())"
      and rest: "backfill r need_from need_to window c1 = (c', Inr u)"
      by (subst (asm) backfill.simps) (auto simp: Let_def split: option.splits if_splits prod.splits sum.splits)
    from cache_inv_backward [OF "1.prems"(3,1) l sat_sub_le_pred scan]
    show ?thesis
      using "1.IH" [OF False l(1,2) refl refl scan [symmetric] refl] rest "1.prems"(3) by blast
  qed
qed

section \<open>Covering a window\<close>

lemma has_all_iff: "has_all need_from need_to acc \<longleftrightarrow> (\<forall>i. need_from \<le> i \<and> i < need_to \<longrightarrow> bt_get i acc \<noteq> None)"
  by (auto simp: has_all_def list_all_iff bt_contains_def)

lemma cache_inv_holds:
  "cache_inv delivered floor c \<Longrightarrow> \<exists>D \<subseteq> in_blocks delivered 0 u64_max. holds (dc_msgs c) D floor"
  by (cases "dc_scanned_lo c"; cases "dc_scanned_hi c"; simp add: cache_inv_def)
     (use in_blocks_subset in blast)+

lemma holds_mono: "holds msgs D floor \<Longrightarrow> floor \<le> floor' \<Longrightarrow> holds msgs D floor'"
  by (auto simp: holds_def)

lemma cache_inv_mono: "cache_inv delivered floor c \<Longrightarrow> floor \<le> floor' \<Longrightarrow> cache_inv delivered floor' c"
  by (auto simp: cache_inv_def holds_mono split: option.splits)

lemma cache_inv_retain:
  assumes "cache_inv delivered floor c" "floor \<le> floor'"
  shows "cache_inv delivered floor' (c\<lparr>dc_msgs := bt_retain (\<lambda>i. floor' \<le> i) (dc_msgs c)\<rparr>)"
proof -
  have "holds (bt_retain (\<lambda>i. floor' \<le> i) msgs) D floor'" if "holds msgs D floor" for msgs D
    using that assms(2) by (auto simp: holds_def bt_wf_retain bt_get_retain)
  with assms(1) show ?thesis by (auto simp: cache_inv_def split: option.splits)
qed

text \<open>The lookup a window's multiplexer run needs: the delivered message of each index.\<close>

definition window_map :: "(u64 \<Rightarrow> DelayedMessage set) \<Rightarrow> u64 \<Rightarrow> u64 \<Rightarrow> DelayedMap \<Rightarrow> bool" where
  "window_map delivered need_from need_to dmap \<longleftrightarrow>
     (\<forall>i m. delayed_map_message dmap i = Some m \<longleftrightarrow>
        need_from \<le> i \<and> i < need_to \<and> m \<in> in_blocks delivered 0 u64_max \<and> dm_inbox_seq_num m = i)"

lemma take_needed_covered:
  assumes "delivered_by r delivered" "cache_inv delivered floor c" "covers c need_from need_to" "floor \<le> need_from"
  obtains c' dmap where "take_needed need_from need_to c = (c', Inr dmap)"
    "window_map delivered need_from need_to dmap" "cache_inv delivered need_from c'"
    "\<exists>ms. dmap = from_messages ms"
proof -
  let ?get = "\<lambda>i. the (bt_get i (dc_msgs c))"
  let ?ms = "map ?get (u64_range need_from need_to)"
  have get: "bt_get i (dc_msgs c) = Some (?get i)" if "need_from \<le> i" "i < need_to" for i
    using assms(3) that by (auto simp: covers_def has_all_iff)
  then have "ok_or (Panic ''covered above'') (bt_get i (dc_msgs c)) = Inr (?get i)"
    if "i \<in> set (u64_range need_from need_to)" for i
    using that by (metis ok_or_simps(2) set_u64_range atLeastLessThan_iff)
  then have "try_map (\<lambda>i. ok_or (Panic ''covered above'') (bt_get i (dc_msgs c))) (u64_range need_from need_to) = Inr ?ms"
    by (rule try_map_all)
  then have run: "take_needed need_from need_to c =
      (c\<lparr>dc_msgs := bt_retain (\<lambda>i. need_from \<le> i) (dc_msgs c)\<rparr>, Inr (from_messages ?ms))"
    by (simp add: take_needed_def)
  obtain D where D: "D \<subseteq> in_blocks delivered 0 u64_max" "holds (dc_msgs c) D floor"
    using cache_inv_holds [OF assms(2)] by blast
  have val: "?get i \<in> in_blocks delivered 0 u64_max" "dm_inbox_seq_num (?get i) = i"
    if "need_from \<le> i" "i < need_to" for i
    using get [OF that] D by (auto simp: holds_def)
  have inj: "inj_on dm_inbox_seq_num (set ?ms)"
    using val by (intro delivered_by_inj [OF assms(1)]) auto
  have "window_map delivered need_from need_to (from_messages ?ms)"
    unfolding window_map_def delayed_map_message_def
  proof (intro allI iffI)
    fix i m assume "bt_get i (from_messages ?ms) = Some m"
    from from_messages_Some [OF this] val
    show "need_from \<le> i \<and> i < need_to \<and> m \<in> in_blocks delivered 0 u64_max \<and> dm_inbox_seq_num m = i" by auto
  next
    fix i m assume m: "need_from \<le> i \<and> i < need_to \<and> m \<in> in_blocks delivered 0 u64_max \<and> dm_inbox_seq_num m = i"
    then have "?get i = m"
      using val [of i] inj_onD [OF delivered_by_inj [OF assms(1) order_refl], of "?get i" m] by simp
    with m have "m \<in> set ?ms" by auto
    from from_messages_unique [OF inj this] m show "bt_get i (from_messages ?ms) = Some m" by simp
  qed
  with that run cache_inv_retain [OF assms(2,4)] show thesis by blast
qed

lemma extend_forward_inv:
  assumes "delivered_by r delivered" "cache_inv delivered floor c" "extend_forward r to_block window c = (c', Inr u)"
  shows "cache_inv delivered floor c' \<and> (\<exists>h. dc_scanned_hi c' = Some h \<and> to_block \<le> h)"
proof (cases "dc_scanned_hi c")
  case None
  with assms(3) cache_inv_first [OF assms(1,2) None sat_sub_le] show ?thesis
    by (auto simp: extend_forward_def)
next
  case (Some h)
  with assms cache_inv_forward [OF assms(1,2) Some] show ?thesis
    by (cases "h < to_block") (auto simp: extend_forward_def)
qed

lemma cover_sound:
  assumes "delivered_by r delivered" "cache_inv delivered floor c" "floor \<le> need_from"
    and "cover r to_block need_from need_to window c = (c', Inr dmap)"
  shows "window_map delivered need_from need_to dmap \<and> cache_inv delivered need_from c'
    \<and> (\<exists>ms. dmap = from_messages ms)"
proof (cases "need_to \<le> need_from")
  case True
  with assms show ?thesis
    by (auto simp: cover_def window_map_def delayed_map_message_def cache_inv_mono from_messages_def bt_extend_def
        intro!: exI [of _ "[]"])
next
  case False
  have "\<exists>c2. cache_inv delivered floor c2 \<and> covers c2 need_from need_to
    \<and> take_needed need_from need_to c2 = (c', Inr dmap)"
  proof (cases "covers c need_from need_to")
    case True
    with assms False show ?thesis by (auto simp: cover_def Let_def)
  next
    case no: False
    with assms(4) False obtain c1 c2 where "extend_forward r to_block (max window 1) c = (c1, Inr ())"
      "backfill r need_from need_to (max window 1) c1 = (c2, Inr ())"
      "take_needed need_from need_to c2 = (c', Inr dmap)"
      by (auto simp: cover_def Let_def split: prod.splits sum.splits)
    with extend_forward_inv [OF assms(1,2)] backfill_inv [OF assms(1)] show ?thesis by blast
  qed
  then obtain c2 where c2: "cache_inv delivered floor c2" "covers c2 need_from need_to"
    "take_needed need_from need_to c2 = (c', Inr dmap)" by blast
  from take_needed_covered [OF assms(1) c2(1,2) assms(3)] c2(3) show ?thesis by (metis Pair_inject sum.inject(2))
qed

section \<open>A healthy endpoint\<close>

lemma scan_loop_healthy: "healthy r \<Longrightarrow> \<exists>msgs'. scan_loop r lo hi window msgs = (msgs', Inr ())"
proof (induction r lo hi window msgs rule: scan_loop.induct)
  case (1 r lo hi window msgs)
  obtain ms where ms: "fetch_delayed r (max (sat_sub hi (window - 1)) lo) hi = Inr ms"
    using "1.prems" by (auto simp: healthy_def)
  show ?case
    by (subst scan_loop.simps) (use "1.IH" [OF refl ms refl] "1.prems" in \<open>auto simp: Let_def ms\<close>)
qed

lemma scan_range_healthy: "healthy r \<Longrightarrow> \<exists>c'. scan_range r lo hi window c = (c', Inr ())"
  using scan_loop_healthy [of r lo hi "max window 1" "dc_msgs c"] by (auto simp: scan_range_def)

definition available_by :: "(u64 \<Rightarrow> DelayedMessage set) \<Rightarrow> u64 \<Rightarrow> u64 \<Rightarrow> u64 \<Rightarrow> bool" where
  "available_by delivered to_block need_from need_to \<longleftrightarrow>
     (\<forall>i. need_from \<le> i \<and> i < need_to \<longrightarrow> (\<exists>b m. b \<le> to_block \<and> m \<in> delivered b \<and> dm_inbox_seq_num m = i))"

lemma scanned_to_zero_covers:
  assumes "cache_inv delivered floor c" "dc_scanned_lo c = Some 0" "dc_scanned_hi c = Some h" "to_block \<le> h"
    and "floor \<le> need_from" "available_by delivered to_block need_from need_to"
  shows "covers c need_from need_to"
proof -
  have holds: "holds (dc_msgs c) (in_blocks delivered 0 h) floor" using assms(1-3) by (simp add: cache_inv_def)
  have "bt_get i (dc_msgs c) \<noteq> None" if i: "need_from \<le> i" "i < need_to" for i
  proof -
    obtain b m where b: "b \<le> to_block" "m \<in> delivered b" and m: "dm_inbox_seq_num m = i"
      using assms(6) i by (auto simp: available_by_def)
    from b assms(4) have "b \<le> h" by simp
    with b have "m \<in> in_blocks delivered 0 h" by (auto simp: in_blocks_def)
    moreover have "floor \<le> dm_inbox_seq_num m" using assms(5) i(1) m by simp
    ultimately have "bt_get (dm_inbox_seq_num m) (dc_msgs c) = Some m"
      using holds unfolding holds_def by blast
    with m show ?thesis by simp
  qed
  then show ?thesis unfolding covers_def has_all_iff by blast
qed

lemma backfill_healthy:
  assumes "delivered_by r delivered" "healthy r" "floor \<le> need_from" "available_by delivered to_block need_from need_to"
  shows "cache_inv delivered floor c \<Longrightarrow> dc_scanned_hi c = Some h \<Longrightarrow> to_block \<le> h \<Longrightarrow>
    \<exists>c'. backfill r need_from need_to window c = (c', Inr ())"
  using assms
proof (induction r need_from need_to window c rule: backfill.induct)
  case (1 r need_from need_to window c)
  show ?case
  proof (cases "covers c need_from need_to")
    case True
    then show ?thesis by (subst backfill.simps) simp
  next
    case False
    obtain l where l: "dc_scanned_lo c = Some l"
      using "1.prems"(1,2) by (auto simp: cache_inv_def split: option.splits)
    have "l \<noteq> 0" using scanned_to_zero_covers [OF "1.prems"(1) _ "1.prems"(2,3,6,7)] False l by auto
    obtain c1 where scan: "scan_range r (sat_sub (l - 1) (window - 1)) (l - 1) window c = (c1, Inr ())"
      using scan_range_healthy [OF "1.prems"(5)] by blast
    from cache_inv_backward [OF "1.prems"(4,1) l \<open>l \<noteq> 0\<close> sat_sub_le_pred scan] "1.prems"(2)
    have c1: "cache_inv delivered floor c1" "dc_scanned_hi c1 = Some h" by simp_all
    from "1.IH" [OF False l \<open>l \<noteq> 0\<close> refl refl scan [symmetric] refl c1 "1.prems"(3-7)]
    show ?thesis using False l \<open>l \<noteq> 0\<close> scan by (subst backfill.simps) (auto simp: Let_def)
  qed
qed

lemma extend_forward_healthy: "healthy r \<Longrightarrow> \<exists>c'. extend_forward r to_block window c = (c', Inr ())"
  using scan_range_healthy by (auto simp: extend_forward_def split: option.splits)

lemma cover_returns:
  assumes "delivered_by r delivered" "healthy r" "cache_inv delivered floor c" "floor \<le> need_from"
    and "available_by delivered to_block need_from need_to"
  shows "\<exists>c' dmap. cover r to_block need_from need_to window c = (c', Inr dmap)"
proof (cases "need_to \<le> need_from \<or> covers c need_from need_to")
  case True
  with take_needed_covered [OF assms(1,3) _ assms(4), of need_to] show ?thesis
    by (auto simp: cover_def Let_def) metis
next
  case False
  obtain c1 where c1: "extend_forward r to_block (max window 1) c = (c1, Inr ())"
    using extend_forward_healthy [OF assms(2)] by blast
  from extend_forward_inv [OF assms(1,3) c1] obtain h
    where inv1: "cache_inv delivered floor c1" and h: "dc_scanned_hi c1 = Some h" "to_block \<le> h" by blast
  obtain c2 where c2: "backfill r need_from need_to (max window 1) c1 = (c2, Inr ())"
    using backfill_healthy [OF assms(1,2,4,5) inv1 h] by blast
  from take_needed_covered [OF assms(1) _ _ assms(4)] backfill_inv [OF assms(1) inv1 c2]
  obtain c' dmap where "take_needed need_from need_to c2 = (c', Inr dmap)" by metis
  with c1 c2 False show ?thesis by (auto simp: cover_def Let_def)
qed

text \<open>C3: when the messages a window needs were all delivered by its last block and the endpoint
  answers, covering the window returns, from whatever an earlier run left in the cache, exactly
  the delivered message of each needed index, and leaves the cache consistent for the next one.\<close>

theorem cover_correct:
  assumes "delivered_by r delivered" and "healthy r" and "cache_inv delivered floor c" and "floor \<le> need_from"
    and "available_by delivered to_block need_from need_to"
  shows "\<exists>c' dmap. cover r to_block need_from need_to window c = (c', Inr dmap)
    \<and> window_map delivered need_from need_to dmap \<and> cache_inv delivered need_from c'"
proof -
  obtain c' dmap where run: "cover r to_block need_from need_to window c = (c', Inr dmap)"
    using cover_returns [OF assms] by blast
  from cover_sound [OF assms(1,3,4) run] run show ?thesis by blast
qed

definition wit_inbox :: "u64 \<Rightarrow> DelayedMessage set" where
  "wit_inbox b = (if b = 15 then set wit_fetched else {})"

lemma wit_in_blocks: "in_blocks wit_inbox lo hi = (if lo \<le> 15 \<and> 15 \<le> hi then set wit_fetched else {})"
  by (auto simp: in_blocks_def wit_inbox_def split: if_splits)

lemma wit_delivered_by: "delivered_by wit_delayed_reader wit_inbox"
proof -
  have "distinct (map dm_inbox_seq_num wit_fetched)" by (simp add: wit_fetched_indices)
  then have "inj_on dm_inbox_seq_num (set wit_fetched)" by (simp add: distinct_map)
  then show ?thesis by (auto simp: delivered_by_def wit_fetch_delayed wit_in_blocks)
qed

lemma wit_healthy: "healthy wit_delayed_reader"
  by (simp add: healthy_def wit_fetch_delayed)

lemma wit_cache_inv: "cache_inv wit_inbox 7 DelayedCache_new"
  by (simp add: cache_inv_def DelayedCache_new_def holds_def)

lemma wit_available: "available_by wit_inbox 20 7 9"
proof -
  have "dm_inbox_seq_num ` set wit_fetched = {7, 8}"
    using arg_cong [OF wit_fetched_indices, of set] by simp
  moreover have "i = 7 \<or> i = 8" if "7 \<le> i" "i < 9" for i :: u64
  proof -
    from that have "i \<in> set (u64_range 7 9)" by simp
    then show ?thesis by (simp add: u64_range_rec del: set_u64_range)
  qed
  ultimately have "i \<in> dm_inbox_seq_num ` set wit_fetched" if "7 \<le> i" "i < 9" for i
    using that by auto
  then have "\<exists>m \<in> set wit_fetched. dm_inbox_seq_num m = i" if "7 \<le> i" "i < 9" for i
    using that by (auto simp: image_iff)
  moreover have "(15 :: u64) \<le> 20" "wit_inbox 15 = set wit_fetched" by (simp_all add: wit_inbox_def)
  ultimately show ?thesis unfolding available_by_def by blast
qed

theorem cover_correct_witness:
  "\<exists>c' dmap. cover wit_delayed_reader 20 7 9 3 DelayedCache_new = (c', Inr dmap)
    \<and> window_map wit_inbox 7 9 dmap \<and> cache_inv wit_inbox 7 c'"
  by (rule cover_correct [OF wit_delivered_by wit_healthy wit_cache_inv order_refl wit_available])

section \<open>A derived range\<close>

lemma final_cursor_last:
  "resolved \<noteq> [] \<Longrightarrow> final_cursor start resolved = sb_after_delayed_messages_read (db_event (fst (last resolved)))"
  by (induction start resolved rule: final_cursor.induct) auto

lemma derive_cases:
  assumes "derive_from_resolved_cached x seq_reader r resolved to_block start window dc rc = (dc', rc', Inr rng)"
  obtains (empty) "resolved = []" "dc' = dc" "rc' = rc" "dr_messages rng = []" "dr_next_delayed_count rng = start"
  | (no_delayed) "resolved \<noteq> []" "final_cursor start resolved \<le> start" "dc' = dc"
      "rc' = record_in_range x resolved rc" "dr_next_delayed_count rng = final_cursor start resolved"
      "assemble_feed_messages_with_seed x resolved no_delayed_message start [] = Inr (dr_messages rng)"
  | (covered) dmap seed where "resolved \<noteq> []" "start < final_cursor start resolved"
      "cover r to_block start (final_cursor start resolved) window dc = (dc', Inr dmap)"
      "seed_report_stats x seq_reader dmap (map (\<lambda>(b, _). batch_data_hash x b) resolved)
         (record_in_range x resolved rc) = (rc', Inr seed)"
      "dr_next_delayed_count rng = final_cursor start resolved"
      "assemble_feed_messages_with_seed x resolved (delayed_map_message dmap) start seed = Inr (dr_messages rng)"
proof (cases "resolved = []")
  case True
  with assms empty show thesis by (auto simp: derive_from_resolved_cached_def)
next
  case False
  note fc = final_cursor_last [OF False, of start, symmetric]
  show thesis
  proof (cases "final_cursor start resolved \<le> start")
    case True
    with assms False no_delayed show thesis
      by (auto simp: derive_from_resolved_cached_def Let_def fc result_simps)
  next
    case le: False
    with assms False covered show thesis
      by (auto simp: derive_from_resolved_cached_def Let_def fc result_simps not_le
          split: prod.splits sum.splits)
  qed
qed

lemma seed_loop_no_reports:
  "\<forall>m \<in> set ms. dm_kind m \<noteq> KIND_BATCH_POSTING_REPORT \<Longrightarrow>
   seed_loop x seq_reader in_range ms seed cache = (cache, Inr seed)"
  by (induction ms) auto

lemma feed_loop_no_reports:
  "\<forall>m \<in> set ms. h_kind (d_header m) \<noteq> KIND_BATCH_POSTING_REPORT \<Longrightarrow> \<exists>fs. feed_loop x ms seq stats = Inr fs \<and> length fs = length ms"
proof (induction ms arbitrary: seq)
  case (Cons m ms)
  then obtain fs where "feed_loop x ms (seq + 1) stats = Inr fs" "length fs = length ms" by fastforce
  with Cons.prems show ?case by (simp add: derived_to_feed_def)
qed simp

lemma wit_fetched_kinds: "m \<in> set wit_fetched \<Longrightarrow> dm_kind m = 9"
  by (auto simp: wit_eval wit_fetched_def nth_append)

lemma wit_derive:
  obtains dc' rc' rng where
    "derive_from_resolved_cached wit_ext seq_reader wit_delayed_reader [(wit_no_data, [])] 20 7 3 DelayedCache_new []
       = (dc', rc', Inr rng)" "length (dr_messages rng) = 2"
proof -
  obtain c' dmap where cov: "cover wit_delayed_reader 20 7 9 3 DelayedCache_new = (c', Inr dmap)"
    using cover_returns [OF wit_delivered_by wit_healthy wit_cache_inv order_refl wit_available] by blast
  from cover_sound [OF wit_delivered_by wit_cache_inv order_refl cov] obtain ms
    where map: "window_map wit_inbox 7 9 dmap" and ms: "dmap = from_messages ms" by blast
  have val: "m \<in> set wit_fetched" if "bt_get i dmap = Some m" for i m
    using map that by (auto simp: window_map_def delayed_map_message_def wit_in_blocks)
  have "m \<in> set wit_fetched" if "m \<in> set (bt_values dmap)" for m
    using that val bt_get_in_set [of dmap] by (auto simp: bt_values_def ms)
  then have seed: "seed_report_stats wit_ext seq_reader dmap hs rc = (rc, Inr [])" for hs rc
    unfolding seed_report_stats_def
    by (intro seed_loop_no_reports) (auto simp: wit_fetched_kinds KIND_BATCH_POSTING_REPORT_def)
  have tail: "tail_available (delayed_map_message dmap) 7 9"
    using wit_available map in_blocks_subset
    by (fastforce simp: tail_available_def available_by_def window_map_def in_blocks_def)
  then have dec: "decode_payload_messages wit_ext (batch_header wit_event) [] 7 (delayed_map_message dmap) =
      Inr (map (delayed_out (delayed_map_message dmap)) (u64_range 7 9))"
    by (simp add: decode_payload_messages_def extract_no_segments batch_header_def wit_event_def)
  have "h_kind (d_header (delayed_out (delayed_map_message dmap) i)) = 9" if "i \<in> set (u64_range 7 9)" for i
    using that tail val wit_fetched_kinds
    by (fastforce simp: tail_available_def delayed_out_def to_derived_def delayed_map_message_def)
  then have "\<exists>fs. feed_loop wit_ext (map (delayed_out (delayed_map_message dmap)) (u64_range 7 9)) 0 st = Inr fs
      \<and> length fs = length (map (delayed_out (delayed_map_message dmap)) (u64_range 7 9))" for st
    by (intro feed_loop_no_reports) (auto simp: KIND_BATCH_POSTING_REPORT_def)
  then obtain out where "feed_loop wit_ext (map (delayed_out (delayed_map_message dmap)) (u64_range 7 9)) 0
      (stats_after wit_ext wit_no_data []) = Inr out" "length out = 2" by auto
  then have "assemble_feed_messages_with_seed wit_ext [(wit_no_data, [])] (delayed_map_message dmap) 7 [] = Inr out"
    by (simp add: assemble_feed_messages_with_seed_def batch_to_feed_messages_def Let_def wit_facts dec stats_after_def)
  moreover have "sb_after_delayed_messages_read wit_event = 9" by (simp add: wit_event_def)
  ultimately show thesis
    using that cov seed \<open>length out = 2\<close> by (simp add: derive_from_resolved_cached_def Let_def wit_facts)
qed

text \<open>C4: a derived range of batches with non-falling delayed counts ends at the last batch's count
  and carries every delayed message from its starting cursor up to there, once, in order; the
  delayed cache stays consistent for the range that starts at the old cursor or later.\<close>

theorem derived_range_delayed:
  assumes "delivered_by r delivered" and "cache_inv delivered floor dc" and "floor \<le> start"
    and "cursors_ascend start resolved"
    and "derive_from_resolved_cached x seq_reader r resolved to_block start window dc rc = (dc', rc', Inr rng)"
  shows "dr_next_delayed_count rng = final_cursor start resolved
    \<and> map feed_key (filter feed_delayed (dr_messages rng)) =
        map (delayed_key x) (u64_range start (dr_next_delayed_count rng))
    \<and> cache_inv delivered start dc'"
  using assms(5)
proof (cases rule: derive_cases)
  case empty
  with cache_inv_mono [OF assms(2,3)] show ?thesis by simp
next
  case no_delayed
  from no_delayed.assemble_loop_delayed [OF _ assms(4), of x 0 "[]" "[]" "dr_messages rng"] no_delayed(2,5,6)
    cache_inv_mono [OF assms(2,3)] no_delayed(3)
  show ?thesis by (simp add: assemble_feed_messages_with_seed_def)
next
  case (covered dmap seed)
  from cover_sound [OF assms(1-3) covered(3)] obtain ms where
    ms: "dmap = from_messages ms" and inv: "cache_inv delivered start dc'" by blast
  from delayed_map.assemble_loop_delayed [OF _ assms(4), of x ms 0 seed "[]" "dr_messages rng"] covered(5,6) inv
  show ?thesis by (simp add: assemble_feed_messages_with_seed_def ms)
qed

theorem derived_range_delayed_witness:
  "\<exists>dc' rc' rng. derive_from_resolved_cached wit_ext wit_reader wit_delayed_reader [(wit_no_data, [])] 20 7 3
      DelayedCache_new [] = (dc', rc', Inr rng)
    \<and> map feed_key (filter feed_delayed (dr_messages rng)) = map (delayed_key wit_ext) [7, 8]"
proof -
  obtain dc' rc' rng where run: "derive_from_resolved_cached wit_ext wit_reader wit_delayed_reader
      [(wit_no_data, [])] 20 7 3 DelayedCache_new [] = (dc', rc', Inr rng)"
    by (rule wit_derive) (rule that)
  have "cursors_ascend 7 [(wit_no_data, [])]" by (simp add: wit_facts wit_event_def)
  from derived_range_delayed [OF wit_delivered_by wit_cache_inv order_refl this run] run show ?thesis
    by (simp add: wit_facts wit_event_def u64_range_rec)
qed

section \<open>Report statistics\<close>

definition stats_verified :: "externals \<Rightarrow> report_stats \<Rightarrow> bool" where
  "stats_verified x stats \<longleftrightarrow>
     (\<forall>dh s. bt_get dh stats = Some s \<longrightarrow>
        (\<exists>batch. batch_data_hash x batch = dh \<and> s = batch_data_stats (serialize_batch batch)))"

lemma stats_verified_insert:
  "stats_verified x stats \<Longrightarrow> batch_data_hash x batch = dh \<Longrightarrow> s = batch_data_stats (serialize_batch batch) \<Longrightarrow>
   stats_verified x (bt_insert dh s stats)"
  by (auto simp: stats_verified_def bt_get_insert)

lemma stats_verified_entry:
  "stats_verified x cache \<Longrightarrow> bt_get dh cache = Some s \<Longrightarrow> stats_verified x seed \<Longrightarrow>
   stats_verified x (bt_insert dh s seed)"
  by (auto simp: stats_verified_def bt_get_insert)

lemma find_reported_verified:
  "find_reported x seq_reader n dh logs = Inr s \<Longrightarrow>
   \<exists>batch. batch_data_hash x batch = dh \<and> s = batch_data_stats (serialize_batch batch)"
  by (induction logs) (auto simp: result_simps split: if_splits)

lemma stats_verified_reported:
  "stats_for_reported_batch x seq_reader b n dh = Inr s \<Longrightarrow> stats_verified x stats \<Longrightarrow>
   stats_verified x (bt_insert dh s stats)"
  by (auto simp: stats_for_reported_batch_def result_simps dest!: find_reported_verified
      intro: stats_verified_insert)

lemma record_in_range_verified: "stats_verified x cache \<Longrightarrow> stats_verified x (record_in_range x resolved cache)"
  by (induction x resolved cache rule: record_in_range.induct) (auto simp: Let_def stats_verified_insert)

lemma seed_loop_verified:
  "seed_loop x seq_reader in_range ms seed cache = (cache', Inr seed') \<Longrightarrow>
   stats_verified x seed \<Longrightarrow> stats_verified x cache \<Longrightarrow> stats_verified x seed' \<and> stats_verified x cache'"
proof (induction ms arbitrary: seed cache)
  case (Cons m ms)
  show ?case
  proof (cases "dm_kind m = KIND_BATCH_POSTING_REPORT")
    case True
    with Cons.prems(1) obtain dh where "report_data_hash (dm_data m) = Some dh"
      by (auto split: option.splits)
    with True Cons show ?thesis
      by (auto split: if_splits option.splits sum.splits)
         (meson stats_verified_reported stats_verified_entry)+
  qed (use Cons in simp)
qed simp

definition report_verified :: "externals \<Rightarrow> BroadcastFeedMessage \<Rightarrow> bool" where
  "report_verified x f \<longleftrightarrow>
     (\<exists>m. if h_kind (d_header m) = KIND_BATCH_POSTING_REPORT
          then \<exists>batch. report_data_hash (d_l2_msg m) = Some (batch_data_hash x batch)
                 \<and> f = derived_to_feed_message_with_stats x m (bf_sequence_number f)
                         (Some (batch_data_stats (serialize_batch batch)))
          else f = derived_to_feed_message x m (bf_sequence_number f))"

lemma stats_from_verified:
  "stats_from x seed resolved dh s \<Longrightarrow> stats_verified x seed \<Longrightarrow>
   \<exists>batch. batch_data_hash x batch = dh \<and> s = batch_data_stats (serialize_batch batch)"
  by (auto simp: stats_from_def stats_verified_def)

lemma report_priced_verified: "report_priced x seed resolved f \<Longrightarrow> stats_verified x seed \<Longrightarrow> report_verified x f"
  using stats_from_verified [of x seed resolved]
  by (auto simp: report_priced_def report_verified_def split: if_splits) (metis option.inject)+

text \<open>C5: across ranges that share the statistics cache, every posting report of a derived range is
  priced with the statistics of a batch whose serialized bytes hash to the report's data hash, and
  the cache only ever holds such statistics.\<close>

theorem derived_range_reports:
  assumes "stats_verified x rc"
    and "derive_from_resolved_cached x seq_reader r resolved to_block start window dc rc = (dc', rc', Inr rng)"
  shows "stats_verified x rc' \<and> (\<forall>f \<in> set (dr_messages rng). report_verified x f)"
  using assms(2)
proof (cases rule: derive_cases)
  case empty
  with assms(1) show ?thesis by simp
next
  case no_delayed
  have "stats_verified x []" by (simp add: stats_verified_def)
  with no_delayed show ?thesis
    using assemble_priced report_priced_verified record_in_range_verified [OF assms(1)] by blast
next
  case (covered dmap seed)
  have "stats_verified x []" by (simp add: stats_verified_def)
  from seed_loop_verified [OF covered(4) [unfolded seed_report_stats_def] this record_in_range_verified [OF assms(1)]]
  show ?thesis using assemble_priced [OF covered(6)] report_priced_verified by blast
qed

theorem derived_range_reports_witness:
  "\<exists>dc' rc' rng. derive_from_resolved_cached wit_ext wit_reader wit_delayed_reader [(wit_no_data, [])] 20 7 3
      DelayedCache_new [] = (dc', rc', Inr rng)
    \<and> stats_verified wit_ext rc' \<and> (\<forall>f \<in> set (dr_messages rng). report_verified wit_ext f)"
proof -
  obtain dc' rc' rng where run: "derive_from_resolved_cached wit_ext wit_reader wit_delayed_reader
      [(wit_no_data, [])] 20 7 3 DelayedCache_new [] = (dc', rc', Inr rng)"
    by (rule wit_derive) (rule that)
  have "stats_verified wit_ext []" by (simp add: stats_verified_def)
  from derived_range_reports [OF this run] run show ?thesis by blast
qed

section \<open>Order of a range's batches\<close>

text \<open>the batches of a range are resolved one for one from its logs, in ascending order of block
  number and log index, logs with equal keys in the order the endpoint gave them.\<close>

theorem resolve_batches_order:
  assumes "resolve_batches rlp seq_reader beacon from_block to_block = Inr resolved"
  shows "\<exists>logs ordered. batch_logs seq_reader from_block to_block = Inr logs
    \<and> mset ordered = mset logs \<and> sorted (map log_key ordered)
    \<and> (\<forall>k. filter (\<lambda>l. log_key l = k) ordered = filter (\<lambda>l. log_key l = k) logs)
    \<and> list_all2 (\<lambda>log res. resolve_one rlp seq_reader beacon log = Inr res) ordered resolved"
proof -
  from assms obtain logs where logs: "batch_logs seq_reader from_block to_block = Inr logs"
    and res: "try_map (resolve_one rlp seq_reader beacon) (sort_key log_key logs) = Inr resolved"
    by (auto simp: resolve_batches_def result_simps)
  have "filter (\<lambda>l. log_key l = k) (sort_key log_key logs) = filter (\<lambda>l. log_key l = k) logs" for k
    using sort_key_stable [of log_key k logs] by simp
  with logs res show ?thesis
    by (intro exI [of _ logs] exI [of _ "sort_key log_key logs"]) (simp add: try_map_Inr_iff)
qed

definition wit_batch_log :: "u64 \<Rightarrow> u64 \<Rightarrow> Log" where
  "wit_batch_log n b = \<lparr> log_address = [], log_topics = [[], abi_u64 n, replicate 32 0, replicate 32 1],
     log_data = abi_batch_event wit_event, log_block_number = Some b, log_index = Some 0, log_tx_hash = None \<rparr>"

definition wit_batches_reader :: SequencerInboxReader where
  "wit_batches_reader = wit_reader\<lparr>rd_provider := wit_provider\<lparr>pr_get_logs :=
     (\<lambda>f. Inr [wit_batch_log 2 12, wit_batch_log 1 11])\<rparr>\<rparr>"

definition wit_batch :: "u64 \<Rightarrow> DeliveredBatch" where
  "wit_batch n = wit_no_data\<lparr>db_sequence_number := n\<rparr>"

lemma wit_resolve_one: "resolve_one rlp_ref_header r None (wit_batch_log n b) = Inr (wit_batch n, [])"
proof -
  have "parse_sequencer_batch_delivered (abi_batch_event wit_event) = Inr wit_event"
    by (rule parse_abi_batch_event) (simp add: wit_event_def)
  then show ?thesis
    by (simp add: resolve_one_def resolve_batch_def wit_batch_log_def topic_seq_def slice_def Let_def
        resolve_payload_def wit_event_def LOC_TX_INPUT_def LOC_SEPARATE_BATCH_EVENT_def LOC_BLOB_HASHES_def
        LOC_NO_DATA_def wit_batch_def wit_no_data_def)
qed

theorem resolve_batches_order_witness:
  "\<exists>ordered. mset ordered = {# wit_batch_log 1 11, wit_batch_log 2 12 #} \<and> sorted (map log_key ordered)
    \<and> list_all2 (\<lambda>log res. resolve_one rlp_ref_header wit_batches_reader None log = Inr res) ordered
        [(wit_batch 1, []), (wit_batch 2, [])]"
proof -
  have logs: "batch_logs wit_batches_reader 10 20 = Inr [wit_batch_log 2 12, wit_batch_log 1 11]"
    by (simp add: batch_logs_def wit_batches_reader_def)
  have "log_key (wit_batch_log 2 12) = (12, 0)" "log_key (wit_batch_log 1 11) = (11, 0)"
    by (simp_all add: log_key_def wit_batch_log_def)
  then have "sort_key log_key [wit_batch_log 2 12, wit_batch_log 1 11] = [wit_batch_log 1 11, wit_batch_log 2 12]"
    by simp
  then have "resolve_batches rlp_ref_header wit_batches_reader None 10 20 = Inr [(wit_batch 1, []), (wit_batch 2, [])]"
    by (simp add: resolve_batches_def logs wit_resolve_one)
  from resolve_batches_order [OF this] logs show ?thesis by (auto simp: add_mset_commute)
qed

end
