(* ===== verification/Disk.thy ===== *)
theory Disk
  imports Prelude "HOL-Library.Sublist"
begin

text \<open>The part of the standard library's file API that the crash-safe writers use: names, directories,
  file contents and what of them has reached stable storage.

  Every operation first consults a schedule of outcomes, so that one run covers every way it can
  go: the operation happens, it fails (a write after some of its bytes), or power is lost, after
  which nothing happens any more. \<open>crash\<close> drops what was not synced: a file that was written since
  its last sync may hold anything, and a name may be the last synced one or the current one. A
  directory is itself an entry of the directory above it: one that was created since that directory's
  last sync may be gone after a crash, with everything in it.\<close>

section \<open>Files, names and schedules\<close>

type_synonym path = "string list"

definition path_parent :: "path \<Rightarrow> path option" where
  "path_parent p = (if p = [] then None else Some (butlast p))"

definition path_file_name :: "path \<Rightarrow> string option" where
  "path_file_name p = (if p = [] \<or> last p = ''..'' then None else Some (last p))"

text \<open>The directories above a path, from the outermost one; the root is always there.\<close>

fun dirs_above :: "path \<Rightarrow> path list" where
  "dirs_above [] = []"
| "dirs_above [n] = []"
| "dirs_above (n # m # p) = [n] # map ((#) n) (dirs_above (m # p))"

definition path_join :: "path \<Rightarrow> string \<Rightarrow> path" where
  "path_join p n = p @ [n]"

datatype IoError = InvalidInput string | AlreadyExists | NotFound | IoFault | PowerLost

datatype outcome = Done | Fault nat | PowerLoss

record disk =
  dk_names :: "path \<Rightarrow> nat option"
  dk_durable :: "path \<Rightarrow> nat option"
  dk_data :: "nat \<Rightarrow> bytes"
  dk_synced :: "nat \<Rightarrow> bool"
  dk_next :: nat
  dk_dirs :: "path \<Rightarrow> bool"
  dk_durable_dirs :: "path \<Rightarrow> bool"
  dk_sched :: "outcome list"

type_synonym 'a io = "disk \<Rightarrow> disk \<times> (IoError + 'a)"

definition io_return :: "'a \<Rightarrow> 'a io" where
  "io_return x dk = (dk, Inr x)"

definition io_err :: "IoError \<Rightarrow> 'a io" where
  "io_err e dk = (dk, Inl e)"

definition io_bind :: "'a io \<Rightarrow> ('a \<Rightarrow> 'b io) \<Rightarrow> 'b io" where
  "io_bind m f dk = (case m dk of (dk', Inl e) \<Rightarrow> (dk', Inl e) | (dk', Inr x) \<Rightarrow> f x dk')"

text \<open>The result of the first computation is dropped, as in \<open>let _ = ...\<close>.\<close>

definition io_finally :: "'a io \<Rightarrow> 'b io \<Rightarrow> 'a io" where
  "io_finally m cleanup dk = (case m dk of (dk', r) \<Rightarrow> (fst (cleanup dk'), r))"

definition attempt :: "(nat \<Rightarrow> disk \<Rightarrow> disk) \<Rightarrow> 'a io \<Rightarrow> 'a io" where
  "attempt partial act dk = (case dk_sched dk of
       [] \<Rightarrow> act dk
     | Done # rest \<Rightarrow> act (dk\<lparr>dk_sched := rest\<rparr>)
     | Fault n # rest \<Rightarrow> (partial n (dk\<lparr>dk_sched := rest\<rparr>), Inl IoFault)
     | PowerLoss # rest \<Rightarrow> (dk, Inl PowerLost))"

section \<open>Operations\<close>

definition dir_exists :: "disk \<Rightarrow> path \<Rightarrow> bool" where
  "dir_exists dk d \<longleftrightarrow> d = [] \<or> dk_dirs dk d"

definition add_dirs :: "path \<Rightarrow> disk \<Rightarrow> disk" where
  "add_dirs d dk = dk\<lparr>dk_dirs := (\<lambda>q. dk_dirs dk q \<or> prefix q d)\<rparr>"

text \<open>\<open>std::fs::create_dir_all\<close>: a failure may come after some of the directories.\<close>

definition create_dir_all :: "path \<Rightarrow> unit io" where
  "create_dir_all d = attempt (\<lambda>n. add_dirs (take n d)) (\<lambda>dk. (add_dirs d dk, Inr ()))"

definition create_new :: "path \<Rightarrow> nat io" where
  "create_new p = attempt (\<lambda>_ dk. dk) (\<lambda>dk.
     if \<not> dir_exists dk (butlast p) then (dk, Inl NotFound)
     else if dk_names dk p \<noteq> None then (dk, Inl AlreadyExists)
     else (dk\<lparr>dk_names := (dk_names dk)(p \<mapsto> dk_next dk), dk_data := (dk_data dk)(dk_next dk := []),
             dk_synced := (dk_synced dk)(dk_next dk := False), dk_next := Suc (dk_next dk)\<rparr>, Inr (dk_next dk)))"

definition put_bytes :: "nat \<Rightarrow> bytes \<Rightarrow> disk \<Rightarrow> disk" where
  "put_bytes i bs dk = dk\<lparr>dk_data := (dk_data dk)(i := dk_data dk i @ bs), dk_synced := (dk_synced dk)(i := False)\<rparr>"

definition write_all :: "nat \<Rightarrow> bytes \<Rightarrow> unit io" where
  "write_all i bs = attempt (\<lambda>n. put_bytes i (take n bs)) (\<lambda>dk. (put_bytes i bs dk, Inr ()))"

definition sync_all :: "nat \<Rightarrow> unit io" where
  "sync_all i = attempt (\<lambda>_ dk. dk) (\<lambda>dk. (dk\<lparr>dk_synced := (dk_synced dk)(i := True)\<rparr>, Inr ()))"

definition rename :: "path \<Rightarrow> path \<Rightarrow> unit io" where
  "rename p q = attempt (\<lambda>_ dk. dk) (\<lambda>dk. case dk_names dk p of
       None \<Rightarrow> (dk, Inl NotFound)
     | Some i \<Rightarrow> (if \<not> dir_exists dk (butlast q) then (dk, Inl NotFound)
                 else (dk\<lparr>dk_names := (dk_names dk)(p := None, q \<mapsto> i)\<rparr>, Inr ())))"

text \<open>\<open>std::fs::hard_link\<close>: the new name must not exist.\<close>

definition hard_link :: "path \<Rightarrow> path \<Rightarrow> unit io" where
  "hard_link p q = attempt (\<lambda>_ dk. dk) (\<lambda>dk. case dk_names dk p of
       None \<Rightarrow> (dk, Inl NotFound)
     | Some i \<Rightarrow> (if \<not> dir_exists dk (butlast q) then (dk, Inl NotFound)
                 else if dk_names dk q \<noteq> None then (dk, Inl AlreadyExists)
                 else (dk\<lparr>dk_names := (dk_names dk)(q \<mapsto> i)\<rparr>, Inr ())))"

text \<open>Opening a directory and syncing it: its entries, files and directories alike, become durable. No
  directory is ever removed.\<close>

definition sync_dir :: "path \<Rightarrow> unit io" where
  "sync_dir d = attempt (\<lambda>_ dk. dk) (\<lambda>dk.
     if \<not> dir_exists dk d then (dk, Inl NotFound)
     else (dk\<lparr>dk_durable := (\<lambda>p. if path_parent p = Some d then dk_names dk p else dk_durable dk p),
             dk_durable_dirs := (\<lambda>q. dk_durable_dirs dk q \<or> path_parent q = Some d \<and> dk_dirs dk q)\<rparr>, Inr ()))"

definition remove_file :: "path \<Rightarrow> unit io" where
  "remove_file p = attempt (\<lambda>_ dk. dk) (\<lambda>dk. case dk_names dk p of
       None \<Rightarrow> (dk, Inl NotFound)
     | Some i \<Rightarrow> (dk\<lparr>dk_names := (dk_names dk)(p := None)\<rparr>, Inr ()))"

definition read_file :: "path \<Rightarrow> bytes io" where
  "read_file p = attempt (\<lambda>_ dk. dk) (\<lambda>dk. case dk_names dk p of
       None \<Rightarrow> (dk, Inl NotFound) | Some i \<Rightarrow> (dk, Inr (dk_data dk i)))"

text \<open>\<open>keep\<close> says of which paths the unsynced entry happens to have reached the disk. What is in a
  directory survives only with all the directories above it.\<close>

definition dir_kept :: "(path \<Rightarrow> bool) \<Rightarrow> disk \<Rightarrow> path \<Rightarrow> bool" where
  "dir_kept keep dk q \<longleftrightarrow> dk_durable_dirs dk q \<or> dk_dirs dk q \<and> keep q"

definition reachable :: "(path \<Rightarrow> bool) \<Rightarrow> disk \<Rightarrow> path \<Rightarrow> bool" where
  "reachable keep dk p \<longleftrightarrow> list_all (dir_kept keep dk) (dirs_above p)"

definition crash_entry :: "(path \<Rightarrow> bool) \<Rightarrow> disk \<Rightarrow> path \<Rightarrow> nat option" where
  "crash_entry keep dk p = (if \<not> reachable keep dk p then None else if keep p then dk_names dk p else dk_durable dk p)"

definition crash :: "(path \<Rightarrow> bool) \<Rightarrow> (nat \<Rightarrow> bytes) \<Rightarrow> disk \<Rightarrow> disk" where
  "crash keep junk dk = dk\<lparr>
     dk_names := crash_entry keep dk, dk_durable := crash_entry keep dk,
     dk_data := (\<lambda>i. if dk_synced dk i then dk_data dk i else junk i),
     dk_synced := (\<lambda>_. True),
     dk_dirs := (\<lambda>q. reachable keep dk q \<and> dir_kept keep dk q),
     dk_durable_dirs := (\<lambda>q. reachable keep dk q \<and> dir_kept keep dk q), dk_sched := []\<rparr>"

definition content :: "disk \<Rightarrow> path \<Rightarrow> bytes option" where
  "content dk p = map_option (dk_data dk) (dk_names dk p)"

section \<open>Specifications of operations\<close>

text \<open>\<open>meets P m Q E\<close>: from a disk with \<open>P\<close> the operation returns with \<open>Q\<close> of its value, or fails
  with \<open>E\<close>.\<close>

definition meets :: "(disk \<Rightarrow> bool) \<Rightarrow> 'a io \<Rightarrow> ('a \<Rightarrow> disk \<Rightarrow> bool) \<Rightarrow> (disk \<Rightarrow> bool) \<Rightarrow> bool" where
  "meets P m Q E \<longleftrightarrow> (\<forall>dk. P dk \<longrightarrow> (case m dk of (dk', Inl e) \<Rightarrow> E dk' | (dk', Inr x) \<Rightarrow> Q x dk'))"

lemma meets_bind:
  "meets P m R E \<Longrightarrow> (\<And>x. meets (R x) (f x) Q E) \<Longrightarrow> meets P (io_bind m f) Q E"
  by (fastforce simp: meets_def io_bind_def split: prod.splits sum.splits)

lemma meets_weaken:
  "meets P m Q E \<Longrightarrow> (\<And>dk. P' dk \<Longrightarrow> P dk) \<Longrightarrow> (\<And>x dk. Q x dk \<Longrightarrow> Q' x dk) \<Longrightarrow> (\<And>dk. E dk \<Longrightarrow> E' dk)
    \<Longrightarrow> meets P' m Q' E'"
  unfolding meets_def by (fastforce split: prod.splits sum.splits)

lemma meets_attempt:
  assumes "\<And>dk s. P dk \<Longrightarrow> P (dk\<lparr>dk_sched := s\<rparr>)" and "meets P act Q E"
    and "\<And>n dk. P dk \<Longrightarrow> E (partial n dk)" and "\<And>dk. P dk \<Longrightarrow> E dk"
  shows "meets P (attempt partial act) Q E"
  unfolding meets_def
proof (intro allI impI)
  fix dk assume dk: "P dk"
  note act = assms(2) [unfolded meets_def, rule_format]
  show "case attempt partial act dk of (dk', Inl e) \<Rightarrow> E dk' | (dk', Inr x) \<Rightarrow> Q x dk'"
    using act [OF dk] act [OF assms(1) [OF dk]] assms(3) [OF assms(1) [OF dk]] assms(4) [OF dk]
    by (auto simp: attempt_def split: list.splits outcome.splits)
qed

text \<open>A clean-up that keeps both outcomes' conditions keeps the specification.\<close>

lemma meets_finally:
  assumes "meets P m Q E"
    and "\<And>x dk. Q x dk \<Longrightarrow> Q' x (fst (c dk))" and "\<And>dk. E dk \<Longrightarrow> E' (fst (c dk))"
  shows "meets P (io_finally m c) Q' E'"
  using assms unfolding meets_def io_finally_def by (fastforce split: prod.splits sum.splits)

lemma meets_keeps: "meets P m (\<lambda>_. Q) Q \<Longrightarrow> P dk \<Longrightarrow> Q (fst (m dk))"
  unfolding meets_def by (fastforce split: prod.splits sum.splits)

section \<open>Replacing a file\<close>

text \<open>A name in order: it is absent, or its file is fully synced, and its content is one of those
  allowed.\<close>

definition entry_ok :: "bytes option set \<Rightarrow> disk \<Rightarrow> nat option \<Rightarrow> bool" where
  "entry_ok C dk e = (case e of
       None \<Rightarrow> None \<in> C
     | Some i \<Rightarrow> i < dk_next dk \<and> dk_synced dk i \<and> Some (dk_data dk i) \<in> C)"

text \<open>The directories above a path are on stable storage. A name that must not vanish needs that.\<close>

definition secure :: "path \<Rightarrow> disk \<Rightarrow> bool" where
  "secure p dk \<longleftrightarrow> list_all (dk_durable_dirs dk) (dirs_above p)"

definition guarded :: "bytes option set \<Rightarrow> path \<Rightarrow> disk \<Rightarrow> bool" where
  "guarded C p dk \<longleftrightarrow> entry_ok C dk (dk_names dk p) \<and> entry_ok C dk (dk_durable dk p) \<and> (None \<in> C \<or> secure p dk)"

definition tmp_holds :: "path \<Rightarrow> path \<Rightarrow> nat \<Rightarrow> bytes \<Rightarrow> disk \<Rightarrow> bool" where
  "tmp_holds tmp p i bs dk \<longleftrightarrow> dk_names dk tmp = Some i \<and> i < dk_next dk \<and> dk_data dk i = bs
     \<and> dk_names dk p \<noteq> Some i \<and> dk_durable dk p \<noteq> Some i"

definition placed :: "bytes \<Rightarrow> path \<Rightarrow> disk \<Rightarrow> bool" where
  "placed new p dk \<longleftrightarrow> (\<exists>i. dk_names dk p = Some i \<and> i < dk_next dk \<and> dk_synced dk i \<and> dk_data dk i = new)"

definition durably_placed :: "bytes \<Rightarrow> path \<Rightarrow> disk \<Rightarrow> bool" where
  "durably_placed new p dk \<longleftrightarrow> placed new p dk \<and> dk_durable dk p = dk_names dk p"

text \<open>Nothing about a name is pending: it is absent, or it and its file and the directories above it
  are on stable storage.\<close>

definition settled :: "path \<Rightarrow> disk \<Rightarrow> bool" where
  "settled p dk \<longleftrightarrow> dk_durable dk p = dk_names dk p
     \<and> (case dk_names dk p of None \<Rightarrow> True | Some i \<Rightarrow> i < dk_next dk \<and> dk_synced dk i \<and> secure p dk)"

lemmas disk_defs = guarded_def entry_ok_def tmp_holds_def placed_def durably_placed_def secure_def list_all_iff

lemma guarded_start: "settled p dk \<Longrightarrow> content dk p \<in> C \<Longrightarrow> guarded C p dk"
  by (auto simp: settled_def guarded_def entry_ok_def content_def split: option.splits)

lemma guarded_mono: "guarded C p dk \<Longrightarrow> C \<subseteq> D \<Longrightarrow> guarded D p dk"
  by (auto simp: disk_defs split: option.splits)

lemma create_new_meets:
  assumes "tmp \<noteq> p"
  shows "meets (guarded C p) (create_new tmp) (\<lambda>i dk. guarded C p dk \<and> tmp_holds tmp p i [] dk) (guarded C p)"
  unfolding create_new_def
  by (rule meets_attempt) (use assms in \<open>auto simp: meets_def disk_defs split: option.splits\<close>)

lemma write_all_meets:
  "meets (\<lambda>dk. guarded C p dk \<and> tmp_holds tmp p i bs dk) (write_all i cs)
    (\<lambda>_ dk. guarded C p dk \<and> tmp_holds tmp p i (bs @ cs) dk) (guarded C p)"
  unfolding write_all_def
  by (rule meets_attempt) (auto simp: meets_def disk_defs put_bytes_def split: option.splits)

lemma sync_all_meets:
  "meets (\<lambda>dk. guarded C p dk \<and> tmp_holds tmp p i bs dk) (sync_all i)
    (\<lambda>_ dk. guarded C p dk \<and> tmp_holds tmp p i bs dk \<and> dk_synced dk i) (guarded C p)"
  unfolding sync_all_def
  by (rule meets_attempt) (auto simp: meets_def disk_defs split: option.splits)

lemma rename_meets:
  assumes "tmp \<noteq> p" "Some new \<in> C"
  shows "meets (\<lambda>dk. guarded C p dk \<and> tmp_holds tmp p i new dk \<and> dk_synced dk i) (rename tmp p)
    (\<lambda>_ dk. guarded C p dk \<and> placed new p dk) (guarded C p)"
  unfolding rename_def
  by (rule meets_attempt) (use assms in \<open>auto simp: meets_def disk_defs split: option.splits\<close>)

lemma sync_dir_meets:
  assumes "path_parent p = Some d"
  shows "meets (\<lambda>dk. guarded C p dk \<and> placed new p dk) (sync_dir d)
    (\<lambda>_ dk. guarded C p dk \<and> durably_placed new p dk) (guarded C p)"
  unfolding sync_dir_def
  by (rule meets_attempt) (use assms in \<open>auto simp: meets_def disk_defs split: option.splits\<close>)

lemma remove_file_keeps:
  assumes "tmp \<noteq> p"
  shows "guarded C p dk \<Longrightarrow> guarded C p (fst (remove_file tmp dk))"
    and "durably_placed new p dk \<Longrightarrow> durably_placed new p (fst (remove_file tmp dk))"
  unfolding remove_file_def attempt_def
  using assms by (auto simp: disk_defs split: option.splits list.splits outcome.splits)

lemma secure_reachable: "secure p dk \<Longrightarrow> reachable keep dk p"
  by (auto simp: secure_def reachable_def dir_kept_def list_all_iff)

lemma crash_guarded: "guarded C p dk \<Longrightarrow> content (crash keep junk dk) p \<in> C"
  by (auto simp: guarded_def entry_ok_def content_def crash_def crash_entry_def secure_reachable split: option.splits if_splits)

lemma crash_durable: "durably_placed new p dk \<Longrightarrow> secure p dk \<Longrightarrow> content (crash keep junk dk) p = Some new"
  by (auto simp: placed_def durably_placed_def content_def crash_def crash_entry_def secure_reachable)

lemma crash_lost: "\<not> secure p dk \<Longrightarrow> content (crash (\<lambda>_. False) junk dk) p = None"
  by (auto simp: content_def crash_def crash_entry_def reachable_def secure_def dir_kept_def list_all_iff)

lemma crash_settled: "settled p dk \<Longrightarrow> content (crash keep junk dk) p = content dk p"
  by (auto simp: settled_def content_def crash_def crash_entry_def secure_reachable split: option.splits)

section \<open>Directories stay as durable as they are\<close>

text \<open>Syncing the directory a file is in makes durable what is in it, but none of the directories above.\<close>

definition keeps_secure :: "path \<Rightarrow> 'a io \<Rightarrow> bool" where
  "keeps_secure p m \<longleftrightarrow> (\<forall>dk. secure p (fst (m dk)) = secure p dk)"

lemma keeps_secureD: "keeps_secure p m \<Longrightarrow> m dk = (dk', r) \<Longrightarrow> secure p dk' = secure p dk"
  unfolding keeps_secure_def by (metis fst_conv)

lemma keeps_bind:
  assumes "keeps_secure p m" "\<And>x. keeps_secure p (f x)"
  shows "keeps_secure p (io_bind m f)"
  unfolding keeps_secure_def
proof
  fix dk
  obtain dk' r where m: "m dk = (dk', r)" by (cases "m dk")
  show "secure p (fst (io_bind m f dk)) = secure p dk"
    using keeps_secureD [OF assms(1) m] assms(2) by (cases r) (simp_all add: io_bind_def m keeps_secure_def)
qed

lemma keeps_finally:
  assumes "keeps_secure p m" "keeps_secure p c"
  shows "keeps_secure p (io_finally m c)"
  unfolding keeps_secure_def
proof
  fix dk
  obtain dk' r where m: "m dk = (dk', r)" by (cases "m dk")
  show "secure p (fst (io_finally m c dk)) = secure p dk"
    using keeps_secureD [OF assms(1) m] assms(2) by (simp add: io_finally_def m keeps_secure_def)
qed

lemma dirs_above_length: "q \<in> set (dirs_above p) \<Longrightarrow> length q < length p"
  by (induction p arbitrary: q rule: dirs_above.induct) auto

lemma dirs_above_snoc: "dirs_above (d @ [n]) = (if d = [] then [] else dirs_above d @ [d])"
  by (induction d rule: dirs_above.induct) simp_all

lemma secure_sched [simp]: "secure p (dk\<lparr>dk_sched := s\<rparr>) = secure p dk"
  by (simp add: secure_def)

lemma keeps_attempt:
  assumes "\<And>n dk. secure p (partial n dk) = secure p dk" "\<And>dk. secure p (fst (act dk)) = secure p dk"
  shows "keeps_secure p (attempt partial act)"
  unfolding keeps_secure_def attempt_def using assms by (simp split: list.split outcome.split)

lemma keeps_return: "keeps_secure p (io_return x)"
  by (simp add: keeps_secure_def io_return_def)

lemma keeps_err: "keeps_secure p (io_err e)"
  by (simp add: keeps_secure_def io_err_def)

lemma keeps_create_dir_all: "keeps_secure p (create_dir_all d)"
  unfolding create_dir_all_def by (rule keeps_attempt) (simp_all add: secure_def add_dirs_def)

lemma keeps_create_new: "keeps_secure p (create_new q)"
  unfolding create_new_def by (rule keeps_attempt) (simp_all add: secure_def)

lemma keeps_write_all: "keeps_secure p (write_all i bs)"
  unfolding write_all_def by (rule keeps_attempt) (simp_all add: secure_def put_bytes_def)

lemma keeps_sync_all: "keeps_secure p (sync_all i)"
  unfolding sync_all_def by (rule keeps_attempt) (simp_all add: secure_def)

lemma keeps_rename: "keeps_secure p (rename a b)"
  unfolding rename_def by (rule keeps_attempt) (simp_all add: secure_def split: option.split)

lemma keeps_hard_link: "keeps_secure p (hard_link a b)"
  unfolding hard_link_def by (rule keeps_attempt) (simp_all add: secure_def split: option.split)

lemma keeps_remove_file: "keeps_secure p (remove_file q)"
  unfolding remove_file_def by (rule keeps_attempt) (simp_all add: secure_def split: option.split)

lemma keeps_sync_dir:
  assumes "path_parent p = Some d"
  shows "keeps_secure p (sync_dir d)"
proof -
  have "path_parent q \<noteq> Some d" if "q \<in> set (dirs_above p)" for q
  proof
    assume "path_parent q = Some d"
    with assms have "butlast q = butlast p" "q \<noteq> []" by (auto simp: path_parent_def split: if_splits)
    then have "length q - 1 = length p - 1" by (metis length_butlast)
    with dirs_above_length [OF that] \<open>q \<noteq> []\<close> show False by (cases q) auto
  qed
  then show ?thesis
    unfolding sync_dir_def by (intro keeps_attempt) (simp_all add: secure_def list_all_iff)
qed

lemmas keeps_secure_intros = keeps_bind keeps_finally keeps_return keeps_err keeps_create_dir_all keeps_create_new keeps_write_all
  keeps_sync_all keeps_rename keeps_hard_link keeps_remove_file keeps_sync_dir

end
