(* ===== verification/Resume_Log.thy ===== *)
theory Resume_Log
  imports Disk "HOL-Library.Sublist"
begin

text \<open>The log of L1-derivation resume points (crates/arb-reth-sync/src/resume.rs): the boundaries
  recorded during sync, their compaction, the choice of a resume point, and the crash-safe
  replacement of the file that holds them.

  The JSON codec is a parameter; the saved log is assumed to be read back from the bytes it is
  written as. Paths are lists of components; the process id and the time stamp of the temporary
  file's name are arguments.\<close>

section \<open>Checkpoints\<close>

definition RESUME_FILE_NAME :: string where
  "RESUME_FILE_NAME = ''arb-l1-resume.json''"

definition RECENT_CHECKPOINTS :: nat where
  "RECENT_CHECKPOINTS = 128"

definition HISTORICAL_CHECKPOINT_L2_INTERVAL :: u64 where
  "HISTORICAL_CHECKPOINT_L2_INTERVAL = 100000"

record L1ResumeCheckpoint =
  cp_l1_block :: u64
  cp_delayed_count :: u64
  cp_l2_block :: u64

record L1ResumeLog =
  checkpoints :: "L1ResumeCheckpoint list"

definition path_in :: "path \<Rightarrow> path" where
  "path_in datadir = path_join datadir RESUME_FILE_NAME"

definition resume_for :: "L1ResumeLog \<Rightarrow> u64 \<Rightarrow> L1ResumeCheckpoint option" where
  "resume_for log l2_block = find (\<lambda>cp. cp_l2_block cp \<le> l2_block) (rev (checkpoints log))"

fun compact_loop :: "u64 option \<Rightarrow> L1ResumeCheckpoint list \<Rightarrow> L1ResumeCheckpoint list" where
  "compact_loop last_bucket [] = []"
| "compact_loop last_bucket (cp # cps) =
     (let bucket = cp_l2_block cp div HISTORICAL_CHECKPOINT_L2_INTERVAL in
      if last_bucket \<noteq> Some bucket then cp # compact_loop (Some bucket) cps
      else compact_loop last_bucket cps)"

definition compact_history :: "L1ResumeLog \<Rightarrow> L1ResumeLog" where
  "compact_history log =
     (let n = length (checkpoints log) in
      if n < RECENT_CHECKPOINTS then log
      else let recent_start = n - RECENT_CHECKPOINTS in
        if recent_start = 0 then log
        else log\<lparr>checkpoints := compact_loop None (take recent_start (checkpoints log))
                              @ drop recent_start (checkpoints log)\<rparr>)"

definition record_cp :: "L1ResumeCheckpoint \<Rightarrow> L1ResumeLog \<Rightarrow> L1ResumeLog" where
  "record_cp cp log =
     compact_history
       (if checkpoints log \<noteq> [] \<and> cp_l2_block (last (checkpoints log)) = cp_l2_block cp
        then log\<lparr>checkpoints := butlast (checkpoints log) @ [cp]\<rparr>
        else log\<lparr>checkpoints := checkpoints log @ [cp]\<rparr>)"

definition truncate_to :: "L1ResumeLog \<Rightarrow> u64 \<Rightarrow> L1ResumeLog \<times> L1ResumeCheckpoint option" where
  "truncate_to log l2_block =
     (let kept = filter (\<lambda>cp. cp_l2_block cp \<le> l2_block) (checkpoints log) in
      (log\<lparr>checkpoints := kept\<rparr>, if kept = [] then None else Some (last kept)))"

section \<open>The file\<close>

record resume_json =
  rj_to_vec :: "L1ResumeLog \<Rightarrow> bytes"
  rj_log :: "bytes \<Rightarrow> string + L1ResumeLog"
  rj_checkpoint :: "bytes \<Rightarrow> string + L1ResumeCheckpoint"

definition load :: "resume_json \<Rightarrow> path \<Rightarrow> disk \<Rightarrow> L1ResumeLog option" where
  "load js p dk = (case snd (read_file p dk) of
       Inl e \<Rightarrow> None
     | Inr bs \<Rightarrow> (case rj_log js bs of
          Inr log \<Rightarrow> Some log
        | Inl e \<Rightarrow> (case rj_checkpoint js bs of
             Inl e \<Rightarrow> None | Inr cp \<Rightarrow> Some \<lparr>checkpoints = [cp]\<rparr>)))"

fun windows_ascend :: "L1ResumeCheckpoint list \<Rightarrow> bool" where
  "windows_ascend (a # b # cps) \<longleftrightarrow> \<not> cp_l2_block b \<le> cp_l2_block a \<and> windows_ascend (b # cps)"
| "windows_ascend cps \<longleftrightarrow> True"

definition load_strict :: "resume_json \<Rightarrow> (IoError \<Rightarrow> string) \<Rightarrow> path \<Rightarrow> disk \<Rightarrow> string + L1ResumeLog" where
  "load_strict js show_io p dk =
     rbind (map_err show_io (snd (read_file p dk))) (\<lambda>bs.
     rbind (rj_log js bs) (\<lambda>log.
       if \<not> windows_ascend (checkpoints log)
       then Inl ''checkpoints are not strictly ascending by l2_block'' else Inr log))"

definition resume_tmp :: "path \<Rightarrow> path \<Rightarrow> nat \<Rightarrow> nat \<Rightarrow> path" where
  "resume_tmp directory p pid stamp =
     path_join directory (''.'' @ (case path_file_name p of Some n \<Rightarrow> n | None \<Rightarrow> ''resume'')
       @ ''-'' @ dec pid @ ''-'' @ dec stamp @ ''.tmp'')"

definition save_body :: "bytes \<Rightarrow> path \<Rightarrow> path \<Rightarrow> path \<Rightarrow> unit io" where
  "save_body json tmp p directory =
     io_bind (create_new tmp) (\<lambda>file.
     io_bind (write_all file json) (\<lambda>_.
     io_bind (write_all file [10]) (\<lambda>_.
     io_bind (sync_all file) (\<lambda>_.
     io_bind (rename tmp p) (\<lambda>_.
     sync_dir directory)))))"

definition save :: "resume_json \<Rightarrow> L1ResumeLog \<Rightarrow> path \<Rightarrow> nat \<Rightarrow> nat \<Rightarrow> unit io" where
  "save js log p pid stamp =
     (case path_parent p of
        None \<Rightarrow> io_err (InvalidInput ''resume path has no parent'')
      | Some directory \<Rightarrow>
          io_bind (create_dir_all directory) (\<lambda>_.
            let tmp = resume_tmp directory p pid stamp in
            io_finally (save_body (rj_to_vec js log) tmp p directory) (remove_file tmp)))"

section \<open>Ascending logs\<close>

definition bucket_of :: "L1ResumeCheckpoint \<Rightarrow> nat" where
  "bucket_of cp = unat (cp_l2_block cp) div 100000"

abbreviation ascending :: "L1ResumeCheckpoint list \<Rightarrow> bool" where
  "ascending cps \<equiv> sorted_wrt (\<lambda>a b. cp_l2_block a < cp_l2_block b) cps"

lemma windows_ascend_iff: "windows_ascend cps \<longleftrightarrow> ascending cps"
  by (induction cps rule: windows_ascend.induct) (auto simp: not_le dest: less_trans)

lemma bucket_eq_iff:
  "cp_l2_block a div HISTORICAL_CHECKPOINT_L2_INTERVAL = cp_l2_block b div HISTORICAL_CHECKPOINT_L2_INTERVAL
    \<longleftrightarrow> bucket_of a = bucket_of b"
  by (simp add: bucket_of_def HISTORICAL_CHECKPOINT_L2_INTERVAL_def unat_div word_unat_eq_iff)

lemma subseq_compact_loop: "subseq (compact_loop b cps) cps"
  by (induction b cps rule: compact_loop.induct) (auto simp: Let_def)

lemma ascending_subseq: "subseq xs ys \<Longrightarrow> ascending ys \<Longrightarrow> ascending xs"
  by (induction rule: list_emb.induct) (auto dest: list_emb_set)

definition represents :: "L1ResumeCheckpoint list \<Rightarrow> L1ResumeCheckpoint \<Rightarrow> bool" where
  "represents kept c \<longleftrightarrow> (\<exists>r \<in> set kept. cp_l2_block r \<le> cp_l2_block c \<and> bucket_of r = bucket_of c)"

lemma compact_loop_represents:
  "ascending cps \<Longrightarrow> c \<in> set cps \<Longrightarrow> b \<noteq> Some (cp_l2_block c div HISTORICAL_CHECKPOINT_L2_INTERVAL)
    \<Longrightarrow> represents (compact_loop b cps) c"
proof (induction b cps rule: compact_loop.induct)
  case (2 b cp cps)
  show ?case
  proof (cases "bucket_of cp = bucket_of c \<and> b \<noteq> Some (cp_l2_block cp div HISTORICAL_CHECKPOINT_L2_INTERVAL)")
    case True
    moreover have "cp_l2_block cp \<le> cp_l2_block c" using 2(3,4) by auto
    ultimately show ?thesis by (auto simp: represents_def Let_def)
  next
    case False
    then have "bucket_of cp \<noteq> bucket_of c \<and> cp \<noteq> c" using 2(5) by (auto simp: bucket_eq_iff [symmetric])
    with 2 show ?thesis by (auto simp: Let_def represents_def bucket_eq_iff split: if_splits)
  qed
qed simp

lemma represents_mono: "represents xs c \<Longrightarrow> set xs \<subseteq> set ys \<Longrightarrow> represents ys c"
  by (auto simp: represents_def)

lemma represents_trans: "represents xs r \<Longrightarrow> cp_l2_block r \<le> cp_l2_block c \<Longrightarrow> bucket_of r = bucket_of c \<Longrightarrow> represents xs c"
  unfolding represents_def by (metis order_trans)

lemma represents_self: "c \<in> set xs \<Longrightarrow> represents xs c"
  by (auto simp: represents_def)

lemma compact_history_cases:
  obtains "compact_history log = log"
  | old recent where "checkpoints log = old @ recent" "length recent = 128"
      "checkpoints (compact_history log) = compact_loop None old @ recent"
proof (cases "length (checkpoints log) \<le> 128")
  case True
  then show ?thesis by (intro that(1)) (simp add: compact_history_def RECENT_CHECKPOINTS_def Let_def)
next
  case False
  then show ?thesis
    by (intro that(2) [of "take (length (checkpoints log) - 128) (checkpoints log)" "drop (length (checkpoints log) - 128) (checkpoints log)"])
      (simp_all add: compact_history_def RECENT_CHECKPOINTS_def Let_def)
qed

lemma compact_history_keeps:
  shows compact_history_subseq: "subseq (checkpoints (compact_history log)) (checkpoints log)"
    and compact_history_last: "checkpoints log \<noteq> [] \<Longrightarrow>
      checkpoints (compact_history log) \<noteq> [] \<and> last (checkpoints (compact_history log)) = last (checkpoints log)"
  by (cases log rule: compact_history_cases; force simp: subseq_compact_loop last_append)+

lemma compact_history_represents:
  assumes "ascending (checkpoints log)" "c \<in> set (checkpoints log)"
  shows "represents (checkpoints (compact_history log)) c"
proof (cases log rule: compact_history_cases)
  case 1
  with assms show ?thesis by (simp add: represents_self)
next
  case (2 old recent)
  show ?thesis
  proof (cases "c \<in> set old")
    case True
    with assms 2 compact_loop_represents [of old c None] show ?thesis
      by (auto simp: sorted_wrt_append intro: represents_mono)
  next
    case False
    with assms 2 show ?thesis by (simp add: represents_self)
  qed
qed

section \<open>Recording a run of boundaries\<close>

definition recorded :: "L1ResumeCheckpoint list \<Rightarrow> L1ResumeLog" where
  "recorded cps = fold record_cp cps \<lparr>checkpoints = []\<rparr>"

text \<open>The newest boundary recorded for an L2 block.\<close>

definition newest_at :: "L1ResumeCheckpoint list \<Rightarrow> u64 \<Rightarrow> L1ResumeCheckpoint" where
  "newest_at cps b = last (filter (\<lambda>c. cp_l2_block c = b) cps)"

definition log_inv :: "L1ResumeCheckpoint list \<Rightarrow> L1ResumeLog \<Rightarrow> bool" where
  "log_inv cps log \<longleftrightarrow> ascending (checkpoints log)
     \<and> (\<forall>r \<in> set (checkpoints log). r \<in> set cps \<and> newest_at cps (cp_l2_block r) = r)
     \<and> (\<forall>c \<in> set cps. represents (checkpoints log) c)
     \<and> (cps \<noteq> [] \<longrightarrow> checkpoints log \<noteq> [] \<and> last (checkpoints log) = last cps)"

lemma log_inv_compact: "log_inv cps log \<Longrightarrow> log_inv cps (compact_history log)"
  using ascending_subseq [OF compact_history_subseq, of log] compact_history_last [of log]
    list_emb_set [OF compact_history_subseq, of _ log] compact_history_represents [of log]
  unfolding log_inv_def by (metis represents_def represents_trans)

lemma newest_at_snoc [simp]:
  "newest_at (cps @ [cp]) b = (if cp_l2_block cp = b then cp else newest_at cps b)"
  by (simp add: newest_at_def)

lemma log_inv_replace:
  assumes "log_inv cps \<lparr>checkpoints = xs @ [x]\<rparr>" "cp_l2_block x = cp_l2_block cp"
  shows "log_inv (cps @ [cp]) \<lparr>checkpoints = xs @ [cp]\<rparr>"
  using assms unfolding log_inv_def
  by (auto simp: sorted_wrt_append represents_def bucket_of_def)

lemma log_inv_push:
  assumes "log_inv cps \<lparr>checkpoints = xs\<rparr>" "\<forall>r \<in> set xs. cp_l2_block r < cp_l2_block cp"
  shows "log_inv (cps @ [cp]) \<lparr>checkpoints = xs @ [cp]\<rparr>"
  using assms unfolding log_inv_def
  by (auto simp: sorted_wrt_append represents_def)

lemma log_inv_record:
  assumes "log_inv cps log" "\<forall>c \<in> set cps. cp_l2_block c \<le> cp_l2_block cp"
  shows "log_inv (cps @ [cp]) (record_cp cp log)"
proof (cases "checkpoints log" rule: rev_cases)
  case Nil
  with assms show ?thesis
    unfolding record_cp_def by (cases log) (auto intro!: log_inv_compact log_inv_push [of _ "[]", simplified])
next
  case (snoc xs x)
  then have x: "\<forall>r \<in> set xs. cp_l2_block r < cp_l2_block x" "cp_l2_block x \<le> cp_l2_block cp"
    using assms by (auto simp: log_inv_def sorted_wrt_append)
  have log: "log = \<lparr>checkpoints = xs @ [x]\<rparr>" using snoc by (cases log) simp
  show ?thesis
  proof (cases "cp_l2_block x = cp_l2_block cp")
    case True
    then show ?thesis using log_inv_replace [OF assms(1) [unfolded log]]
      by (simp add: log record_cp_def log_inv_compact)
  next
    case False
    then have "\<forall>r \<in> set (xs @ [x]). cp_l2_block r < cp_l2_block cp"
      using x by (auto intro: less_le_trans)
    then show ?thesis using log_inv_push [OF assms(1) [unfolded log]] False
      by (simp add: log record_cp_def log_inv_compact)
  qed
qed

lemma recorded_inv: "sorted (map cp_l2_block cps) \<Longrightarrow> log_inv cps (recorded cps)"
proof (induction cps rule: rev_induct)
  case Nil
  then show ?case by (simp add: log_inv_def recorded_def)
next
  case (snoc cp cps)
  then show ?case using log_inv_record [of cps "recorded cps" cp] by (simp add: recorded_def sorted_append)
qed

lemma find_rev_Some:
  assumes "ascending xs" "find (\<lambda>cp. cp_l2_block cp \<le> tip) (rev xs) = Some r"
  shows "r \<in> set xs" "cp_l2_block r \<le> tip" "\<And>r'. r' \<in> set xs \<Longrightarrow> cp_l2_block r' \<le> tip \<Longrightarrow> cp_l2_block r' \<le> cp_l2_block r"
  using assms by (induction xs rule: rev_induct) (auto simp: sorted_wrt_append split: if_splits intro: less_imp_le)

lemma resume_for_Some:
  assumes "ascending (checkpoints log)" "resume_for log tip = Some r"
  shows "r \<in> set (checkpoints log)" "cp_l2_block r \<le> tip"
    "\<And>r'. r' \<in> set (checkpoints log) \<Longrightarrow> cp_l2_block r' \<le> tip \<Longrightarrow> cp_l2_block r' \<le> cp_l2_block r"
  using find_rev_Some [OF assms(1) assms(2) [unfolded resume_for_def]] by blast+

lemma resume_for_None: "resume_for log tip = None \<Longrightarrow> r \<in> set (checkpoints log) \<Longrightarrow> tip < cp_l2_block r"
  by (auto simp: resume_for_def find_None_iff not_le)

lemma same_bucket_near:
  assumes "bucket_of a = bucket_of c" "cp_l2_block a \<le> cp_l2_block r"
  shows "unat (cp_l2_block c) < unat (cp_l2_block r) + 100000"
proof -
  have "unat (cp_l2_block c) < (unat (cp_l2_block a) div 100000) * 100000 + 100000"
    using assms(1) unfolding bucket_of_def by linarith
  moreover have "(unat (cp_l2_block a) div 100000) * 100000 \<le> unat (cp_l2_block a)" by simp
  moreover have "unat (cp_l2_block a) \<le> unat (cp_l2_block r)" using assms(2) by (simp add: word_le_nat_alt)
  ultimately show ?thesis by linarith
qed

text \<open>C10: after a run of boundaries with non-falling L2 blocks has been recorded, with all the
  compaction that goes on, the resume point for a tip is the newest boundary recorded for its own
  L2 block, is not above the tip, and is less than 100,000 L2 blocks behind every recorded boundary
  at or below the tip. There is none only when every recorded boundary is above the tip.\<close>

theorem resume_for_recorded:
  assumes "sorted (map cp_l2_block cps)"
  shows "case resume_for (recorded cps) tip of
      None \<Rightarrow> \<forall>c \<in> set cps. tip < cp_l2_block c
    | Some r \<Rightarrow> r \<in> set cps \<and> newest_at cps (cp_l2_block r) = r \<and> cp_l2_block r \<le> tip
        \<and> (\<forall>c \<in> set cps. cp_l2_block c \<le> tip \<longrightarrow> unat (cp_l2_block c) < unat (cp_l2_block r) + 100000)"
proof -
  from recorded_inv [OF assms] have asc: "ascending (checkpoints (recorded cps))"
    and own: "\<forall>r \<in> set (checkpoints (recorded cps)). r \<in> set cps \<and> newest_at cps (cp_l2_block r) = r"
    and rep: "\<forall>c \<in> set cps. represents (checkpoints (recorded cps)) c"
    by (simp_all add: log_inv_def)
  show ?thesis
  proof (cases "resume_for (recorded cps) tip")
    case None
    have "tip < cp_l2_block c" if "c \<in> set cps" for c
      using rep [rule_format, OF that] resume_for_None [OF None] by (auto simp: represents_def intro: less_le_trans)
    with None show ?thesis by simp
  next
    case (Some r)
    note best = resume_for_Some [OF asc Some]
    have "unat (cp_l2_block c) < unat (cp_l2_block r) + 100000" if c: "c \<in> set cps" "cp_l2_block c \<le> tip" for c
    proof -
      from rep [rule_format, OF c(1)] obtain a where a: "a \<in> set (checkpoints (recorded cps))"
        "cp_l2_block a \<le> cp_l2_block c" "bucket_of a = bucket_of c" by (auto simp: represents_def)
      show ?thesis by (rule same_bucket_near [OF a(3) best(3) [OF a(1) order_trans [OF a(2) c(2)]]])
    qed
    with Some best own show ?thesis by simp
  qed
qed

definition wit_cp :: "u64 \<Rightarrow> u64 \<Rightarrow> L1ResumeCheckpoint" where
  "wit_cp l1 l2 = \<lparr>cp_l1_block = l1, cp_delayed_count = 7, cp_l2_block = l2\<rparr>"

lemma wit_cp_sel [simp]: "cp_l2_block (wit_cp l1 l2) = l2"
  by (simp add: wit_cp_def)

theorem resume_for_recorded_witness:
  "resume_for (recorded [wit_cp 1 10, wit_cp 2 10, wit_cp 3 20]) 15 = Some (wit_cp 2 10)
    \<and> newest_at [wit_cp 1 10, wit_cp 2 10, wit_cp 3 20] 10 = wit_cp 2 10"
  using resume_for_recorded [of "[wit_cp 1 10, wit_cp 2 10, wit_cp 3 20]" 15]
  by (simp add: recorded_def record_cp_def compact_history_def RECENT_CHECKPOINTS_def resume_for_def)

text \<open>Rewinding keeps exactly what resuming below the new tip needs.\<close>

lemma truncate_to_resume:
  assumes "ascending (checkpoints log)" "truncate_to log tip = (log', newest)"
  shows "newest = resume_for log tip" "t \<le> tip \<Longrightarrow> resume_for log' t = resume_for log t"
proof -
  have *: "find P (rev (filter Q xs)) = find P (rev xs)" if "\<And>x. P x \<Longrightarrow> Q x" for P Q and xs :: "L1ResumeCheckpoint list"
    using that by (induction xs rule: rev_induct) auto
  have **: "find Q (rev xs) = (if filter Q xs = [] then None else Some (last (filter Q xs)))" for Q and xs :: "L1ResumeCheckpoint list"
    by (induction xs rule: rev_induct) auto
  show "newest = resume_for log tip"
    using assms(2) ** [of "\<lambda>cp. cp_l2_block cp \<le> tip" "checkpoints log"] by (auto simp: truncate_to_def resume_for_def Let_def)
  show "resume_for log' t = resume_for log t" if "t \<le> tip"
    using assms(2) that * [of "\<lambda>cp. cp_l2_block cp \<le> t" "\<lambda>cp. cp_l2_block cp \<le> tip"]
    by (auto simp: truncate_to_def resume_for_def Let_def)
qed

section \<open>Replacing the file\<close>

lemma resume_tmp_neq:
  assumes "path_parent p = Some d"
  shows "resume_tmp d p pid stamp \<noteq> p"
proof -
  from assms obtain n where p: "p = d @ [n]"
    by (cases p rule: rev_cases) (auto simp: path_parent_def)
  have "''.'' @ n @ rest \<noteq> n" for rest
    by (rule notI, drule arg_cong [where f = length]) simp
  then show ?thesis
    by (cases "n = ''..''") (simp_all add: p resume_tmp_def path_join_def path_file_name_def)
qed

lemma save_body_meets:
  assumes "tmp \<noteq> p" "path_parent p = Some d" "Some (json @ [10]) \<in> C"
  shows "meets (guarded C p) (save_body json tmp p d) (\<lambda>_ dk. guarded C p dk \<and> durably_placed (json @ [10]) p dk) (guarded C p)"
proof -
  note wr = write_all_meets [of C p tmp]
  show ?thesis
    unfolding save_body_def
    by (rule meets_bind [OF create_new_meets [OF assms(1)]] meets_bind [OF wr [of _ "[]" json, simplified]]
        meets_bind [OF wr [of _ json "[10]"]] meets_bind [OF sync_all_meets]
        meets_bind [OF rename_meets [OF assms(1,3)]] sync_dir_meets [OF assms(2)])+
qed

lemma save_meets:
  assumes "path_parent p = Some d" "Some (rj_to_vec js log @ [10]) \<in> C"
  shows "meets (guarded C p) (save js log p pid stamp)
    (\<lambda>_ dk. guarded C p dk \<and> durably_placed (rj_to_vec js log @ [10]) p dk) (guarded C p)"
proof -
  have "meets (guarded C p) (create_dir_all d) (\<lambda>_. guarded C p) (guarded C p)"
    unfolding create_dir_all_def
    by (rule meets_attempt) (auto simp: meets_def add_dirs_def disk_defs split: option.splits)
  then show ?thesis
    unfolding save_def assms(1) option.case Let_def
    by (rule meets_bind)
      (rule meets_finally [OF save_body_meets]; simp add: remove_file_keeps resume_tmp_neq assms)
qed

text \<open>Whatever becomes of a save, the name stays in order.\<close>

lemma save_guarded:
  assumes "guarded C p dk" "Some (rj_to_vec js log @ [10]) \<in> C"
  shows "guarded C p (fst (save js log p pid stamp dk))"
proof (cases "path_parent p")
  case None
  with assms show ?thesis by (simp add: save_def io_err_def)
next
  case (Some d)
  have "meets (guarded C p) (save js log p pid stamp) (\<lambda>_. guarded C p) (guarded C p)"
    by (rule meets_weaken [OF save_meets [OF Some assms(2)]]) auto
  from meets_keeps [OF this assms(1)] show ?thesis .
qed

text \<open>A save syncs the directory of the log, but none of the directories above it.\<close>

lemma save_keeps_secure: "keeps_secure p (save js log p pid stamp)"
proof (cases "path_parent p")
  case (Some d)
  then show ?thesis unfolding save_def save_body_def Let_def by (auto intro!: keeps_secure_intros)
qed (auto simp: save_def intro: keeps_err)

text \<open>What \<open>load\<close> makes of a file's content.\<close>

definition parse_content :: "resume_json \<Rightarrow> bytes option \<Rightarrow> L1ResumeLog option" where
  "parse_content js c = (case c of None \<Rightarrow> None | Some bs \<Rightarrow> (case rj_log js bs of
       Inr log \<Rightarrow> Some log
     | Inl e \<Rightarrow> (case rj_checkpoint js bs of Inl e \<Rightarrow> None | Inr cp \<Rightarrow> Some \<lparr>checkpoints = [cp]\<rparr>)))"

lemma load_running: "dk_sched dk = [] \<Longrightarrow> load js p dk = parse_content js (content dk p)"
  by (simp add: load_def read_file_def attempt_def parse_content_def content_def split: option.splits)

lemma load_crashed: "load js p (crash keep junk dk) = parse_content js (content (crash keep junk dk) p)"
  by (rule load_running) (simp add: crash_def)

text \<open>The recovery reader takes every log the recorder can have written.\<close>

lemma load_strict_recorded:
  assumes "sorted (map cp_l2_block cps)" "snd (read_file p dk) = Inr bs" "rj_log js bs = Inr (recorded cps)"
  shows "load_strict js show_io p dk = Inr (recorded cps)"
  using assms recorded_inv [OF assms(1)] by (simp add: load_strict_def windows_ascend_iff log_inv_def)

text \<open>C9: however the saving of a log is cut short (an operation fails, or power is lost before
  any of them) and whatever a crash then does to unsynced data and names, the file read back is
  the log it held before or the new log, never a mixture; once the save has returned, it is the
  new log, unless the log's directory is itself not yet on stable storage. The save creates a missing
  directory and does not sync the one above it, so then, and only then, a crash can take the log away.\<close>

theorem save_crash_safe:
  assumes "rj_log js (rj_to_vec js log @ [10]) = Inr log" and "settled p dk"
    and "save js log p pid stamp dk = (dk', result)"
  shows "load js p (crash keep junk dk') \<in> {load js p (crash keep' junk' dk), Some log}
    \<and> (result = Inr () \<longrightarrow> (if secure p dk then load js p (crash keep junk dk') = Some log
          else load js p (crash (\<lambda>_. False) junk dk') = None \<and> load js p (dk'\<lparr>dk_sched := []\<rparr>) = Some log))"
proof (cases "path_parent p")
  case None
  then show ?thesis using assms(2,3)
    by (auto simp: save_def io_err_def load_crashed crash_settled)
next
  case (Some d)
  let ?new = "rj_to_vec js log @ [10]"
  have new: "parse_content js (Some ?new) = Some log" using assms(1) by (simp add: parse_content_def)
  let ?C = "{content dk p, Some ?new}"
  have q: "guarded ?C p dk'" "result = Inr () \<Longrightarrow> durably_placed ?new p dk'"
    using save_meets [OF Some, of js log ?C, unfolded meets_def, rule_format, OF _ guarded_start [OF assms(2)], of pid stamp]
    by (cases result; simp add: assms(3))+
  have sec: "secure p dk' = secure p dk" by (rule keeps_secureD [OF save_keeps_secure assms(3)])
  have "load js p (crash keep junk dk') \<in> {load js p (crash keep' junk' dk), Some log}"
    using crash_guarded [OF q(1), of keep junk] new by (auto simp: load_crashed crash_settled [OF assms(2)])
  moreover have "load js p (crash keep junk dk') = Some log" if "result = Inr ()" "secure p dk"
    using crash_durable [OF q(2) [OF that(1)]] that(2) sec new by (simp add: load_crashed)
  moreover have "load js p (crash (\<lambda>_. False) junk dk') = None \<and> load js p (dk'\<lparr>dk_sched := []\<rparr>) = Some log"
    if "result = Inr ()" "\<not> secure p dk"
  proof -
    have "content (dk'\<lparr>dk_sched := []\<rparr>) p = Some ?new"
      using q(2) [OF that(1)] by (auto simp: durably_placed_def placed_def content_def)
    then show ?thesis using crash_lost [of p dk' junk] that(2) sec new by (simp add: load_crashed load_running parse_content_def)
  qed
  ultimately show ?thesis by auto
qed

text \<open>A codec that reads back what it writes: the three numbers of each checkpoint, big-endian.\<close>

definition enc_cp :: "L1ResumeCheckpoint \<Rightarrow> bytes" where
  "enc_cp cp = u64_to_be (cp_l1_block cp) @ u64_to_be (cp_delayed_count cp) @ u64_to_be (cp_l2_block cp)"

function dec_cps :: "bytes \<Rightarrow> L1ResumeCheckpoint list" where
  "dec_cps bs = (if length bs < 24 then []
     else \<lparr>cp_l1_block = u64_of_be (take 8 bs), cp_delayed_count = u64_of_be (take 8 (drop 8 bs)),
           cp_l2_block = u64_of_be (take 8 (drop 16 bs))\<rparr> # dec_cps (drop 24 bs))"
  by pat_completeness auto

termination dec_cps
  by (relation "measure length") auto

declare dec_cps.simps [simp del]

definition wit_json :: resume_json where
  "wit_json = \<lparr>rj_to_vec = \<lambda>log. concat (map enc_cp (checkpoints log)), rj_log = \<lambda>bs. Inr \<lparr>checkpoints = dec_cps bs\<rparr>,
     rj_checkpoint = \<lambda>_. Inl []\<rparr>"

lemma dec_enc_cps: "dec_cps (concat (map enc_cp cps) @ [b]) = cps"
  by (induction cps) (simp_all add: dec_cps.simps enc_cp_def)

lemma wit_json_ok: "rj_log wit_json (rj_to_vec wit_json log @ [10]) = Inr log"
  by (simp add: wit_json_def dec_enc_cps)

definition wit_disk :: "outcome list \<Rightarrow> disk" where
  "wit_disk sched = \<lparr>dk_names = Map.empty, dk_durable = Map.empty, dk_data = \<lambda>_. [], dk_synced = \<lambda>_. True,
     dk_next = 0, dk_dirs = \<lambda>_. False, dk_durable_dirs = \<lambda>_. False, dk_sched = sched\<rparr>"

abbreviation wit_save :: "outcome list \<Rightarrow> disk \<times> (IoError + unit)" where
  "wit_save sched \<equiv> save wit_json \<lparr>checkpoints = [wit_cp 3 20]\<rparr> (path_in []) 1 2 (wit_disk sched)"

text \<open>At the witness: power lost before the rename leaves no file, a full run leaves the log.\<close>

theorem save_crash_safe_witness:
  "load wit_json (path_in []) (crash (\<lambda>_. True) (\<lambda>_. []) (fst (wit_save [Done, Done, Done, Done, PowerLoss]))) = None
    \<and> load wit_json (path_in []) (crash (\<lambda>_. False) (\<lambda>_. []) (fst (wit_save []))) = Some \<lparr>checkpoints = [wit_cp 3 20]\<rparr>"
proof -
  note run = save_def path_in_def path_parent_def io_bind_def create_dir_all_def attempt_def
      wit_disk_def io_return_def Let_def io_finally_def save_body_def resume_tmp_def path_file_name_def path_join_def
      create_new_def write_all_def put_bytes_def sync_all_def rename_def remove_file_def RESUME_FILE_NAME_def sync_dir_def
      add_dirs_def dir_exists_def
  have settled: "settled (path_in []) (wit_disk s)" "secure (path_in []) (wit_disk s)" for s
    by (simp_all add: settled_def wit_disk_def secure_def path_in_def path_join_def)
  have "snd (wit_save []) = Inr ()" by (simp add: run)
  then have full: "wit_save [] = (fst (wit_save []), Inr ())" by (metis prod.collapse)
  show ?thesis
    using save_crash_safe [OF wit_json_ok settled(1) full, where keep = "\<lambda>_. False" and junk = "\<lambda>_. []"] settled(2)
    by (simp add: run load_def crash_def crash_entry_def reachable_def read_file_def)
qed

end
