(* ===== verification/L1_Sync.thy ===== *)
theory L1_Sync
  imports L1_Range Resume_Log
begin

text \<open>
  The parts of the catch-up runtime (\<open>crates/arb-reth-sync/src/l1_sync.rs\<close>) around its main loop:
  errors and the redaction of their messages, the configuration, the choice of a resume point, the
  retry backoff, the numbering of derived messages and the checkpoint writer.

  Strings are UTF-8 byte strings. A panic of the redaction (a slice inside a character) is \<open>None\<close>.
  Durations are whole nanoseconds below \<open>DURATION_LIMIT\<close>.
\<close>

section \<open>Errors\<close>

datatype L1SyncError =
    Provider string string
  | Derivation string L1Error
  | InvalidRpcUrl
  | PersistedTip string
  | PrefetchTask u64 u64
  | FrontierNotReached u64 u64

datatype L1SyncCompletion = Exhausted | FrontierReached u64

definition is_retryable :: "L1SyncError \<Rightarrow> bool" where
  "is_retryable e = (case e of Provider _ _ \<Rightarrow> True | _ \<Rightarrow> False)"

fun find_sub :: "string \<Rightarrow> string \<Rightarrow> nat option" where
  "find_sub pat [] = (if pat = [] then Some 0 else None)"
| "find_sub pat (c # cs) = (if take (length pat) (c # cs) = pat then Some 0 else map_option Suc (find_sub pat cs))"

definition scheme_char :: "char \<Rightarrow> bool" where
  "scheme_char c = (let n = of_char c :: nat in
     48 \<le> n \<and> n \<le> 57 \<or> 65 \<le> n \<and> n \<le> 90 \<or> 97 \<le> n \<and> n \<le> 122 \<or> c = CHR ''+'' \<or> c = CHR ''-'' \<or> c = CHR ''.'')"

text \<open>Start of the scheme in the text before the separator: one past the start of the last character
  that cannot belong to it, which is inside that character unless it is a single byte.\<close>

definition scheme_start :: "string \<Rightarrow> nat option" where
  "scheme_start before = (case dropWhile scheme_char (rev before) of
       [] \<Rightarrow> Some 0
     | c # cs \<Rightarrow> if of_char c \<ge> (128 :: nat) then None else Some (length cs + 1))"

text \<open>White space, as UTF-8 sequences.\<close>

definition whitespace_seqs :: "nat list list" where
  "whitespace_seqs = [[9], [10], [11], [12], [13], [32], [0xC2, 0x85], [0xC2, 0xA0], [0xE1, 0x9A, 0x80],
     [0xE2, 0x80, 0x80], [0xE2, 0x80, 0x81], [0xE2, 0x80, 0x82], [0xE2, 0x80, 0x83], [0xE2, 0x80, 0x84],
     [0xE2, 0x80, 0x85], [0xE2, 0x80, 0x86], [0xE2, 0x80, 0x87], [0xE2, 0x80, 0x88], [0xE2, 0x80, 0x89],
     [0xE2, 0x80, 0x8A], [0xE2, 0x80, 0xA8], [0xE2, 0x80, 0xA9], [0xE2, 0x80, 0xAF], [0xE2, 0x81, 0x9F],
     [0xE3, 0x80, 0x80]]"

definition ends_url :: "string \<Rightarrow> bool" where
  "ends_url s = (s \<noteq> [] \<and> (hd s = CHR '')'' \<or> hd s = CHR '','' \<or> hd s = CHR 0x22)
     \<or> list_ex (\<lambda>w. take (length w) (map of_char s) = w) whitespace_seqs)"

fun url_tail :: "string \<Rightarrow> string" where
  "url_tail [] = []"
| "url_tail (c # cs) = (if ends_url (c # cs) then c # cs else url_tail cs)"

lemma length_url_tail: "length (url_tail s) \<le> length s"
  by (induction s) auto

function redact_urls :: "string \<Rightarrow> string option" where
  "redact_urls rest = (case find_sub ''://'' rest of
       None \<Rightarrow> Some rest
     | Some sep \<Rightarrow> (case scheme_start (take sep rest) of
          None \<Rightarrow> None
        | Some k \<Rightarrow> map_option (\<lambda>more. take k rest @ ''<redacted-url>'' @ more)
                     (redact_urls (url_tail (drop (sep + 3) rest)))))"
  by pat_completeness auto

lemma find_sub_bound: "find_sub pat s = Some i \<Longrightarrow> i + length pat \<le> length s \<and> take (length pat) (drop i s) = pat"
  by (induction s arbitrary: i) (auto split: if_splits dest: arg_cong [where f = length])

termination redact_urls
proof (relation "measure length")
  fix rest sep x assume "find_sub ''://'' rest = Some sep"
  then have "length (drop (sep + 3) rest) < length rest" using find_sub_bound by fastforce
  then show "(url_tail (drop (sep + 3) rest), rest) \<in> measure length"
    using length_url_tail [of "drop (sep + 3) rest"] by simp
qed simp

declare redact_urls.simps [simp del]

text \<open>\<open>L1SyncError::l1\<close>. Only the transport error's text is redacted and kept.\<close>

definition sync_l1 :: "string \<Rightarrow> L1Error \<Rightarrow> L1SyncError" where
  "sync_l1 operation source = (case source of
       Rpc e \<Rightarrow> (case redact_urls (''rpc: '' @ e) of
          Some detail \<Rightarrow> Provider operation detail
        | None \<Rightarrow> Derivation operation (Panic ''byte index is not a char boundary''))
     | _ \<Rightarrow> Derivation operation source)"

definition sync_provider :: "string \<Rightarrow> L1SyncError" where
  "sync_provider operation = Provider operation []"

definition sync_error_display :: "(L1Error \<Rightarrow> string) \<Rightarrow> L1SyncError \<Rightarrow> string" where
  "sync_error_display show_l1 e = (case e of
       Provider operation detail \<Rightarrow>
         if detail = [] then ''transient L1 provider failure during '' @ operation
         else ''transient L1 provider failure during '' @ operation @ '': '' @ detail
     | Derivation operation source \<Rightarrow>
         ''deterministic L1 derivation failure during '' @ operation @ '': '' @ show_l1 source
     | InvalidRpcUrl \<Rightarrow> ''invalid L1 RPC URL''
     | PersistedTip detail \<Rightarrow> ''failed to read persisted L2 tip: '' @ detail
     | PrefetchTask from_block to_block \<Rightarrow>
         ''L1 range prefetch task ['' @ dec (unat from_block) @ '', '' @ dec (unat to_block) @ ''] terminated unexpectedly''
     | FrontierNotReached frontier last_derived \<Rightarrow>
         ''L1 derivation ended at L2 block '' @ dec (unat last_derived) @ '' before requested frontier '' @ dec (unat frontier))"

section \<open>Configuration and resume point\<close>

record L1SyncConfig =
  cfg_l1_rpc :: string
  cfg_l1_beacon :: "string option"
  cfg_sequencer_inbox :: address
  cfg_bridge :: address
  cfg_start_block :: u64
  cfg_end_block :: "u64 option"
  cfg_start_delayed_count :: u64
  cfg_start_l2_block :: u64
  cfg_db_tip_l2 :: u64
  cfg_l2_frontier :: "u64 option"
  cfg_genesis_block :: u64
  cfg_checkpoint_path :: "path option"
  cfg_batch_window :: u64
  cfg_delayed_window :: u64
  cfg_confirmations :: u64
  cfg_poll_interval :: nat
  cfg_prefetch_windows :: u64

definition SEQUENCER_INBOX_MAINNET :: address where
  "SEQUENCER_INBOX_MAINNET = [0x1c, 0x47, 0x96, 0x75, 0xad, 0x55, 0x9d, 0xc1, 0x51, 0xf6, 0xec, 0x7e, 0xd3, 0xfb,
     0xf8, 0xce, 0xe7, 0x95, 0x82, 0xb6]"

definition BRIDGE_MAINNET :: address where
  "BRIDGE_MAINNET = [0x83, 0x15, 0x17, 0x7a, 0xb2, 0x97, 0xba, 0x92, 0xa0, 0x60, 0x54, 0xce, 0x80, 0xa6, 0x7e, 0xd4,
     0xdb, 0xd7, 0xed, 0x3a]"

definition mainnet :: "string \<Rightarrow> u64 \<Rightarrow> u64 \<Rightarrow> L1SyncConfig" where
  "mainnet l1_rpc start_block start_delayed_count = \<lparr>cfg_l1_rpc = l1_rpc, cfg_l1_beacon = None,
     cfg_sequencer_inbox = SEQUENCER_INBOX_MAINNET, cfg_bridge = BRIDGE_MAINNET, cfg_start_block = start_block,
     cfg_end_block = None, cfg_start_delayed_count = start_delayed_count, cfg_start_l2_block = 0, cfg_db_tip_l2 = 0,
     cfg_l2_frontier = None, cfg_genesis_block = 0, cfg_checkpoint_path = None, cfg_batch_window = 1000,
     cfg_delayed_window = DEFAULT_DELAYED_WINDOW, cfg_confirmations = 8, cfg_poll_interval = 12 * 10 ^ 9,
     cfg_prefetch_windows = 6\<rparr>"

record SyncProgress =
  sp_persisted_l2 :: u64
  sp_checkpoint_l1 :: u64
  sp_checkpoint_l2 :: u64

definition saved_checkpoint :: "resume_json \<Rightarrow> L1SyncConfig \<Rightarrow> u64 \<Rightarrow> disk \<Rightarrow> L1ResumeCheckpoint option" where
  "saved_checkpoint js cfg persisted_l2 dk =
     Option.bind (cfg_checkpoint_path cfg) (\<lambda>p. Option.bind (load js p dk) (\<lambda>log. resume_for log persisted_l2))"

definition progress :: "resume_json \<Rightarrow> L1SyncConfig \<Rightarrow> u64 \<Rightarrow> disk \<Rightarrow> SyncProgress" where
  "progress js cfg persisted_l2 dk = (let checkpoint = saved_checkpoint js cfg persisted_l2 dk in
     \<lparr>sp_persisted_l2 = persisted_l2,
      sp_checkpoint_l1 = (case checkpoint of None \<Rightarrow> cfg_start_block cfg | Some cp \<Rightarrow> cp_l1_block cp),
      sp_checkpoint_l2 = (case checkpoint of None \<Rightarrow> cfg_start_l2_block cfg | Some cp \<Rightarrow> cp_l2_block cp)\<rparr>)"

definition resume_config :: "resume_json \<Rightarrow> L1SyncConfig \<Rightarrow> u64 \<Rightarrow> disk \<Rightarrow> L1SyncConfig" where
  "resume_config js base persisted_l2 dk =
     (let next_cfg = base\<lparr>cfg_db_tip_l2 := persisted_l2\<rparr> in
      case saved_checkpoint js base persisted_l2 dk of
        None \<Rightarrow> next_cfg
      | Some cp \<Rightarrow> next_cfg\<lparr>cfg_start_block := cp_l1_block cp, cfg_start_delayed_count := cp_delayed_count cp,
                            cfg_start_l2_block := cp_l2_block cp\<rparr>)"

section \<open>Retry backoff\<close>

definition DURATION_LIMIT :: nat where
  "DURATION_LIMIT = 2 ^ 64 * 10 ^ 9"

definition RETRY_INITIAL_DELAY :: nat where
  "RETRY_INITIAL_DELAY = 10 ^ 9"

definition RETRY_MAX_DELAY :: nat where
  "RETRY_MAX_DELAY = 30 * 10 ^ 9"

record RetryBackoff =
  rb_failures_without_progress :: u32
  rb_initial :: nat
  rb_maximum :: nat

definition RetryBackoff_new :: "nat \<Rightarrow> nat \<Rightarrow> RetryBackoff" where
  "RetryBackoff_new initial maximum =
     \<lparr>rb_failures_without_progress = 0, rb_initial = initial, rb_maximum = maximum\<rparr>"

definition next_delay :: "bool \<Rightarrow> RetryBackoff \<Rightarrow> nat \<times> RetryBackoff" where
  "next_delay made_progress b =
     (let failures = if made_progress then 0 else rb_failures_without_progress b;
          exponent = unat (min failures 31);
          failures' = if failures = - 1 then failures else failures + 1;
          product = rb_initial b * 2 ^ exponent;
          base = min (if product < DURATION_LIMIT then product else rb_maximum b) (rb_maximum b);
          jitter_percent = unat ((failures' * 17) mod 21);
          jitter_nanos = min (base * jitter_percent) (2 ^ 128 - 1) div 100;
          jittered = min (base + min jitter_nanos (2 ^ 64 - 1)) (DURATION_LIMIT - 1)
      in (min jittered (rb_maximum b), b\<lparr>rb_failures_without_progress := failures'\<rparr>))"

section \<open>Delivering a window\<close>

record WindowDelivery =
  wd_skipped :: u64
  wd_frontier_reached :: "L1SyncCompletion option"

text \<open>The channel: the messages accepted so far, and how many more the receiver takes before it is
  dropped (\<open>None\<close>: it stays open).\<close>

record feed_sender =
  fs_sent :: "BroadcastFeedMessage list"
  fs_room :: "nat option"

definition feed_send :: "BroadcastFeedMessage \<Rightarrow> feed_sender \<Rightarrow> feed_sender option" where
  "feed_send m ch = (case fs_room ch of
       None \<Rightarrow> Some (ch\<lparr>fs_sent := fs_sent ch @ [m]\<rparr>)
     | Some 0 \<Rightarrow> None
     | Some (Suc n) \<Rightarrow> Some (ch\<lparr>fs_sent := fs_sent ch @ [m], fs_room := Some n\<rparr>))"

fun enqueue_loop ::
  "BroadcastFeedMessage list \<Rightarrow> u64 \<Rightarrow> u64 \<Rightarrow> u64 \<Rightarrow> u64 option \<Rightarrow> WindowDelivery \<Rightarrow> feed_sender
   \<Rightarrow> u64 \<times> feed_sender \<times> (unit + WindowDelivery)" where
  "enqueue_loop [] next_l2 db_tip_l2 genesis_block frontier delivery ch = (next_l2, ch, Inr delivery)"
| "enqueue_loop (msg # messages) next_l2 db_tip_l2 genesis_block frontier delivery ch =
     (let bn = next_l2; next_l2 = next_l2 + 1 in
      if bn \<le> db_tip_l2
      then enqueue_loop messages next_l2 db_tip_l2 genesis_block frontier
             (delivery\<lparr>wd_skipped := wd_skipped delivery + 1\<rparr>) ch
      else case feed_send (msg\<lparr>bf_sequence_number := bn - genesis_block\<rparr>) ch of
          None \<Rightarrow> (next_l2, ch, Inl ())
        | Some ch' \<Rightarrow>
            if frontier = Some bn
            then (next_l2, ch', Inr (delivery\<lparr>wd_frontier_reached := Some (FrontierReached bn)\<rparr>))
            else enqueue_loop messages next_l2 db_tip_l2 genesis_block frontier delivery ch')"

definition enqueue_derived_window ::
  "BroadcastFeedMessage list \<Rightarrow> u64 \<Rightarrow> u64 \<Rightarrow> u64 \<Rightarrow> u64 option \<Rightarrow> feed_sender
   \<Rightarrow> u64 \<times> feed_sender \<times> (unit + WindowDelivery)" where
  "enqueue_derived_window messages next_l2 db_tip_l2 genesis_block frontier ch =
     enqueue_loop messages next_l2 db_tip_l2 genesis_block frontier
       \<lparr>wd_skipped = 0, wd_frontier_reached = None\<rparr> ch"

section \<open>Writing checkpoints\<close>

fun flush_pending :: "u64 \<Rightarrow> L1ResumeCheckpoint list \<Rightarrow> L1ResumeLog \<Rightarrow> L1ResumeCheckpoint option
    \<Rightarrow> L1ResumeCheckpoint list \<times> L1ResumeLog \<times> L1ResumeCheckpoint option" where
  "flush_pending persisted [] log newest = ([], log, newest)"
| "flush_pending persisted (cp # pending) log newest =
     (if cp_l2_block cp \<le> persisted then flush_pending persisted pending (record_cp cp log) (Some cp)
      else (cp # pending, log, newest))"

definition maybe_write_checkpoint ::
  "resume_json \<Rightarrow> path option \<Rightarrow> nat \<Rightarrow> nat \<Rightarrow> u64 \<Rightarrow> L1ResumeLog \<Rightarrow> L1ResumeCheckpoint list \<Rightarrow> disk
   \<Rightarrow> L1ResumeLog \<times> L1ResumeCheckpoint list \<times> disk" where
  "maybe_write_checkpoint js path_opt pid stamp persisted log pending dk =
     (case path_opt of
        None \<Rightarrow> (log, pending, dk)
      | Some p \<Rightarrow>
          (case flush_pending persisted pending log None of
             (pending', log', None) \<Rightarrow> (log', pending', dk)
           | (pending', log', Some newest) \<Rightarrow> (log', pending', fst (save js log' p pid stamp dk))))"

section \<open>Redacted messages\<close>

definition has_url :: "string \<Rightarrow> bool" where
  "has_url s \<longleftrightarrow> (\<exists>p q. s = p @ ''://'' @ q)"

lemma find_sub_None: "find_sub ''://'' s = None \<Longrightarrow> \<not> has_url s"
proof (induction s)
  case (Cons c cs)
  show ?case
  proof
    assume "has_url (c # cs)"
    then obtain p q where "c # cs = p @ ''://'' @ q" by (auto simp: has_url_def)
    with Cons show False by (cases p) (auto simp: has_url_def split: if_splits)
  qed
qed (simp add: has_url_def)

lemma has_url_Cons: "has_url (c # s) \<longleftrightarrow> take 3 (c # s) = ''://'' \<or> has_url s"
proof
  assume "has_url (c # s)"
  then obtain p q where "c # s = p @ ''://'' @ q" by (auto simp: has_url_def)
  then show "take 3 (c # s) = ''://'' \<or> has_url s" by (cases p) (auto simp: has_url_def)
next
  assume *: "take 3 (c # s) = ''://'' \<or> has_url s"
  have "c # s = [] @ take 3 (c # s) @ drop 3 (c # s)" by simp
  with * show "has_url (c # s)" unfolding has_url_def by (metis append_Cons)
qed

lemma no_url_redacted: "\<not> has_url p \<Longrightarrow> \<not> has_url q \<Longrightarrow> \<not> has_url (p @ ''<redacted-url>'' @ q)"
proof (induction p)
  case (Cons c p)
  then show ?case by (cases p; cases "tl p") (auto simp: has_url_Cons)
qed (simp add: has_url_Cons)

lemma no_url_take: "find_sub ''://'' s = Some i \<Longrightarrow> k \<le> i \<Longrightarrow> \<not> has_url (take k s)"
proof (induction s arbitrary: i k)
  case (Cons c cs)
  show ?case
  proof (cases k)
    case (Suc k')
    with Cons.prems obtain i' where i': "find_sub ''://'' cs = Some i'" "k' \<le> i'" "take 3 (c # cs) \<noteq> ''://''"
      by (auto simp: numeral_2_eq_2 split: if_splits)
    have "take 3 (c # take k' cs) \<noteq> ''://''"
    proof
      assume "take 3 (c # take k' cs) = ''://''"
      moreover from this have "2 \<le> k'" by (cases k') (auto dest!: arg_cong [where f = length])
      ultimately show False using i'(3) by (simp add: take_Cons' min_def)
    qed
    with Cons.IH [OF i'(1,2)] Suc show ?thesis by (simp add: has_url_Cons)
  qed (simp add: has_url_def)
qed (simp add: has_url_def)

lemma scheme_start_bound: "scheme_start p = Some k \<Longrightarrow> k \<le> length p"
  using length_dropWhile_le [of scheme_char "rev p"] by (auto simp: scheme_start_def split: list.splits if_splits)

lemma redact_urls_no_url: "redact_urls m = Some out \<Longrightarrow> \<not> has_url out"
proof (induction m arbitrary: out rule: redact_urls.induct)
  case (1 rest)
  show ?case
  proof (cases "find_sub ''://'' rest")
    case None
    with 1(2) find_sub_None show ?thesis by (auto simp: redact_urls.simps [of rest])
  next
    case (Some sep)
    with 1(2) obtain k more where k: "scheme_start (take sep rest) = Some k"
      and more: "redact_urls (url_tail (drop (sep + 3) rest)) = Some more"
      and out: "out = take k rest @ ''<redacted-url>'' @ more"
      by (auto simp: redact_urls.simps [of rest] split: option.splits)
    have "k \<le> sep" using scheme_start_bound [OF k] by simp
    from no_url_take [OF Some this] 1(1) [OF Some k more] show ?thesis
      unfolding out by (rule no_url_redacted)
  qed
qed

lemma ascii_url_tail: "\<forall>c \<in> set s. of_char c < (128 :: nat) \<Longrightarrow> \<forall>c \<in> set (url_tail s). of_char c < (128 :: nat)"
  by (induction s) auto

lemma redact_urls_ascii: "\<forall>c \<in> set m. of_char c < (128 :: nat) \<Longrightarrow> redact_urls m \<noteq> None"
proof (induction m rule: redact_urls.induct)
  case (1 rest)
  have start: "scheme_start (take sep rest) \<noteq> None" for sep
  proof -
    have "of_char c < (128 :: nat)" if "dropWhile scheme_char (rev (take sep rest)) = c # cs" for c cs
      using 1(2) set_dropWhileD [of c scheme_char "rev (take sep rest)"] that by (auto dest: in_set_takeD)
    then show ?thesis by (force simp: scheme_start_def split: list.splits)
  qed
  have "\<forall>c \<in> set (drop (sep + 3) rest). of_char c < (128 :: nat)" for sep
    using 1(2) by (auto dest: in_set_dropD)
  from 1(1) ascii_url_tail [OF this] start show ?case
    by (subst redact_urls.simps) (force split: option.splits)
qed

text \<open>What stands between the separator and the end of the URL has no influence on the result.\<close>

lemma redact_urls_hides:
  assumes "find_sub ''://'' (p @ ''://'' @ b @ t) = Some (length p)"
    and "find_sub ''://'' (p @ ''://'' @ b' @ t) = Some (length p)"
    and "url_tail (b @ t) = t" and "url_tail (b' @ t) = t"
  shows "redact_urls (p @ ''://'' @ b @ t) = redact_urls (p @ ''://'' @ b' @ t)"
proof -
  have "redact_urls (p @ ''://'' @ d @ t) = (case scheme_start p of None \<Rightarrow> None
      | Some k \<Rightarrow> map_option (\<lambda>more. take k p @ ''<redacted-url>'' @ more) (redact_urls t))"
    if "find_sub ''://'' (p @ ''://'' @ d @ t) = Some (length p)" "url_tail (d @ t) = t" for d
    using that scheme_start_bound [of p] by (subst redact_urls.simps) (auto split: option.splits)
  with assms show ?thesis by metis
qed

text \<open>C12: a redacted message contains no URL separator, and what stood between a URL's separator
  and its end (where credentials are) has no influence on it. Redaction panics only on a message
  with a character outside ASCII.\<close>

theorem redact_urls_safe:
  "(case redact_urls m of
      None \<Rightarrow> \<exists>c \<in> set m. (128 :: nat) \<le> of_char c
    | Some out \<Rightarrow> \<not> has_url out)
   \<and> (find_sub ''://'' (p @ ''://'' @ b @ t) = Some (length p) \<and> find_sub ''://'' (p @ ''://'' @ b' @ t) = Some (length p)
      \<and> url_tail (b @ t) = t \<and> url_tail (b' @ t) = t
      \<longrightarrow> redact_urls (p @ ''://'' @ b @ t) = redact_urls (p @ ''://'' @ b' @ t))"
proof -
  have "case redact_urls m of None \<Rightarrow> \<exists>c \<in> set m. (128 :: nat) \<le> of_char c | Some out \<Rightarrow> \<not> has_url out"
    using redact_urls_no_url [of m] redact_urls_ascii [of m] by (cases "redact_urls m") force+
  then show ?thesis using redact_urls_hides [of p b t b'] by blast
qed

theorem redact_urls_safe_witness:
  "redact_urls ''429 https://u:pw@host/k (x)'' = redact_urls ''429 https://host/other-key (x)''
    \<and> \<not> has_url (the (redact_urls ''429 https://host/k''))"
proof -
  have "redact_urls ''429 https://host/k'' = Some ''429 <redacted-url>''"
    by (simp add: redact_urls.simps ends_url_def whitespace_seqs_def scheme_start_def scheme_char_def)
  then show ?thesis
    using redact_urls_safe [of "''429 https://host/k''" "''429 https''" "''u:pw@host/k''" "'' (x)''" "''host/other-key''"]
    by (simp add: ends_url_def whitespace_seqs_def)
qed

section \<open>Delays\<close>

text \<open>A retry waits at least the initial delay doubled per failure since the last progress (capped),
  and never more than the maximum.\<close>

lemma next_delay_bounds:
  assumes "rb_maximum b < DURATION_LIMIT"
    and "failures = (if made_progress then 0 else unat (rb_failures_without_progress b))"
    and "next_delay made_progress b = (delay, b')"
  shows "min (rb_initial b * 2 ^ min failures 31) (rb_maximum b) \<le> delay" "delay \<le> rb_maximum b"
    "unat (rb_failures_without_progress b') = min (Suc failures) (2 ^ 32 - 1)"
    "rb_initial b' = rb_initial b" "rb_maximum b' = rb_maximum b"
proof -
  let ?f = "if made_progress then 0 else rb_failures_without_progress b"
  have f: "unat ?f = failures" using assms(2) by simp
  have e: "unat (min ?f 31) = min failures 31" using f by (simp add: min_def word_le_nat_alt split: if_splits)
  obtain J where J: "delay = min (min (min (if rb_initial b * 2 ^ unat (min ?f 31) < DURATION_LIMIT
      then rb_initial b * 2 ^ unat (min ?f 31) else rb_maximum b) (rb_maximum b) + J) (DURATION_LIMIT - 1)) (rb_maximum b)"
    and b': "b' = b\<lparr>rb_failures_without_progress := if ?f = - 1 then ?f else ?f + 1\<rparr>"
    using assms(3) unfolding next_delay_def Let_def prod.inject by (metis (no_types))
  have lim: "min base m \<le> min (min (min base m + j) (DURATION_LIMIT - 1)) m" if "m < DURATION_LIMIT" for base m j
    using that by simp
  show "min (rb_initial b * 2 ^ min failures 31) (rb_maximum b) \<le> delay"
    unfolding J e using lim [OF assms(1), of "rb_initial b * 2 ^ min failures 31" J] assms(1) by auto
  show "delay \<le> rb_maximum b" unfolding J by simp
  show "rb_initial b' = rb_initial b" "rb_maximum b' = rb_maximum b" unfolding b' by simp_all
  show "unat (rb_failures_without_progress b') = min (Suc failures) (2 ^ 32 - 1)"
  proof (cases "?f = - 1")
    case True
    then have "unat (rb_failures_without_progress b') = 2 ^ 32 - 1" "failures = 2 ^ 32 - 1"
      using b' f unat_minus_1 [where 'a = 32] by simp_all
    then show ?thesis by simp
  next
    case False
    then have "1 + ?f \<noteq> 0" by (simp only: eq_neg_iff_add_eq_0 add.commute not_False_eq_True)
    then have suc: "unat (?f + 1) = Suc failures" using unatSuc [OF \<open>1 + ?f \<noteq> 0\<close>] f by (simp only: add.commute)
    have "Suc failures < 2 ^ 32" using unat_bound [of "?f + 1"] suc by simp
    moreover have "rb_failures_without_progress b' = ?f + 1" using b' False by simp
    ultimately show ?thesis using suc by (simp only: min_def) simp
  qed
qed

section \<open>Numbering\<close>

text \<open>What has been sent is numbered consecutively from the block after the tip up to the next block.\<close>

definition numbered_from :: "u64 \<Rightarrow> u64 \<Rightarrow> u64 \<Rightarrow> BroadcastFeedMessage list \<Rightarrow> bool" where
  "numbered_from tip genesis next_l2 sent \<longleftrightarrow>
     map bf_sequence_number sent = map (\<lambda>b. b - genesis) (u64_range (tip + 1) next_l2)"

lemma feed_send_Some: "feed_send m ch = Some ch' \<Longrightarrow> fs_sent ch' = fs_sent ch @ [m]"
  by (auto simp: feed_send_def split: option.splits nat.splits)

lemma enqueue_loop_grows:
  "enqueue_loop msgs n tip g fr d ch = (n', ch', r) \<Longrightarrow> \<exists>more. fs_sent ch' = fs_sent ch @ more"
proof (induction msgs arbitrary: n d ch)
  case (Cons m msgs)
  show ?case
  proof (cases "n \<le> tip")
    case True
    with Cons show ?thesis by (simp add: Let_def)
  next
    case False
    with Cons.prems Cons.IH [of "n + 1" d] show ?thesis
      by (fastforce simp: Let_def dest: feed_send_Some split: option.splits if_splits)
  qed
qed simp

lemma numbered_from_length: "numbered_from tip g n sent \<Longrightarrow> length sent = unat n - unat (tip + 1)"
  unfolding numbered_from_def by (metis length_map length_u64_range)

lemma numbered_from_snoc:
  assumes "numbered_from tip g n sent" "tip < n" "unat tip + 2 + length sent < 2 ^ 64"
  shows "numbered_from tip g (n + 1) (sent @ [m\<lparr>bf_sequence_number := n - g\<rparr>])" "unat (n + 1) = Suc (unat n)"
proof -
  have le: "tip + 1 \<le> n" by (rule less_imp_Suc_le [OF assms(2)])
  have tip1: "unat (tip + 1) = Suc (unat tip)" by (rule unat_Suc_less [OF assms(2)])
  have "unat n = Suc (unat tip) + length sent"
    using numbered_from_length [OF assms(1)] le tip1 by (simp add: word_le_nat_alt)
  with assms(3) have "n < u64_max" unfolding word_less_nat_alt unat_u64_max by simp
  from unat_Suc_less [OF this] show "unat (n + 1) = Suc (unat n)" .
  show "numbered_from tip g (n + 1) (sent @ [m\<lparr>bf_sequence_number := n - g\<rparr>])"
    using assms(1) u64_range_snoc [OF le \<open>n < u64_max\<close>] by (simp add: numbered_from_def)
qed

lemma numbered_from_skip:
  assumes "numbered_from tip g n sent" "n \<le> tip" "unat tip + 1 < 2 ^ 64"
  shows "numbered_from tip g (n + 1) sent"
proof -
  have "tip < u64_max" using assms(3) unfolding word_less_nat_alt unat_u64_max by simp
  then have tip1: "unat (tip + 1) = Suc (unat tip)" by (rule unat_Suc_less)
  have "n < u64_max" using assms(2) \<open>tip < u64_max\<close> by (rule le_less_trans)
  then have "unat (n + 1) = Suc (unat n)" by (rule unat_Suc_less)
  then have "n + 1 \<le> tip + 1" "n \<le> tip + 1" using assms(2) tip1 by (simp_all add: word_le_nat_alt)
  with assms(1) show ?thesis by (simp add: numbered_from_def)
qed

lemma enqueue_loop_numbered:
  assumes "enqueue_loop msgs n tip g fr d ch = (n', ch', r)" "numbered_from tip g n (fs_sent ch)"
    and "unat tip + 1 + length (fs_sent ch') < 2 ^ 64"
  shows "case r of Inl _ \<Rightarrow> numbered_from tip g (n' - 1) (fs_sent ch') | Inr _ \<Rightarrow> numbered_from tip g n' (fs_sent ch')"
  using assms
proof (induction msgs arbitrary: n d ch)
  case (Cons m msgs)
  show ?case
  proof (cases "n \<le> tip")
    case True
    with Cons numbered_from_skip [OF Cons.prems(2) True] show ?thesis by (auto simp: Let_def)
  next
    case False
    show ?thesis
    proof (cases "feed_send (m\<lparr>bf_sequence_number := n - g\<rparr>) ch")
      case None
      with False Cons.prems show ?thesis by (auto simp: Let_def)
    next
      case (Some ch1)
      note sent = feed_send_Some [OF Some]
      have "length (fs_sent ch1) \<le> length (fs_sent ch')"
        using Cons.prems(1) False Some enqueue_loop_grows [of msgs "n + 1" tip g fr d ch1 n' ch' r]
        by (auto simp: Let_def split: if_splits)
      then have "numbered_from tip g (n + 1) (fs_sent ch1)"
        using numbered_from_snoc(1) [OF Cons.prems(2)] False Cons.prems(3) sent by simp
      with Cons.IH [of "n + 1" d ch1] Cons.prems False Some show ?thesis by (auto simp: Let_def split: if_splits)
    qed
  qed
qed auto

text \<open>With a frontier above the tip, delivery never passes it and stops on it exactly.\<close>

lemma enqueue_loop_frontier:
  assumes "enqueue_loop msgs n tip g (Some f) d ch = (n', ch', r)" "n \<le> f" "tip < f"
    and "wd_frontier_reached d = None"
  shows "case r of Inl _ \<Rightarrow> n' - 1 \<le> f
    | Inr d' \<Rightarrow> (case wd_frontier_reached d' of None \<Rightarrow> n' \<le> f | Some c \<Rightarrow> c = FrontierReached f \<and> n' = f + 1)"
  using assms
proof (induction msgs arbitrary: n d ch)
  case (Cons m msgs)
  have step: "n + 1 \<le> f" if "n \<noteq> f" using Cons.prems(2) that by (intro less_imp_Suc_le) simp
  show ?case
  proof (cases "n \<le> tip")
    case True
    with Cons.prems(3) have "n \<noteq> f" by auto
    with Cons.IH [OF _ step] Cons.prems True show ?thesis by (simp add: Let_def)
  next
    case False
    show ?thesis
    proof (cases "feed_send (m\<lparr>bf_sequence_number := n - g\<rparr>) ch")
      case None
      with False Cons.prems(1,2) show ?thesis by (auto simp: Let_def)
    next
      case (Some ch1)
      show ?thesis
      proof (cases "n = f")
        case True
        with False Some Cons.prems(1) show ?thesis by (auto simp: Let_def)
      next
        case neq: False
        with False Some Cons.prems(1) have "enqueue_loop msgs (n + 1) tip g (Some f) d ch1 = (n', ch', r)"
          by (simp add: Let_def)
        from Cons.IH [OF this step [OF neq] Cons.prems(3,4)] show ?thesis .
      qed
    qed
  qed
qed auto

section \<open>Checkpoints are durable\<close>

lemma flush_pending_spec:
  "flush_pending persisted pending log newest = (pending', log', newest') \<Longrightarrow>
     \<exists>moved. pending = moved @ pending' \<and> (\<forall>cp \<in> set moved. cp_l2_block cp \<le> persisted)
       \<and> log' = fold record_cp moved log \<and> (pending' \<noteq> [] \<longrightarrow> persisted < cp_l2_block (hd pending'))"
proof (induction pending arbitrary: log newest)
  case (Cons cp pending)
  show ?case
  proof (cases "cp_l2_block cp \<le> persisted")
    case True
    with Cons obtain moved where "pending = moved @ pending'" "\<forall>cp \<in> set moved. cp_l2_block cp \<le> persisted"
      "log' = fold record_cp moved (record_cp cp log)" "pending' \<noteq> [] \<longrightarrow> persisted < cp_l2_block (hd pending')"
      by fastforce
    with True show ?thesis by (intro exI [of _ "cp # moved"]) simp
  next
    case False
    with Cons.prems show ?thesis by auto
  qed
qed simp

lemma set_compact_history: "set (checkpoints (compact_history log)) \<subseteq> set (checkpoints log)"
  using list_emb_set [OF compact_history_subseq [of log]] by auto

lemma set_record_cp: "set (checkpoints (record_cp cp log)) \<subseteq> insert cp (set (checkpoints log))"
  unfolding record_cp_def by (rule order_trans [OF set_compact_history]) (auto dest: in_set_butlastD)

lemma set_fold_record: "set (checkpoints (fold record_cp cps log)) \<subseteq> set cps \<union> set (checkpoints log)"
proof (induction cps arbitrary: log)
  case (Cons cp cps)
  from Cons [of "record_cp cp log"] set_record_cp [of cp log] show ?case by auto
qed simp

end
