(* ===== verification/L1_Run.thy ===== *)
theory L1_Run
  imports L1_Sync
begin

text \<open>
  The main loop of the catch-up runtime and its supervisor (\<open>run_l1_sync\<close> and \<open>supervise_l1_sync\<close> of
  \<open>crates/arb-reth-sync/src/l1_sync.rs\<close>).

  One turn of the loop is a function of the state and of what the outside answers during that turn (a
  \<open>tick\<close>): the readers over the L1 endpoints, the L1 head, whether the awaited task panicked, the
  durable L2 tip, and the time stamp a saved file is named with. A run consumes a list of ticks, and has
  no result when they end first: a run that follows the head never returns. A prefetch task reads the
  endpoints as they answer in the turn that spawns it.
\<close>

section \<open>State\<close>

record tick =
  tk_seq :: SequencerInboxReader
  tk_delayed :: DelayedInboxReader
  tk_beacon :: "BeaconClient option"
  tk_head :: "string + u64"
  tk_joined :: bool
  tk_persisted :: "L1SyncError + u64"
  tk_stamp :: nat

text \<open>What does not change during a run: the external codecs and whether the endpoint's URL parses.\<close>

record run_env =
  re_ext :: externals
  re_json :: resume_json
  re_pid :: nat
  re_url_ok :: bool

type_synonym task = "L1Error + (DeliveredBatch \<times> bytes) list"

record run_state =
  rs_delayed :: u64
  rs_delayed_cache :: DelayedCache
  rs_report_cache :: ReportStatsCache
  rs_consume_cursor :: u64
  rs_spawn_cursor :: u64
  rs_safe_head :: u64
  rs_next_l2 :: u64
  rs_pending :: "L1ResumeCheckpoint list"
  rs_log :: L1ResumeLog
  rs_inflight :: "(u64 \<times> u64 \<times> task) list"
  rs_seen_batch_count :: u64
  rs_head_batch_count :: u64
  rs_feed :: feed_sender
  rs_disk :: disk

datatype turn = Running run_state | Finished run_state "L1SyncError + L1SyncCompletion"

section \<open>One turn\<close>

definition l1_err :: "string \<Rightarrow> L1Error + 'a \<Rightarrow> L1SyncError + 'a" where
  "l1_err operation r = map_err (sync_l1 operation) r"

definition refresh_head :: "L1SyncConfig \<Rightarrow> tick \<Rightarrow> run_state \<Rightarrow> L1SyncError + run_state" where
  "refresh_head cfg t st =
     (if rs_spawn_cursor st > rs_safe_head st then
        rbind (map_err (\<lambda>_. sync_provider ''get_block_number'') (tk_head t)) (\<lambda>head.
        let safe_head = sat_sub head (cfg_confirmations cfg) in
        rbind (l1_err ''batchCount(safe_head)'' (batch_count (tk_seq t) safe_head)) (\<lambda>count.
        Inr (st\<lparr>rs_safe_head := safe_head, rs_head_batch_count := count\<rparr>)))
      else Inr st)"

definition count_at :: "string \<Rightarrow> tick \<Rightarrow> run_state \<Rightarrow> u64 \<Rightarrow> L1SyncError + u64" where
  "count_at operation t st b =
     (if b = rs_safe_head st then Inr (rs_head_batch_count st)
      else l1_err operation (batch_count (tk_seq t) b))"

definition past_end :: "L1SyncConfig \<Rightarrow> u64 \<Rightarrow> bool" where
  "past_end cfg cursor = (case cfg_end_block cfg of None \<Rightarrow> False | Some e \<Rightarrow> cursor > e)"

text \<open>Upper bound of a step, and the end of its first window.\<close>

definition scan_hi :: "L1SyncConfig \<Rightarrow> run_state \<Rightarrow> u64" where
  "scan_hi cfg st = (case cfg_end_block cfg of None \<Rightarrow> rs_safe_head st | Some e \<Rightarrow> min e (rs_safe_head st))"

definition win_to :: "L1SyncConfig \<Rightarrow> run_state \<Rightarrow> u64" where
  "win_to cfg st = min (rs_spawn_cursor st + max (cfg_batch_window cfg) 1 - 1) (scan_hi cfg st)"

definition barren_to :: "L1SyncConfig \<Rightarrow> tick \<Rightarrow> run_state \<Rightarrow> L1SyncError + u64" where
  "barren_to cfg t st =
     rbind (count_at ''batchCount(scan_hi)'' t st (scan_hi cfg st)) (\<lambda>hi_batch_count.
       if hi_batch_count = rs_seen_batch_count st then Inr (scan_hi cfg st)
       else rbind (l1_err ''first_block_with_batch_count_above''
              (first_block_with_batch_count_above (tk_seq t) (win_to cfg st + 1) (scan_hi cfg st)
                (rs_seen_batch_count st)))
              (\<lambda>b. Inr (b - 1)))"

definition fill_one :: "run_env \<Rightarrow> L1SyncConfig \<Rightarrow> tick \<Rightarrow> run_state \<Rightarrow> L1SyncError + run_state" where
  "fill_one env cfg t st =
     (let from_block = rs_spawn_cursor st; to_block = win_to cfg st in
      rbind (count_at ''batchCount(win_to)'' t st to_block) (\<lambda>win_batch_count.
        if win_batch_count > rs_seen_batch_count st then
          Inr (st\<lparr>rs_inflight := rs_inflight st @
                    [(from_block, to_block, resolve_batches (x_rlp (re_ext env)) (tk_seq t) (tk_beacon t) from_block to_block)],
                  rs_seen_batch_count := win_batch_count, rs_spawn_cursor := to_block + 1\<rparr>)
        else
          rbind (barren_to cfg t st) (\<lambda>to_block.
          Inr (st\<lparr>rs_inflight := rs_inflight st @ [(from_block, to_block, Inr [])],
                  rs_spawn_cursor := to_block + 1\<rparr>))))"

definition prefetch_of :: "L1SyncConfig \<Rightarrow> nat" where
  "prefetch_of cfg = unat (max (cfg_prefetch_windows cfg) 1)"

text \<open>The loop that fills the pipeline: at most as many rounds as there are free slots.\<close>

fun fill_loop :: "nat \<Rightarrow> run_env \<Rightarrow> L1SyncConfig \<Rightarrow> tick \<Rightarrow> run_state \<Rightarrow> L1SyncError + run_state" where
  "fill_loop 0 env cfg t st = Inr st"
| "fill_loop (Suc slots) env cfg t st =
     (if rs_spawn_cursor st \<le> rs_safe_head st \<and> \<not> past_end cfg (rs_spawn_cursor st)
      then rbind (fill_one env cfg t st) (fill_loop slots env cfg t)
      else Inr st)"

definition fill_pipeline :: "run_env \<Rightarrow> L1SyncConfig \<Rightarrow> tick \<Rightarrow> run_state \<Rightarrow> L1SyncError + run_state" where
  "fill_pipeline env cfg t st = fill_loop (prefetch_of cfg - length (rs_inflight st)) env cfg t st"

definition queue_checkpoint :: "run_env \<Rightarrow> L1SyncConfig \<Rightarrow> tick \<Rightarrow> run_state \<Rightarrow> turn" where
  "queue_checkpoint env cfg t st =
     (if cfg_checkpoint_path cfg = None then Running st
      else
        let st1 = st\<lparr>rs_pending := rs_pending st @ [\<lparr>cp_l1_block = rs_consume_cursor st,
                       cp_delayed_count = rs_delayed st, cp_l2_block = rs_next_l2 st - 1\<rparr>]\<rparr> in
        case tk_persisted t of
          Inl e \<Rightarrow> Finished st1 (Inl e)
        | Inr persisted \<Rightarrow>
            (case maybe_write_checkpoint (re_json env) (cfg_checkpoint_path cfg) (re_pid env) (tk_stamp t) persisted
                    (rs_log st1) (rs_pending st1) (rs_disk st1) of
               (log, pending, dk) \<Rightarrow> Running (st1\<lparr>rs_log := log, rs_pending := pending, rs_disk := dk\<rparr>)))"

text \<open>A task that panics fails its join.\<close>

definition task_panicked :: "task \<Rightarrow> bool" where
  "task_panicked result = (case result of Inl (Panic _) \<Rightarrow> True | _ \<Rightarrow> False)"

definition consume_window ::
  "run_env \<Rightarrow> L1SyncConfig \<Rightarrow> tick \<Rightarrow> u64 \<times> u64 \<times> task \<Rightarrow> run_state \<Rightarrow> turn" where
  "consume_window env cfg t w st =
     (case w of (from_block, to_block, result) \<Rightarrow>
        if \<not> tk_joined t \<or> task_panicked result then Finished st (Inl (PrefetchTask from_block to_block))
        else case l1_err ''resolve_batches'' result of
          Inl e \<Rightarrow> Finished st (Inl e)
        | Inr resolved \<Rightarrow>
            (case derive_from_resolved_cached (re_ext env) (tk_seq t) (tk_delayed t) resolved to_block (rs_delayed st)
                    (cfg_delayed_window cfg) (rs_delayed_cache st) (rs_report_cache st) of
               (dc, rc, derived) \<Rightarrow>
                 let st1 = st\<lparr>rs_delayed_cache := dc, rs_report_cache := rc\<rparr> in
                 case l1_err ''derive_from_resolved'' derived of
                   Inl e \<Rightarrow> Finished st1 (Inl e)
                 | Inr derived_range \<Rightarrow>
                     (case enqueue_derived_window (dr_messages derived_range) (rs_next_l2 st) (cfg_db_tip_l2 cfg)
                             (cfg_genesis_block cfg) (cfg_l2_frontier cfg) (rs_feed st) of
                        (next_l2, ch, delivery) \<Rightarrow>
                          let st2 = st1\<lparr>rs_next_l2 := next_l2, rs_feed := ch\<rparr> in
                          case delivery of
                            Inl _ \<Rightarrow> Finished st2 (Inr Exhausted)
                          | Inr d \<Rightarrow>
                              (case wd_frontier_reached d of
                                 Some completion \<Rightarrow> Finished st2 (Inr completion)
                               | None \<Rightarrow> queue_checkpoint env cfg t
                                   (st2\<lparr>rs_delayed := dr_next_delayed_count derived_range,
                                        rs_consume_cursor := to_block + 1\<rparr>)))))"

definition run_turn :: "run_env \<Rightarrow> L1SyncConfig \<Rightarrow> tick \<Rightarrow> run_state \<Rightarrow> turn" where
  "run_turn env cfg t st =
     (if past_end cfg (rs_consume_cursor st) then
        Finished st (case cfg_l2_frontier cfg of
            Some frontier \<Rightarrow> Inl (FrontierNotReached frontier (sat_sub (rs_next_l2 st) 1))
          | None \<Rightarrow> Inr Exhausted)
      else case rbind (refresh_head cfg t st) (fill_pipeline env cfg t) of
        Inl e \<Rightarrow> Finished st (Inl e)
      | Inr st1 \<Rightarrow>
          (case rs_inflight st1 of
             [] \<Rightarrow> Running st1
           | w # ws \<Rightarrow> consume_window env cfg t w (st1\<lparr>rs_inflight := ws\<rparr>)))"

section \<open>A run\<close>

definition first_count :: "L1SyncConfig \<Rightarrow> tick \<Rightarrow> run_state \<Rightarrow> turn" where
  "first_count cfg t st =
     (if cfg_start_block cfg = 0 then Running st
      else case l1_err ''batchCount(start_block-1)'' (batch_count (tk_seq t) (cfg_start_block cfg - 1)) of
        Inl e \<Rightarrow> Finished st (Inl e)
      | Inr seen \<Rightarrow> Running (st\<lparr>rs_seen_batch_count := seen\<rparr>))"

definition run_start :: "run_env \<Rightarrow> L1SyncConfig \<Rightarrow> tick \<Rightarrow> feed_sender \<Rightarrow> disk \<Rightarrow> turn" where
  "run_start env cfg t ch dk =
     (let st = \<lparr>rs_delayed = cfg_start_delayed_count cfg, rs_delayed_cache = DelayedCache_new, rs_report_cache = [],
          rs_consume_cursor = cfg_start_block cfg, rs_spawn_cursor = cfg_start_block cfg, rs_safe_head = 0,
          rs_next_l2 = cfg_start_l2_block cfg + 1, rs_pending = [],
          rs_log = (case Option.bind (cfg_checkpoint_path cfg) (\<lambda>p. load (re_json env) p dk) of
                      Some log \<Rightarrow> log | None \<Rightarrow> \<lparr>checkpoints = []\<rparr>),
          rs_inflight = [], rs_seen_batch_count = 0, rs_head_batch_count = 0, rs_feed = ch, rs_disk = dk\<rparr>
      in if \<not> re_url_ok env then Finished st (Inl InvalidRpcUrl)
         else case cfg_l2_frontier cfg of
           Some frontier \<Rightarrow>
             if frontier \<le> cfg_db_tip_l2 cfg then Finished st (Inr (FrontierReached frontier))
             else first_count cfg t st
         | None \<Rightarrow> first_count cfg t st)"

fun run_loop :: "run_env \<Rightarrow> L1SyncConfig \<Rightarrow> tick list \<Rightarrow> turn \<Rightarrow> run_state \<times> (L1SyncError + L1SyncCompletion) option" where
  "run_loop env cfg ts (Finished st r) = (st, Some r)"
| "run_loop env cfg [] (Running st) = (st, None)"
| "run_loop env cfg (t # ts) (Running st) = run_loop env cfg ts (run_turn env cfg t st)"

definition run_l1_sync ::
  "run_env \<Rightarrow> L1SyncConfig \<Rightarrow> tick \<Rightarrow> tick list \<Rightarrow> feed_sender \<Rightarrow> disk
   \<Rightarrow> run_state \<times> (L1SyncError + L1SyncCompletion) option" where
  "run_l1_sync env cfg t ts ch dk = run_loop env cfg ts (run_start env cfg t ch dk)"

section \<open>The supervisor\<close>

text \<open>One attempt: the durable tip before and after it, what the run meets, how many messages the
  receiver still takes, and whether shutdown arrives during the run or during the following delay.
  Shutdown takes effect between two turns.\<close>

record attempt =
  at_tip :: "L1SyncError + u64"
  at_tick :: tick
  at_ticks :: "tick list"
  at_room :: "nat option"
  at_shutdown :: bool
  at_tip_after :: "L1SyncError + u64"
  at_shutdown_in_delay :: bool

text \<open>What an attempt did: the tip it started from, what it sent, and the delay after it.\<close>

record attempt_log =
  al_tip :: u64
  al_sent :: "BroadcastFeedMessage list"
  al_delay :: "nat option"

fun supervise_loop ::
  "run_env \<Rightarrow> L1SyncConfig \<Rightarrow> attempt list \<Rightarrow> bool \<Rightarrow> RetryBackoff \<Rightarrow> disk
   \<Rightarrow> attempt_log list \<times> disk \<times> (L1SyncError + L1SyncCompletion) option" where
  "supervise_loop env base_cfg [] first_attempt backoff dk = ([], dk, None)"
| "supervise_loop env base_cfg (a # as) first_attempt backoff dk =
     (case at_tip a of
        Inl e \<Rightarrow> ([], dk, Some (Inl e))
      | Inr tip \<Rightarrow>
          let attempt_start = progress (re_json env) base_cfg tip dk;
              cfg = (if first_attempt then base_cfg\<lparr>cfg_db_tip_l2 := sp_persisted_l2 attempt_start\<rparr>
                     else resume_config (re_json env) base_cfg (sp_persisted_l2 attempt_start) dk)
          in case run_l1_sync env cfg (at_tick a) (at_ticks a) \<lparr>fs_sent = [], fs_room = at_room a\<rparr> dk of
               (st, r) \<Rightarrow>
                 let done = (\<lambda>delay. \<lparr>al_tip = tip, al_sent = fs_sent (rs_feed st), al_delay = delay\<rparr>) in
                 case r of
                   None \<Rightarrow> ([done None], rs_disk st, if at_shutdown a then Some (Inr Exhausted) else None)
                 | Some (Inr completion) \<Rightarrow> ([done None], rs_disk st, Some (Inr completion))
                 | Some (Inl e) \<Rightarrow>
                     if \<not> is_retryable e then ([done None], rs_disk st, Some (Inl e))
                     else case at_tip_after a of
                       Inl e' \<Rightarrow> ([done None], rs_disk st, Some (Inl e'))
                     | Inr tip' \<Rightarrow>
                         (case next_delay (progress (re_json env) base_cfg tip' (rs_disk st) \<noteq> attempt_start) backoff of
                            (delay, backoff') \<Rightarrow>
                              if at_shutdown_in_delay a
                              then ([done (Some delay)], rs_disk st, Some (Inr Exhausted))
                              else (case supervise_loop env base_cfg as False backoff' (rs_disk st) of
                                      (logs, dk', r') \<Rightarrow> (done (Some delay) # logs, dk', r'))))"

definition supervise_l1_sync_with_backoff ::
  "run_env \<Rightarrow> L1SyncConfig \<Rightarrow> attempt list \<Rightarrow> nat \<Rightarrow> nat \<Rightarrow> disk
   \<Rightarrow> attempt_log list \<times> disk \<times> (L1SyncError + L1SyncCompletion) option" where
  "supervise_l1_sync_with_backoff env base_cfg attempts initial_delay maximum_delay dk =
     supervise_loop env base_cfg attempts True (RetryBackoff_new initial_delay maximum_delay) dk"

definition supervise_l1_sync ::
  "run_env \<Rightarrow> L1SyncConfig \<Rightarrow> attempt list \<Rightarrow> disk
   \<Rightarrow> attempt_log list \<times> disk \<times> (L1SyncError + L1SyncCompletion) option" where
  "supervise_l1_sync env base_cfg attempts dk =
     supervise_l1_sync_with_backoff env base_cfg attempts RETRY_INITIAL_DELAY RETRY_MAX_DELAY dk"

section \<open>The stream of a run\<close>

definition streaming :: "L1SyncConfig \<Rightarrow> u64 \<Rightarrow> feed_sender \<Rightarrow> bool" where
  "streaming cfg n ch \<longleftrightarrow> numbered_from (cfg_db_tip_l2 cfg) (cfg_genesis_block cfg) n (fs_sent ch)"

definition short :: "L1SyncConfig \<Rightarrow> feed_sender \<Rightarrow> bool" where
  "short cfg ch \<longleftrightarrow> unat (cfg_db_tip_l2 cfg) + 1 + length (fs_sent ch) < 2 ^ 64"

definition stream_running :: "L1SyncConfig \<Rightarrow> run_state \<Rightarrow> bool" where
  "stream_running cfg st \<longleftrightarrow> streaming cfg (rs_next_l2 st) (rs_feed st)
     \<and> (\<forall>f. cfg_l2_frontier cfg = Some f \<longrightarrow> cfg_db_tip_l2 cfg < f \<and> rs_next_l2 st \<le> f)"

definition stream_ended :: "L1SyncConfig \<Rightarrow> run_state \<Rightarrow> L1SyncError + L1SyncCompletion \<Rightarrow> bool" where
  "stream_ended cfg st r \<longleftrightarrow> (\<exists>n. streaming cfg n (rs_feed st)
     \<and> (\<forall>f. cfg_l2_frontier cfg = Some f \<longrightarrow> fs_sent (rs_feed st) = [] \<or> unat n \<le> Suc (unat f))
     \<and> (\<forall>f. r = Inr (FrontierReached f) \<longrightarrow> cfg_l2_frontier cfg = Some f
            \<and> (f \<le> cfg_db_tip_l2 cfg \<and> fs_sent (rs_feed st) = [] \<or> cfg_db_tip_l2 cfg < f \<and> n = f + 1))
     \<and> (\<forall>f. cfg_l2_frontier cfg = Some f \<longrightarrow> cfg_db_tip_l2 cfg < f \<longrightarrow> r \<noteq> Inr (FrontierReached f) \<longrightarrow> n \<le> f))"

definition turn_streams :: "L1SyncConfig \<Rightarrow> turn \<Rightarrow> bool" where
  "turn_streams cfg T = (case T of Running st \<Rightarrow> stream_running cfg st | Finished st r \<Rightarrow> stream_ended cfg st r)"

fun turn_state :: "turn \<Rightarrow> run_state" where
  "turn_state (Running st) = st"
| "turn_state (Finished st r) = st"

text \<open>Filling the pipeline touches cursors, counts and tasks only.\<close>

definition same_output :: "run_state \<Rightarrow> run_state \<Rightarrow> bool" where
  "same_output st st' \<longleftrightarrow> rs_next_l2 st' = rs_next_l2 st \<and> rs_feed st' = rs_feed st \<and> rs_pending st' = rs_pending st
     \<and> rs_log st' = rs_log st \<and> rs_disk st' = rs_disk st \<and> rs_consume_cursor st' = rs_consume_cursor st
     \<and> rs_delayed st' = rs_delayed st"

lemma same_output_trans: "same_output a b \<Longrightarrow> same_output b c \<Longrightarrow> same_output a c"
  by (simp add: same_output_def)

lemma refresh_head_output: "refresh_head cfg t st = Inr st' \<Longrightarrow> same_output st st'"
  by (auto simp: refresh_head_def same_output_def Let_def result_simps split: if_splits)

lemma fill_one_cases:
  assumes "fill_one env cfg t st = Inr st'"
  obtains (scanned) c where "count_at ''batchCount(win_to)'' t st (win_to cfg st) = Inr c" "rs_seen_batch_count st < c"
      "st' = st\<lparr>rs_inflight := rs_inflight st @ [(rs_spawn_cursor st, win_to cfg st,
             resolve_batches (x_rlp (re_ext env)) (tk_seq t) (tk_beacon t) (rs_spawn_cursor st) (win_to cfg st))],
           rs_seen_batch_count := c, rs_spawn_cursor := win_to cfg st + 1\<rparr>"
  | (barren) c b where "count_at ''batchCount(win_to)'' t st (win_to cfg st) = Inr c" "c \<le> rs_seen_batch_count st"
      "barren_to cfg t st = Inr b"
      "st' = st\<lparr>rs_inflight := rs_inflight st @ [(rs_spawn_cursor st, b, Inr [])], rs_spawn_cursor := b + 1\<rparr>"
proof -
  from assms obtain c where c: "count_at ''batchCount(win_to)'' t st (win_to cfg st) = Inr c"
    unfolding fill_one_def Let_def rbind_eq_Inr by blast
  show ?thesis
  proof (cases "rs_seen_batch_count st < c")
    case True
    with assms c scanned show ?thesis by (simp add: fill_one_def Let_def)
  next
    case False
    with assms c obtain b where "barren_to cfg t st = Inr b"
      "st' = st\<lparr>rs_inflight := rs_inflight st @ [(rs_spawn_cursor st, b, Inr [])], rs_spawn_cursor := b + 1\<rparr>"
      by (auto simp: fill_one_def Let_def rbind_eq_Inr)
    with False c barren show ?thesis by simp
  qed
qed

lemma fill_one_output: "fill_one env cfg t st = Inr st' \<Longrightarrow> same_output st st'"
  by (erule fill_one_cases) (simp_all add: same_output_def)

lemma fill_loop_output: "fill_loop n env cfg t st = Inr st' \<Longrightarrow> same_output st st'"
proof (induction n arbitrary: st)
  case (Suc n)
  then show ?case
    by (auto simp: rbind_eq_Inr same_output_def [of st' st'] split: if_splits intro: same_output_trans fill_one_output)
qed (simp add: same_output_def)

lemma filled_output:
  "rbind (refresh_head cfg t st) (fill_pipeline env cfg t) = Inr st' \<Longrightarrow> same_output st st'"
  by (auto simp: rbind_eq_Inr fill_pipeline_def intro: same_output_trans refresh_head_output fill_loop_output)

lemma queue_checkpoint_output:
  assumes "queue_checkpoint env cfg t st = T"
  shows "rs_next_l2 (turn_state T) = rs_next_l2 st" "rs_feed (turn_state T) = rs_feed st"
    "T = Finished st' r \<Longrightarrow> \<exists>e. tk_persisted t = Inl e \<and> r = Inl e"
  using assms by (auto simp: queue_checkpoint_def Let_def split: if_splits sum.splits prod.splits)

lemma stream_ended_error: "stream_running cfg st \<Longrightarrow> rs_feed st' = rs_feed st \<Longrightarrow> stream_ended cfg st' (Inl e)"
  unfolding stream_running_def stream_ended_def
  by (rule exI [of _ "rs_next_l2 st"]) (auto simp: streaming_def word_le_nat_alt)

lemma enqueue_streams:
  assumes "stream_running cfg st"
    and enq: "enqueue_derived_window ms (rs_next_l2 st) (cfg_db_tip_l2 cfg) (cfg_genesis_block cfg) (cfg_l2_frontier cfg)
      (rs_feed st) = (n', ch', r)"
    and "short cfg ch'"
  shows "streaming cfg (case r of Inl _ \<Rightarrow> n' - 1 | Inr _ \<Rightarrow> n') ch'"
    and "cfg_l2_frontier cfg = Some f \<Longrightarrow> case r of Inl _ \<Rightarrow> n' - 1 \<le> f
      | Inr d \<Rightarrow> (case wd_frontier_reached d of None \<Rightarrow> n' \<le> f | Some c \<Rightarrow> c = FrontierReached f \<and> n' = f + 1)"
    and "cfg_l2_frontier cfg = None \<Longrightarrow> r = Inr d \<Longrightarrow> wd_frontier_reached d = None"
proof -
  note enq' = enq [unfolded enqueue_derived_window_def]
  show "streaming cfg (case r of Inl _ \<Rightarrow> n' - 1 | Inr _ \<Rightarrow> n') ch'"
    using enqueue_loop_numbered [OF enq'] assms(1,3)
    by (simp add: stream_running_def streaming_def short_def split: sum.splits)
  show "case r of Inl _ \<Rightarrow> n' - 1 \<le> f
      | Inr d \<Rightarrow> (case wd_frontier_reached d of None \<Rightarrow> n' \<le> f | Some c \<Rightarrow> c = FrontierReached f \<and> n' = f + 1)"
    if "cfg_l2_frontier cfg = Some f"
    using enqueue_loop_frontier [OF enq' [unfolded that]] assms(1) that by (simp add: stream_running_def)
  have "wd_frontier_reached d = None"
    if "enqueue_loop ms n tip g None d0 ch = (n', ch', Inr d)" "wd_frontier_reached d0 = None" for n tip g d0 ch
    using that by (induction ms arbitrary: n d0 ch) (auto simp: Let_def split: if_splits option.splits)
  then show "wd_frontier_reached d = None" if "cfg_l2_frontier cfg = None" "r = Inr d"
    using enq' that by auto
qed

lemma unat_pred_bound: "n - 1 \<le> (f :: u64) \<Longrightarrow> unat (n - 1) \<le> Suc (unat f)"
  by (simp add: word_le_nat_alt)

lemma unat_succ_bound: "unat ((f :: u64) + 1) \<le> Suc (unat f)"
  by (metis Suc_eq_plus1 unat_word_ariths(1) unat_1 mod_less_eq_dividend)

text \<open>What consuming a window comes down to.\<close>

lemma consume_window_cases:
  assumes "consume_window env cfg t w st = T"
  obtains (failed) st' e where "T = Finished st' (Inl e)" "same_output st st'"
  | (delivered) dc rc derived_range n' ch' r st2 where
      "derive_from_resolved_cached (re_ext env) (tk_seq t) (tk_delayed t) (projr (snd (snd w))) (fst (snd w)) (rs_delayed st)
         (cfg_delayed_window cfg) (rs_delayed_cache st) (rs_report_cache st) = (dc, rc, Inr derived_range)"
      "enqueue_derived_window (dr_messages derived_range) (rs_next_l2 st) (cfg_db_tip_l2 cfg)
         (cfg_genesis_block cfg) (cfg_l2_frontier cfg) (rs_feed st) = (n', ch', r)"
      "st2 = st\<lparr>rs_delayed_cache := dc, rs_report_cache := rc, rs_next_l2 := n', rs_feed := ch'\<rparr>"
      "T = (case r of Inl _ \<Rightarrow> Finished st2 (Inr Exhausted)
          | Inr d \<Rightarrow> (case wd_frontier_reached d of Some c \<Rightarrow> Finished st2 (Inr c)
             | None \<Rightarrow> queue_checkpoint env cfg t (st2\<lparr>rs_delayed := dr_next_delayed_count derived_range,
                         rs_consume_cursor := fst (snd w) + 1\<rparr>)))"
proof -
  obtain a b result where w: "w = (a, b, result)" by (cases w)
  obtain dc rc derived where d: "derive_from_resolved_cached (re_ext env) (tk_seq t) (tk_delayed t) (projr result) b
      (rs_delayed st) (cfg_delayed_window cfg) (rs_delayed_cache st) (rs_report_cache st) = (dc, rc, derived)"
    by (cases "derive_from_resolved_cached (re_ext env) (tk_seq t) (tk_delayed t) (projr result) b
      (rs_delayed st) (cfg_delayed_window cfg) (rs_delayed_cache st) (rs_report_cache st)") auto
  show ?thesis
  proof (cases "\<not> tk_joined t \<or> task_panicked result \<or> isl result \<or> isl derived")
    case True
    then show ?thesis using assms d
      by (intro failed [of "turn_state T" "projl (case T of Finished _ r \<Rightarrow> r)"])
        (auto simp: consume_window_def w l1_err_def map_err_def same_output_def Let_def isl_def split: sum.splits)
  next
    case False
    then obtain resolved derived_range where ok: "result = Inr resolved" "derived = Inr derived_range" "tk_joined t"
      "\<not> task_panicked result" by (cases result; cases derived) auto
    obtain n' ch' r where enq: "enqueue_derived_window (dr_messages derived_range) (rs_next_l2 st) (cfg_db_tip_l2 cfg)
         (cfg_genesis_block cfg) (cfg_l2_frontier cfg) (rs_feed st) = (n', ch', r)"
      by (cases "enqueue_derived_window (dr_messages derived_range) (rs_next_l2 st) (cfg_db_tip_l2 cfg)
         (cfg_genesis_block cfg) (cfg_l2_frontier cfg) (rs_feed st)") auto
    show ?thesis
      by (rule delivered [of dc rc derived_range, OF _ enq refl]) (use d ok enq in \<open>simp_all add: assms [symmetric] consume_window_def w l1_err_def Let_def split: sum.split option.split\<close>)
  qed
qed

lemma consume_window_streams:
  assumes "stream_running cfg st" "consume_window env cfg t w st = T" "short cfg (rs_feed (turn_state T))"
  shows "turn_streams cfg T"
  using assms(2)
proof (cases rule: consume_window_cases)
  case (failed st' e)
  then show ?thesis
    using stream_ended_error [OF assms(1), of st' e] by (simp add: turn_streams_def same_output_def)
next
  case (delivered dc rc derived_range n' ch' r st2)
  have "rs_feed (turn_state T) = ch'"
    using delivered(3,4) queue_checkpoint_output(2) by (auto split: sum.splits option.splits)
  then have ch: "short cfg ch'" using assms(3) by simp
  note enq = enqueue_streams [OF assms(1) delivered(2) ch]
  show ?thesis
  proof (cases r)
    case (Inl u)
    then have "stream_ended cfg st2 (Inr Exhausted)"
      using enq(1,2) unat_pred_bound unfolding stream_ended_def delivered(3) by fastforce
    then show ?thesis using Inl delivered(4) by (simp add: turn_streams_def)
  next
    case (Inr d)
    show ?thesis
    proof (cases "wd_frontier_reached d")
      case (Some c)
      then obtain f where f: "cfg_l2_frontier cfg = Some f" using enq(3) [OF _ Inr] by (cases "cfg_l2_frontier cfg") auto
      have "stream_ended cfg st2 (Inr c)"
        using enq(1) enq(2) [OF f] Inr Some f assms(1) unat_succ_bound
        unfolding stream_ended_def delivered(3) stream_running_def by (auto intro!: exI [of _ n'])
      then show ?thesis using Inr Some delivered(4) by (simp add: turn_streams_def)
    next
      case None
      let ?st = "st2\<lparr>rs_delayed := dr_next_delayed_count derived_range, rs_consume_cursor := fst (snd w) + 1\<rparr>"
      have run: "stream_running cfg ?st"
        using enq(1,2) Inr None assms(1) unfolding stream_running_def delivered(3) by force
      have T: "queue_checkpoint env cfg t ?st = T" using delivered(4) Inr None by simp
      show ?thesis
        using run stream_ended_error [OF run] queue_checkpoint_output [OF T]
        by (cases T) (auto simp: turn_streams_def stream_running_def)
    qed
  qed
qed

lemma run_turn_cases:
  assumes "run_turn env cfg t st = T"
  obtains (past) "past_end cfg (rs_consume_cursor st)"
      "T = Finished st (case cfg_l2_frontier cfg of
            Some frontier \<Rightarrow> Inl (FrontierNotReached frontier (sat_sub (rs_next_l2 st) 1)) | None \<Rightarrow> Inr Exhausted)"
  | (failed) e where "T = Finished st (Inl e)"
  | (waiting) st1 where "rbind (refresh_head cfg t st) (fill_pipeline env cfg t) = Inr st1" "rs_inflight st1 = []" "T = Running st1"
  | (consumed) st1 w ws where "rbind (refresh_head cfg t st) (fill_pipeline env cfg t) = Inr st1"
      "rs_inflight st1 = w # ws" "consume_window env cfg t w (st1\<lparr>rs_inflight := ws\<rparr>) = T"
proof (cases "past_end cfg (rs_consume_cursor st)")
  case True
  with assms past show ?thesis by (simp add: run_turn_def)
next
  case False
  show ?thesis
  proof (cases "rbind (refresh_head cfg t st) (fill_pipeline env cfg t)")
    case (Inl e)
    with False assms failed [of e] show ?thesis by (simp add: run_turn_def)
  next
    case (Inr st1)
    with False assms waiting [OF Inr] consumed [OF Inr] show ?thesis
      by (cases "rs_inflight st1") (simp_all add: run_turn_def)
  qed
qed

lemma streams_same_output:
  "stream_running cfg st \<Longrightarrow> same_output st st' \<Longrightarrow> stream_running cfg st'"
  by (simp add: stream_running_def same_output_def)

lemma run_turn_streams:
  assumes "stream_running cfg st" "run_turn env cfg t st = T" "short cfg (rs_feed (turn_state T))"
  shows "turn_streams cfg T"
  using assms(2)
proof (cases rule: run_turn_cases)
  case past
  have "stream_ended cfg st (Inr Exhausted)" if "cfg_l2_frontier cfg = None"
    using assms(1) that by (auto simp: stream_running_def stream_ended_def)
  with past stream_ended_error [OF assms(1) refl] show ?thesis
    by (simp add: turn_streams_def split: option.split)
next
  case (failed e)
  with stream_ended_error [OF assms(1) refl] show ?thesis by (simp add: turn_streams_def)
next
  case (waiting st1)
  then show ?thesis using streams_same_output [OF assms(1) filled_output] by (simp add: turn_streams_def)
next
  case (consumed st1 w ws)
  have "stream_running cfg (st1\<lparr>rs_inflight := ws\<rparr>)"
    using streams_same_output [OF assms(1) filled_output [OF consumed(1)]] by (simp add: stream_running_def)
  from consume_window_streams [OF this consumed(3) assms(3)] show ?thesis .
qed

text \<open>Nothing that was sent is taken back.\<close>

lemma run_turn_grows:
  assumes "run_turn env cfg t st = T"
  shows "\<exists>more. fs_sent (rs_feed (turn_state T)) = fs_sent (rs_feed st) @ more"
  using assms
proof (cases rule: run_turn_cases)
  case (waiting st1)
  then show ?thesis using filled_output by (fastforce simp: same_output_def)
next
  case (consumed st1 w ws)
  have feed: "rs_feed (st1\<lparr>rs_inflight := ws\<rparr>) = rs_feed st"
    using filled_output [OF consumed(1)] by (simp add: same_output_def)
  from consumed(3) show ?thesis
  proof (cases rule: consume_window_cases)
    case (failed st' e)
    then show ?thesis using feed by (simp add: same_output_def)
  next
    case (delivered dc rc derived_range n' ch' r st2)
    have "rs_feed (turn_state T) = ch'"
      using delivered(3,4) queue_checkpoint_output(2) by (auto split: sum.splits option.splits)
    then show ?thesis using enqueue_loop_grows [OF delivered(2) [unfolded enqueue_derived_window_def]] feed by simp
  qed
qed auto

lemma run_loop_grows:
  assumes "run_loop env cfg ts T = (st, res)"
  shows "length (fs_sent (rs_feed (turn_state T))) \<le> length (fs_sent (rs_feed st))"
  using assms
proof (induction env cfg ts T rule: run_loop.induct)
  case (3 env cfg t ts st')
  then show ?case using run_turn_grows [OF refl, of env cfg t st'] by fastforce
qed auto

lemma run_loop_streams:
  assumes "run_loop env cfg ts T = (st, res)" "turn_streams cfg T" "short cfg (rs_feed st)"
  shows "turn_streams cfg (case res of None \<Rightarrow> Running st | Some r \<Rightarrow> Finished st r)"
  using assms
proof (induction env cfg ts T rule: run_loop.induct)
  case (3 env cfg t ts st')
  have "short cfg (rs_feed (turn_state (run_turn env cfg t st')))"
    using run_loop_grows [of env cfg ts "run_turn env cfg t st'" st res] 3(2,4) by (simp add: short_def)
  with run_turn_streams [OF _ refl] 3 show ?case by (simp add: turn_streams_def)
qed auto

lemma run_start_streams:
  assumes "cfg_start_l2_block cfg \<le> cfg_db_tip_l2 cfg" "unat (cfg_db_tip_l2 cfg) + 1 < 2 ^ 64" "fs_sent ch = []"
  shows "turn_streams cfg (run_start env cfg t ch dk)"
proof -
  let ?tip = "cfg_db_tip_l2 cfg" and ?start = "cfg_start_l2_block cfg"
  have "?tip < u64_max" using assms(2) unfolding word_less_nat_alt unat_u64_max by simp
  moreover have "?start < u64_max" using assms(1) \<open>?tip < u64_max\<close> by (rule le_less_trans)
  ultimately have "unat (?start + 1) = Suc (unat ?start)" "unat (?tip + 1) = Suc (unat ?tip)"
    using unat_Suc_less by blast+
  then have le: "?start + 1 \<le> ?tip + 1" using assms(1) by (simp add: word_le_nat_alt)
  then have "streaming cfg (?start + 1) ch"
    using assms(3) by (simp add: streaming_def numbered_from_def)
  moreover have "?start + 1 \<le> f" if "?tip < f" for f
    using le less_imp_Suc_le [OF that] by simp
  ultimately show ?thesis
    using assms(3) unfolding run_start_def first_count_def turn_streams_def Let_def
    by (auto simp: stream_running_def stream_ended_def not_le split: option.split sum.split)
qed

lemma u64_range_offsets: "u64_range lo hi = map (\<lambda>i. lo + word_of_nat i) [0..<unat hi - unat lo]"
proof -
  have "[unat lo..<unat hi] = map (\<lambda>i. i + unat lo) [0..<unat hi - unat lo]"
    by (cases "unat lo \<le> unat hi") (simp_all add: map_add_upt)
  then show ?thesis by (simp add: u64_range_def add.commute)
qed

lemma numbered_from_list:
  assumes "numbered_from tip g n sent"
  shows "map bf_sequence_number sent = map (\<lambda>i. tip + 1 + word_of_nat i - g) [0..<length sent]"
  using assms numbered_from_length [OF assms] by (simp add: numbered_from_def u64_range_offsets comp_def)

text \<open>A frontier that is not above the durable tip is reported before anything is read from L1.\<close>

lemma at_once:
  assumes "run_l1_sync env cfg t ts ch dk = (st, res)" "cfg_l2_frontier cfg = Some f" "f \<le> cfg_db_tip_l2 cfg"
  shows "res = Some (Inr (FrontierReached f)) \<longleftrightarrow> re_url_ok env"
  using assms by (auto simp: run_l1_sync_def run_start_def Let_def split: if_splits)

text \<open>The stream of a run whose start point is not above the durable tip.\<close>

definition consecutive_after :: "u64 \<Rightarrow> u64 \<Rightarrow> BroadcastFeedMessage list \<Rightarrow> bool" where
  "consecutive_after tip genesis sent \<longleftrightarrow>
     map bf_sequence_number sent = map (\<lambda>i. tip + 1 + word_of_nat i - genesis) [0..<length sent]"

lemma run_stream_core:
  assumes "cfg_start_l2_block cfg \<le> cfg_db_tip_l2 cfg"
    and "run_l1_sync env cfg t ts \<lparr>fs_sent = [], fs_room = room\<rparr> dk = (st, res)"
    and "unat (cfg_db_tip_l2 cfg) + 1 + length (fs_sent (rs_feed st)) < 2 ^ 64" "cfg_l2_frontier cfg \<noteq> Some u64_max"
  shows "consecutive_after (cfg_db_tip_l2 cfg) (cfg_genesis_block cfg) (fs_sent (rs_feed st))"
    and "cfg_l2_frontier cfg = Some f \<Longrightarrow> length (fs_sent (rs_feed st)) \<le> unat f - unat (cfg_db_tip_l2 cfg)"
    and "res = Some (Inr (FrontierReached f)) \<longleftrightarrow> cfg_l2_frontier cfg = Some f
      \<and> length (fs_sent (rs_feed st)) = unat f - unat (cfg_db_tip_l2 cfg) \<and> (cfg_db_tip_l2 cfg < f \<or> re_url_ok env)"
proof -
  let ?tip = "cfg_db_tip_l2 cfg" and ?sent = "fs_sent (rs_feed st)"
  have tip: "unat (?tip + 1) = Suc (unat ?tip)"
    using assms(3) by (intro unat_Suc_less [of _ u64_max]) (unfold word_less_nat_alt unat_u64_max, simp)
  have "turn_streams cfg (case res of None \<Rightarrow> Running st | Some r \<Rightarrow> Finished st r)"
    using run_loop_streams [OF assms(2) [unfolded run_l1_sync_def] run_start_streams] assms(1,3) by (simp add: short_def)
  then obtain n where n: "numbered_from ?tip (cfg_genesis_block cfg) n ?sent"
    and bound: "\<And>f. cfg_l2_frontier cfg = Some f \<Longrightarrow> ?sent = [] \<or> unat n \<le> Suc (unat f)"
    and reached: "\<And>f. res = Some (Inr (FrontierReached f)) \<Longrightarrow> cfg_l2_frontier cfg = Some f
       \<and> (f \<le> ?tip \<and> ?sent = [] \<or> ?tip < f \<and> n = f + 1)"
    and unreached: "\<And>f. cfg_l2_frontier cfg = Some f \<Longrightarrow> ?tip < f \<Longrightarrow> res \<noteq> Some (Inr (FrontierReached f)) \<Longrightarrow> n \<le> f"
    by (cases res) (auto simp: turn_streams_def stream_running_def stream_ended_def streaming_def word_le_nat_alt le_SucI)
  note len = numbered_from_length [OF n, unfolded tip]
  show "consecutive_after ?tip (cfg_genesis_block cfg) ?sent"
    using numbered_from_list [OF n] by (simp add: consecutive_after_def)
  show "length ?sent \<le> unat f - unat ?tip" if "cfg_l2_frontier cfg = Some f"
    using bound [OF that] len by auto
  show "res = Some (Inr (FrontierReached f)) \<longleftrightarrow> cfg_l2_frontier cfg = Some f
      \<and> length ?sent = unat f - unat ?tip \<and> (?tip < f \<or> re_url_ok env)" (is "?reached \<longleftrightarrow> ?there")
  proof (cases "cfg_l2_frontier cfg = Some f")
    case f: True
    show ?thesis
    proof (cases "?tip < f")
      case True
      have "unat (f + 1) = Suc (unat f)"
        using assms(4) f by (intro unat_Suc_less [of _ u64_max]) (auto simp: word_order.not_eq_extremum)
      then have "length ?sent = unat f - unat ?tip" if ?reached using reached [OF that] len True by auto
      moreover have "length ?sent \<noteq> unat f - unat ?tip" if "\<not> ?reached"
        using unreached [OF f True that] len True unfolding word_le_nat_alt word_less_nat_alt by linarith
      ultimately show ?thesis using f True by auto
    next
      case False
      then have "?sent = []" using len bound [OF f] by (auto simp: word_le_nat_alt not_less)
      moreover from False have "f \<le> ?tip" by simp
      ultimately show ?thesis using f False at_once [OF assms(2) f] by (simp add: word_le_nat_alt)
    qed
  qed (use reached in auto)
qed

text \<open>C6: a run whose start point is not above the durable tip sends the driver consecutive message
  indices from the block after the tip on, whatever it re-derives, skips or retries; with a frontier
  it never sends past it, and it reports the frontier as reached exactly when the frontier's own
  message was the last one sent: never without it, and whenever it was sent. A frontier that is not
  above the tip needs no message and is reported at once, if the endpoint's URL parses. The message
  count stays below the limit of a block number.\<close>

theorem run_stream:
  assumes "cfg_start_l2_block cfg \<le> cfg_db_tip_l2 cfg" and "cfg_l2_frontier cfg \<noteq> Some u64_max"
    and "run_l1_sync env cfg t ts \<lparr>fs_sent = [], fs_room = room\<rparr> dk = (st, res)"
    and "unat (cfg_db_tip_l2 cfg) + 1 + length (fs_sent (rs_feed st)) < 2 ^ 64"
  shows "map bf_sequence_number (fs_sent (rs_feed st))
      = map (\<lambda>i. cfg_db_tip_l2 cfg + 1 + word_of_nat i - cfg_genesis_block cfg) [0..<length (fs_sent (rs_feed st))]
    \<and> (\<forall>f. cfg_l2_frontier cfg = Some f \<longrightarrow> length (fs_sent (rs_feed st)) \<le> unat f - unat (cfg_db_tip_l2 cfg))
    \<and> (\<forall>f. res = Some (Inr (FrontierReached f)) \<longleftrightarrow> cfg_l2_frontier cfg = Some f
        \<and> length (fs_sent (rs_feed st)) = unat f - unat (cfg_db_tip_l2 cfg) \<and> (cfg_db_tip_l2 cfg < f \<or> re_url_ok env))"
  using run_stream_core [OF assms(1,3,4,2)] unfolding consecutive_after_def by blast

section \<open>The batch-count gate\<close>

text \<open>The chain, as the sequencer inbox counts its batches: the count never falls, and every endpoint
  that answers answers with it.\<close>

definition count_before :: "(u64 \<Rightarrow> u64) \<Rightarrow> u64 \<Rightarrow> u64" where
  "count_before cnt b = (if b = 0 then 0 else cnt (b - 1))"

definition counts_match :: "(u64 \<Rightarrow> u64) \<Rightarrow> SequencerInboxReader \<Rightarrow> bool" where
  "counts_match cnt r \<longleftrightarrow> (\<forall>b c. batch_count r b = Inr c \<longrightarrow> c = cnt b)"

lemma first_block_above_sound:
  assumes "counts_match cnt r" "mono cnt" "first_block_with_batch_count_above r lo hi c = Inr b" "lo \<le> hi"
  shows "lo \<le> b \<and> b \<le> hi \<and> (\<forall>a. lo \<le> a \<and> a < b \<longrightarrow> cnt a \<le> c)"
  using assms
proof (induction r lo hi c rule: first_block_with_batch_count_above.induct)
  case (1 r lo hi c)
  show ?case
  proof (cases "lo < hi")
    case lt: True
    define mid where "mid = lo + (hi - lo) div 2"
    note m = mid_bounds [OF lt, folded mid_def]
    from 1(5) lt obtain k where k: "batch_count r mid = Inr k"
      by (subst (asm) first_block_with_batch_count_above.simps) (auto simp: Let_def mid_def split: sum.splits)
    then have cnt: "k = cnt mid" using 1(3) by (auto simp: counts_match_def)
    show ?thesis
    proof (cases "c < k")
      case True
      then have "first_block_with_batch_count_above r lo mid c = Inr b"
        using 1(5) lt k by (subst (asm) first_block_with_batch_count_above.simps) (simp add: Let_def mid_def)
      from 1(1) [OF lt mid_def k True 1(3,4) this m(2)] m(3) show ?thesis by auto
    next
      case False
      then have "first_block_with_batch_count_above r (mid + 1) hi c = Inr b"
        using 1(5) lt k by (subst (asm) first_block_with_batch_count_above.simps) (simp add: Let_def mid_def)
      note ih = 1(2) [OF lt mid_def k False 1(3,4) this less_imp_Suc_le [OF m(3)]]
      have "mid < mid + 1" using unat_Suc_less [OF m(3)] by (simp add: word_less_nat_alt)
      have "cnt a \<le> c" if "a < mid + 1" for a
      proof -
        have "a \<le> mid" using that unat_Suc_less [OF m(3)] by (simp add: word_less_nat_alt word_le_nat_alt)
        then show ?thesis using monoD [OF 1(4)] False cnt by (meson not_less order_trans)
      qed
      with ih m(2) \<open>mid < mid + 1\<close> show ?thesis by (meson not_less less_imp_le order_trans)
    qed
  next
    case False
    with 1(5,6) show ?thesis by (subst (asm) first_block_with_batch_count_above.simps) auto
  qed
qed

text \<open>Windows laid end to end.\<close>

fun chained :: "u64 \<Rightarrow> (u64 \<times> u64 \<times> task) list \<Rightarrow> u64 \<Rightarrow> bool" where
  "chained a [] b \<longleftrightarrow> a = b"
| "chained a ((from_block, to_block, _) # ws) b \<longleftrightarrow>
     from_block = a \<and> a \<le> to_block \<and> to_block < u64_max \<and> chained (to_block + 1) ws b"

lemma chained_append: "chained a (xs @ ys) b \<longleftrightarrow> (\<exists>m. chained a xs m \<and> chained m ys b)"
  by (induction xs arbitrary: a) auto

text \<open>A window was scanned by one of the readers, or no batch was delivered in it.\<close>

definition window_ok :: "run_env \<Rightarrow> (u64 \<Rightarrow> u64) \<Rightarrow> tick set \<Rightarrow> u64 \<times> u64 \<times> task \<Rightarrow> bool" where
  "window_ok env cnt Ts w = (case w of (from_block, to_block, result) \<Rightarrow>
     (\<exists>t \<in> Ts. result = resolve_batches (x_rlp (re_ext env)) (tk_seq t) (tk_beacon t) from_block to_block)
     \<or> result = Inr [] \<and> cnt to_block = count_before cnt from_block)"

definition tick_ok :: "L1SyncConfig \<Rightarrow> (u64 \<Rightarrow> u64) \<Rightarrow> tick \<Rightarrow> bool" where
  "tick_ok cfg cnt t \<longleftrightarrow> counts_match cnt (tk_seq t)
     \<and> (\<forall>h. tk_head t = Inr h \<longrightarrow> unat h + unat (max (cfg_batch_window cfg) 1) < 2 ^ 64)"

definition gate_inv :: "run_env \<Rightarrow> L1SyncConfig \<Rightarrow> (u64 \<Rightarrow> u64) \<Rightarrow> tick set \<Rightarrow> run_state \<Rightarrow> bool" where
  "gate_inv env cfg cnt Ts st \<longleftrightarrow> chained (rs_consume_cursor st) (rs_inflight st) (rs_spawn_cursor st)
     \<and> (\<forall>w \<in> set (rs_inflight st). window_ok env cnt Ts w)
     \<and> rs_seen_batch_count st = count_before cnt (rs_spawn_cursor st)
     \<and> (rs_spawn_cursor st \<le> rs_safe_head st \<longrightarrow> rs_head_batch_count st = cnt (rs_safe_head st))
     \<and> unat (rs_safe_head st) + unat (max (cfg_batch_window cfg) 1) < 2 ^ 64"

lemma refresh_head_gate:
  assumes "gate_inv env cfg cnt Ts st" "tick_ok cfg cnt t" "refresh_head cfg t st = Inr st'"
  shows "gate_inv env cfg cnt Ts st'"
proof (cases "rs_spawn_cursor st > rs_safe_head st")
  case True
  with assms(3) obtain h c where h: "tk_head t = Inr h" "batch_count (tk_seq t) (sat_sub h (cfg_confirmations cfg)) = Inr c"
    and st': "st' = st\<lparr>rs_safe_head := sat_sub h (cfg_confirmations cfg), rs_head_batch_count := c\<rparr>"
    by (auto simp: refresh_head_def Let_def result_simps l1_err_def)
  have "unat (sat_sub h (cfg_confirmations cfg)) \<le> unat h" by (simp add: unat_sat_sub)
  then have "unat (sat_sub h (cfg_confirmations cfg)) + unat (max (cfg_batch_window cfg) 1) < 2 ^ 64"
    using assms(2) h(1) by (fastforce simp: tick_ok_def)
  with assms(1,2) h st' show ?thesis by (auto simp: gate_inv_def tick_ok_def counts_match_def)
next
  case False
  with assms show ?thesis by (simp add: refresh_head_def)
qed

lemma window_bounds:
  assumes "gate_inv env cfg cnt Ts st" "rs_spawn_cursor st \<le> rs_safe_head st" "\<not> past_end cfg (rs_spawn_cursor st)"
  shows "rs_spawn_cursor st \<le> win_to cfg st" "win_to cfg st \<le> scan_hi cfg st" "scan_hi cfg st \<le> rs_safe_head st"
    "rs_safe_head st < u64_max"
proof -
  let ?w = "max (cfg_batch_window cfg) 1" and ?s = "rs_spawn_cursor st"
  show hi: "scan_hi cfg st \<le> rs_safe_head st" by (simp add: scan_hi_def split: option.split)
  show "win_to cfg st \<le> scan_hi cfg st" by (simp add: win_to_def)
  have lo: "?s \<le> scan_hi cfg st" using assms(2,3) by (auto simp: scan_hi_def past_end_def not_less split: option.splits)
  have "1 \<le> ?w" by (rule max.cobounded2)
  then have w: "0 < unat ?w" by (simp add: word_le_nat_alt)
  have room: "unat ?s + unat ?w < 2 ^ 64" using assms(1,2) by (simp add: gate_inv_def word_le_nat_alt)
  then have "unat (?s + ?w) = unat ?s + unat ?w" by (simp add: unat_word_ariths)
  moreover from this w have "?s + ?w \<noteq> 0" by (metis add_eq_0_iff_both_eq_0 less_numeral_extra(3) unat_0)
  ultimately have "unat (?s + ?w - 1) = unat ?s + unat ?w - 1" by (simp add: unat_minus_one)
  with w have "?s \<le> ?s + ?w - 1" by (simp add: word_le_nat_alt)
  with lo show "?s \<le> win_to cfg st" by (simp add: win_to_def)
  have "unat (rs_safe_head st) < 2 ^ 64 - 1" using assms(1) w unfolding gate_inv_def by linarith
  then show "rs_safe_head st < u64_max" unfolding word_less_nat_alt unat_u64_max .
qed

lemma count_at_cnt:
  "gate_inv env cfg cnt Ts st \<Longrightarrow> rs_spawn_cursor st \<le> rs_safe_head st \<Longrightarrow> tick_ok cfg cnt t
    \<Longrightarrow> count_at op t st b = Inr c \<Longrightarrow> c = cnt b"
  by (auto simp: gate_inv_def count_at_def tick_ok_def counts_match_def l1_err_def result_simps split: if_splits)

lemma count_before_mono:
  assumes "mono cnt" "a \<le> b"
  shows "count_before cnt a \<le> cnt b"
proof (cases "a = 0")
  case False
  have "unat (a - 1) < unat b" by (rule unat_pred_less [OF assms(2) False])
  then have "a - 1 \<le> b" unfolding word_le_nat_alt by simp
  from monoD [OF assms(1) this] False show ?thesis by (simp add: count_before_def)
qed (simp add: count_before_def)

lemma count_before_succ:
  assumes "b < u64_max"
  shows "count_before cnt (b + 1) = cnt b"
proof -
  have "b + 1 \<noteq> 0" using unat_Suc_less [OF assms] by (metis nat.distinct(1) unat_0)
  then show ?thesis by (simp add: count_before_def)
qed

lemma barren_to_sound:
  assumes inv: "gate_inv env cfg cnt Ts st" and t: "tick_ok cfg cnt t" "mono cnt"
    and at: "rs_spawn_cursor st \<le> rs_safe_head st" "\<not> past_end cfg (rs_spawn_cursor st)"
    and win: "cnt (win_to cfg st) \<le> rs_seen_batch_count st" and b: "barren_to cfg t st = Inr b"
  shows "rs_spawn_cursor st \<le> b" "b \<le> rs_safe_head st" "cnt b = rs_seen_batch_count st"
proof -
  note w = window_bounds [OF inv at]
  have seen: "rs_seen_batch_count st = count_before cnt (rs_spawn_cursor st)" using inv by (simp add: gate_inv_def)
  note ge = count_before_mono [OF t(2), of "rs_spawn_cursor st", folded seen]
  from b obtain hc where hc: "count_at ''batchCount(scan_hi)'' t st (scan_hi cfg st) = Inr hc"
    and step: "hc = rs_seen_batch_count st \<and> b = scan_hi cfg st
      \<or> hc \<noteq> rs_seen_batch_count st \<and> (\<exists>n. first_block_with_batch_count_above (tk_seq t) (win_to cfg st + 1)
           (scan_hi cfg st) (rs_seen_batch_count st) = Inr n \<and> b = n - 1)"
    by (auto simp: barren_to_def result_simps l1_err_def split: if_splits)
  have cnt_hi: "hc = cnt (scan_hi cfg st)" by (rule count_at_cnt [OF inv at(1) t(1) hc])
  consider "hc = rs_seen_batch_count st" "b = scan_hi cfg st"
    | n where "hc \<noteq> rs_seen_batch_count st" "b = n - 1" "first_block_with_batch_count_above (tk_seq t) (win_to cfg st + 1)
           (scan_hi cfg st) (rs_seen_batch_count st) = Inr n"
    using step by blast
  then have "rs_spawn_cursor st \<le> b \<and> b \<le> rs_safe_head st \<and> cnt b = rs_seen_batch_count st"
  proof cases
    case 1
    have "rs_spawn_cursor st \<le> scan_hi cfg st" using w(1,2) by (rule order_trans)
    with 1 w(3) cnt_hi show ?thesis by simp
  next
    case (2 n)
    have "win_to cfg st \<noteq> scan_hi cfg st"
      using 2(1) win cnt_hi ge [OF w(1)] by auto
    then have lt: "win_to cfg st < scan_hi cfg st" using w(2) by simp
    note found = first_block_above_sound [OF _ t(2) 2(3) less_imp_Suc_le [OF lt]]
    have n: "win_to cfg st + 1 \<le> n" "n \<le> scan_hi cfg st"
      "\<And>a. win_to cfg st + 1 \<le> a \<Longrightarrow> a < n \<Longrightarrow> cnt a \<le> rs_seen_batch_count st"
      using found t(1) by (auto simp: tick_ok_def)
    have suc: "unat (win_to cfg st + 1) = Suc (unat (win_to cfg st))" by (rule unat_Suc_less [OF lt])
    have "n \<noteq> 0" using n(1) suc by (auto simp: word_le_nat_alt)
    then have pred: "unat b = unat n - 1" using 2(2) by (simp add: unat_minus_one)
    have b: "win_to cfg st \<le> b" "b < n" "b \<le> n"
      using n(1) suc pred unfolding word_le_nat_alt word_less_nat_alt by linarith+
    have spawn: "rs_spawn_cursor st \<le> b" using w(1) b(1) by (rule order_trans)
    have "b \<le> rs_safe_head st" by (rule order_trans [OF b(3) order_trans [OF n(2) w(3)]])
    moreover have "cnt b \<le> rs_seen_batch_count st"
    proof (cases "win_to cfg st = b")
      case False
      with b(1) have "win_to cfg st + 1 \<le> b" by (intro less_imp_Suc_le) simp
      then show ?thesis using n(3) b(2) by blast
    qed (use win in simp)
    ultimately show ?thesis using spawn ge [OF spawn] by simp
  qed
  then show "rs_spawn_cursor st \<le> b" "b \<le> rs_safe_head st" "cnt b = rs_seen_batch_count st" by simp_all
qed

lemma fill_one_gate:
  assumes inv: "gate_inv env cfg cnt Ts st" and t: "tick_ok cfg cnt t" "mono cnt" "t \<in> Ts"
    and at: "rs_spawn_cursor st \<le> rs_safe_head st" "\<not> past_end cfg (rs_spawn_cursor st)"
    and "fill_one env cfg t st = Inr st'"
  shows "gate_inv env cfg cnt Ts st'"
  using assms(7)
proof (cases rule: fill_one_cases)
  case (scanned c)
  note w = window_bounds [OF inv at]
  have "win_to cfg st < u64_max" using w by auto
  with count_at_cnt [OF inv at(1) t(1) scanned(1)] w inv t(3) at(1) show ?thesis
    by (auto simp: scanned(3) gate_inv_def chained_append count_before_succ window_ok_def)
next
  case (barren c b)
  note w = window_bounds [OF inv at]
  have win: "cnt (win_to cfg st) \<le> rs_seen_batch_count st" using count_at_cnt [OF inv at(1) t(1) barren(1)] barren(2) by simp
  note b = barren_to_sound [OF inv t(1,2) at win barren(3)]
  have "b < u64_max" using b(2) w(4) by simp
  with b inv at(1) show ?thesis
    by (auto simp: barren(4) gate_inv_def chained_append count_before_succ window_ok_def)
qed

lemma fill_loop_gate:
  assumes "gate_inv env cfg cnt Ts st" "tick_ok cfg cnt t" "mono cnt" "t \<in> Ts" "fill_loop n env cfg t st = Inr st'"
  shows "gate_inv env cfg cnt Ts st'"
  using assms
proof (induction n arbitrary: st)
  case (Suc n)
  show ?case
  proof (cases "rs_spawn_cursor st \<le> rs_safe_head st \<and> \<not> past_end cfg (rs_spawn_cursor st)")
    case True
    with Suc.prems(5) obtain st1 where st1: "fill_one env cfg t st = Inr st1" "fill_loop n env cfg t st1 = Inr st'"
      by (auto simp: rbind_eq_Inr)
    show ?thesis
      by (rule Suc.IH [OF fill_one_gate [OF Suc.prems(1-4) _ _ st1(1)] Suc.prems(2-4) st1(2)]) (use True in simp_all)
  next
    case False
    with Suc.prems show ?thesis by auto
  qed
qed simp

lemma filled_gate:
  assumes "gate_inv env cfg cnt Ts st" "tick_ok cfg cnt t" "mono cnt" "t \<in> Ts"
    and "rbind (refresh_head cfg t st) (fill_pipeline env cfg t) = Inr st'"
  shows "gate_inv env cfg cnt Ts st'"
  using assms refresh_head_gate [OF assms(1,2)] fill_loop_gate [OF _ assms(2-4)]
  unfolding rbind_eq_Inr fill_pipeline_def by blast

lemma queue_checkpoint_Running:
  assumes "queue_checkpoint env cfg t st = Running st'"
  shows "rs_consume_cursor st' = rs_consume_cursor st" "rs_inflight st' = rs_inflight st"
    "rs_spawn_cursor st' = rs_spawn_cursor st" "rs_safe_head st' = rs_safe_head st"
    "rs_seen_batch_count st' = rs_seen_batch_count st" "rs_head_batch_count st' = rs_head_batch_count st"
  using assms by (auto simp: queue_checkpoint_def Let_def split: if_splits sum.splits prod.splits)

lemma consume_window_Running:
  assumes "consume_window env cfg t w st = Running st'"
  shows "rs_consume_cursor st' = fst (snd w) + 1" "rs_inflight st' = rs_inflight st"
    "rs_spawn_cursor st' = rs_spawn_cursor st" "rs_safe_head st' = rs_safe_head st"
    "rs_seen_batch_count st' = rs_seen_batch_count st" "rs_head_batch_count st' = rs_head_batch_count st"
  using assms
  by (cases rule: consume_window_cases;
      force dest: queue_checkpoint_Running [OF sym] split: sum.splits option.splits)+

definition popped :: "run_env \<Rightarrow> L1SyncConfig \<Rightarrow> tick \<Rightarrow> run_state \<Rightarrow> (u64 \<times> u64 \<times> task) list" where
  "popped env cfg t st = (case rbind (refresh_head cfg t st) (fill_pipeline env cfg t) of
       Inl _ \<Rightarrow> [] | Inr st1 \<Rightarrow> take 1 (rs_inflight st1))"

text \<open>The windows a run consumed.\<close>

fun consumed_windows :: "run_env \<Rightarrow> L1SyncConfig \<Rightarrow> tick list \<Rightarrow> turn \<Rightarrow> (u64 \<times> u64 \<times> task) list" where
  "consumed_windows env cfg (t # ts) (Running st) =
     (case run_turn env cfg t st of
        Running st' \<Rightarrow> popped env cfg t st @ consumed_windows env cfg ts (Running st')
      | Finished _ _ \<Rightarrow> [])"
| "consumed_windows env cfg _ _ = []"

lemma run_turn_gate:
  assumes "gate_inv env cfg cnt Ts st" "tick_ok cfg cnt t" "mono cnt" "t \<in> Ts" "run_turn env cfg t st = Running st'"
  shows "gate_inv env cfg cnt Ts st' \<and> chained (rs_consume_cursor st) (popped env cfg t st) (rs_consume_cursor st')
    \<and> (\<forall>w \<in> set (popped env cfg t st). window_ok env cnt Ts w)"
  using assms(5)
proof (cases rule: run_turn_cases)
  case (waiting st1)
  with filled_gate [OF assms(1-4) waiting(1)] filled_output [OF waiting(1)] show ?thesis
    by (simp add: popped_def same_output_def)
next
  case (consumed st1 w ws)
  obtain a b r where w: "w = (a, b, r)" by (cases w)
  note inv = filled_gate [OF assms(1-4) consumed(1)]
  note out = filled_output [OF consumed(1)]
  note now = consume_window_Running [OF consumed(3)]
  have "chained (rs_consume_cursor st1) (w # ws) (rs_spawn_cursor st1)" "window_ok env cnt Ts w"
    using inv consumed(2) by (auto simp: gate_inv_def)
  then show ?thesis
    using inv now out consumed(1,2) w by (simp add: popped_def gate_inv_def same_output_def)
qed auto

lemma run_loop_gate:
  assumes "run_loop env cfg ts T = (st, None)" "mono cnt" "set ts \<subseteq> Ts" "\<forall>t \<in> set ts. tick_ok cfg cnt t"
    and "gate_inv env cfg cnt Ts (turn_state T)"
  shows "chained (rs_consume_cursor (turn_state T)) (consumed_windows env cfg ts T) (rs_consume_cursor st)
    \<and> (\<forall>w \<in> set (consumed_windows env cfg ts T). window_ok env cnt Ts w)"
  using assms
proof (induction env cfg ts T rule: run_loop.induct)
  case (3 env cfg t ts st')
  then obtain st1 where st1: "run_turn env cfg t st' = Running st1" by (cases "run_turn env cfg t st'") auto
  from 3(6) have inv: "gate_inv env cfg cnt Ts st'" by simp
  have t: "tick_ok cfg cnt t" "t \<in> Ts" using 3(4,5) by auto
  note step = run_turn_gate [OF inv t(1) 3(3) t(2) st1]
  have "chained (rs_consume_cursor st1) (consumed_windows env cfg ts (Running st1)) (rs_consume_cursor st)
      \<and> (\<forall>w \<in> set (consumed_windows env cfg ts (Running st1)). window_ok env cnt Ts w)"
    using 3(1) [unfolded st1] 3(2-5) step by (simp add: st1)
  with step show ?case by (auto simp: st1 chained_append)
qed auto

lemma run_start_gate:
  assumes "run_start env cfg t ch dk = Running st" "tick_ok cfg cnt t" "cfg_start_block cfg = 0 \<longrightarrow> cnt 0 = 0"
  shows "gate_inv env cfg cnt Ts st" "rs_consume_cursor st = cfg_start_block cfg"
proof -
  have "unat (max (cfg_batch_window cfg) 1) < 2 ^ 64" using unat_bound [of "max (cfg_batch_window cfg) 1"] by simp
  with assms show "gate_inv env cfg cnt Ts st" "rs_consume_cursor st = cfg_start_block cfg"
    unfolding run_start_def first_count_def Let_def
    by (auto simp: gate_inv_def count_before_def tick_ok_def counts_match_def l1_err_def map_err_eq_Inr
        split: if_splits option.splits sum.splits)
qed

text \<open>C7: although barren stretches are skipped on the strength of batch counts alone, the windows a
  run has consumed lie end to end from its first block, and each of them was either scanned for
  batches or delivered none (its last block has the batch count of the block before it): no batch
  is passed over.\<close>

theorem gate_skips_no_batch:
  assumes "mono cnt" and "cfg_start_block cfg = 0 \<longrightarrow> cnt 0 = 0" and "\<forall>t' \<in> set (t # ts). tick_ok cfg cnt t'"
    and "run_l1_sync env cfg t ts ch dk = (st, None)"
  shows "chained (cfg_start_block cfg) (consumed_windows env cfg ts (run_start env cfg t ch dk)) (rs_consume_cursor st)
    \<and> (\<forall>w \<in> set (consumed_windows env cfg ts (run_start env cfg t ch dk)). window_ok env cnt (set ts) w)"
proof -
  obtain st0 where st0: "run_start env cfg t ch dk = Running st0"
    using assms(4) by (cases "run_start env cfg t ch dk") (auto simp: run_l1_sync_def)
  have t: "tick_ok cfg cnt t" "\<forall>t' \<in> set ts. tick_ok cfg cnt t'" using assms(3) by simp_all
  note start = run_start_gate(1) [where cnt = cnt and Ts = "set ts", OF st0 t(1) assms(2)]
    run_start_gate(2) [where cnt = cnt, OF st0 t(1) assms(2)]
  show ?thesis
    using run_loop_gate [OF assms(4) [unfolded run_l1_sync_def st0] assms(1) order_refl t(2)] start by (simp add: st0)
qed

section \<open>Checkpoints\<close>

text \<open>A boundary that was loaded at the start, or whose L2 block was durable when it was recorded.\<close>

definition boundary_ok :: "L1ResumeCheckpoint set \<Rightarrow> tick set \<Rightarrow> L1ResumeCheckpoint \<Rightarrow> bool" where
  "boundary_ok base Ts cp \<longleftrightarrow> cp \<in> base \<or> (\<exists>t \<in> Ts. \<exists>tip. tk_persisted t = Inr tip \<and> cp_l2_block cp \<le> tip)"

definition log_ok :: "L1ResumeCheckpoint set \<Rightarrow> tick set \<Rightarrow> L1ResumeLog \<Rightarrow> bool" where
  "log_ok base Ts log \<longleftrightarrow> (\<forall>cp \<in> set (checkpoints log). boundary_ok base Ts cp)"

definition good_contents :: "resume_json \<Rightarrow> bytes option \<Rightarrow> L1ResumeCheckpoint set \<Rightarrow> tick set \<Rightarrow> bytes option set" where
  "good_contents js old base Ts = {old} \<union> {Some (rj_to_vec js log @ [10]) | log. log_ok base Ts log}"

definition ckpt_inv :: "run_env \<Rightarrow> L1SyncConfig \<Rightarrow> bytes option \<Rightarrow> L1ResumeCheckpoint set \<Rightarrow> tick set \<Rightarrow> run_state \<Rightarrow> bool" where
  "ckpt_inv env cfg old base Ts st \<longleftrightarrow> log_ok base Ts (rs_log st)
     \<and> (\<forall>p. cfg_checkpoint_path cfg = Some p \<longrightarrow> guarded (good_contents (re_json env) old base Ts) p (rs_disk st))"

lemma ckpt_inv_cong: "ckpt_inv env cfg old base Ts st \<Longrightarrow> rs_log st' = rs_log st \<Longrightarrow> rs_disk st' = rs_disk st
    \<Longrightarrow> ckpt_inv env cfg old base Ts st'"
  by (simp add: ckpt_inv_def)

lemma maybe_write_ok:
  assumes "log_ok base Ts log" "guarded (good_contents js old base Ts) p dk" "t \<in> Ts" "tk_persisted t = Inr persisted"
    and "maybe_write_checkpoint js (Some p) pid stamp persisted log pending dk = (log', pending', dk')"
  shows "log_ok base Ts log'" "guarded (good_contents js old base Ts) p dk'"
proof -
  obtain pend l newest where fl: "flush_pending persisted pending log None = (pend, l, newest)"
    by (cases "flush_pending persisted pending log None") auto
  from flush_pending_spec [OF fl] obtain moved where moved: "\<forall>cp \<in> set moved. cp_l2_block cp \<le> persisted"
    and l: "l = fold record_cp moved log" by blast
  have ok: "log_ok base Ts l"
    using set_fold_record [of moved log] assms(1,3,4) moved unfolding l log_ok_def boundary_ok_def by blast
  then have "Some (rj_to_vec js l @ [10]) \<in> good_contents js old base Ts" by (auto simp: good_contents_def)
  then have "guarded (good_contents js old base Ts) p (fst (save js l p pid stamp dk))"
    by (rule save_guarded [OF assms(2)])
  with ok assms(2,5) fl show "log_ok base Ts log'" "guarded (good_contents js old base Ts) p dk'"
    by (auto simp: maybe_write_checkpoint_def split: option.splits)
qed

lemma queue_checkpoint_inv:
  assumes "ckpt_inv env cfg old base Ts st" "t \<in> Ts" "queue_checkpoint env cfg t st = T"
  shows "ckpt_inv env cfg old base Ts (turn_state T)"
proof (cases "cfg_checkpoint_path cfg")
  case None
  with assms(1,3) show ?thesis by (auto simp: queue_checkpoint_def)
next
  case (Some p)
  show ?thesis
  proof (cases "tk_persisted t")
    case (Inl e)
    with assms(1,3) Some show ?thesis by (auto simp: queue_checkpoint_def ckpt_inv_def Let_def)
  next
    case (Inr persisted)
    let ?pending = "rs_pending st @ [\<lparr>cp_l1_block = rs_consume_cursor st, cp_delayed_count = rs_delayed st,
        cp_l2_block = rs_next_l2 st - 1\<rparr>]"
    obtain log' pending' dk' where w: "maybe_write_checkpoint (re_json env) (Some p) (re_pid env) (tk_stamp t) persisted
        (rs_log st) ?pending (rs_disk st) = (log', pending', dk')" by (metis prod_cases3)
    from assms(1) Some have "log_ok base Ts (rs_log st)" "guarded (good_contents (re_json env) old base Ts) p (rs_disk st)"
      by (simp_all add: ckpt_inv_def)
    from maybe_write_ok [OF this assms(2) Inr w] show ?thesis
      using assms(3) Some Inr w by (auto simp: queue_checkpoint_def ckpt_inv_def Let_def)
  qed
qed

lemma run_turn_ckpt:
  assumes "ckpt_inv env cfg old base Ts st" "t \<in> Ts" "run_turn env cfg t st = T"
  shows "ckpt_inv env cfg old base Ts (turn_state T)"
  using assms(3)
proof (cases rule: run_turn_cases)
  case (waiting st1)
  then show ?thesis using ckpt_inv_cong [OF assms(1)] filled_output by (simp add: same_output_def)
next
  case (consumed st1 w ws)
  have inv: "ckpt_inv env cfg old base Ts (st1\<lparr>rs_inflight := ws\<rparr>)"
    using ckpt_inv_cong [OF assms(1)] filled_output [OF consumed(1)] by (simp add: same_output_def)
  from consumed(3) show ?thesis
  proof (cases rule: consume_window_cases)
    case (failed st' e)
    then show ?thesis using ckpt_inv_cong [OF inv, of st'] by (simp add: same_output_def)
  next
    case (delivered dc rc derived_range n' ch' r st2)
    have "ckpt_inv env cfg old base Ts st2"
      and "ckpt_inv env cfg old base Ts (st2\<lparr>rs_delayed := d, rs_consume_cursor := c\<rparr>)" for d c
      using delivered(3) by (auto intro: ckpt_inv_cong [OF inv])
    with delivered(4) show ?thesis
      by (auto split: sum.splits option.splits intro: queue_checkpoint_inv [OF _ assms(2) refl])
  qed
qed (use assms(1) in auto)

lemma run_loop_ckpt:
  assumes "run_loop env cfg ts T = (st, res)" "set ts \<subseteq> Ts" "ckpt_inv env cfg old base Ts (turn_state T)"
  shows "ckpt_inv env cfg old base Ts st"
  using assms
proof (induction env cfg ts T rule: run_loop.induct)
  case (3 env cfg t ts st')
  then show ?case using run_turn_ckpt [OF _ _ refl, of env cfg old base Ts st' t] by simp
qed auto

lemma run_start_ckpt:
  assumes "\<And>p. cfg_checkpoint_path cfg = Some p \<Longrightarrow> settled p dk \<and> content dk p = old"
    and "base = (case Option.bind (cfg_checkpoint_path cfg) (\<lambda>p. load (re_json env) p dk) of
        Some log \<Rightarrow> set (checkpoints log) | None \<Rightarrow> {})"
  shows "ckpt_inv env cfg old base Ts (turn_state (run_start env cfg t ch dk))"
proof -
  have "rs_disk (turn_state (run_start env cfg t ch dk)) = dk"
    "set (checkpoints (rs_log (turn_state (run_start env cfg t ch dk)))) = base"
    unfolding run_start_def first_count_def Let_def assms(2) by (auto split: option.split sum.split)
  then show ?thesis using assms(1)
    by (auto simp: ckpt_inv_def log_ok_def boundary_ok_def good_contents_def intro!: guarded_start)
qed

text \<open>C8: at whatever point a run is cut off and whatever the crash does to unsynced data, the
  resume log read back afterwards is the one found at the start, or consists of boundaries of that
  log and of boundaries whose L2 block was already durable when they were recorded.\<close>

theorem crash_leaves_durable_boundaries:
  assumes "\<forall>log. rj_log (re_json env) (rj_to_vec (re_json env) log @ [10]) = Inr log"
    and "cfg_checkpoint_path cfg = Some p" and "settled p dk"
    and "found = (case load (re_json env) p dk of Some log \<Rightarrow> set (checkpoints log) | None \<Rightarrow> {})"
    and "run_l1_sync env cfg t ts ch dk = (st, res)"
  shows "load (re_json env) p (crash keep junk (rs_disk st)) = load (re_json env) p (crash keep' junk' dk)
    \<or> (\<exists>log. load (re_json env) p (crash keep junk (rs_disk st)) = Some log
        \<and> (\<forall>cp \<in> set (checkpoints log). cp \<in> found
             \<or> (\<exists>t \<in> set ts. \<exists>tip. tk_persisted t = Inr tip \<and> cp_l2_block cp \<le> tip)))"
proof -
  have "ckpt_inv env cfg (content dk p) found (set ts) (turn_state (run_start env cfg t ch dk))"
    using assms(2-4) by (intro run_start_ckpt) auto
  from run_loop_ckpt [OF assms(5) [unfolded run_l1_sync_def] order_refl this]
  have "guarded (good_contents (re_json env) (content dk p) found (set ts)) p (rs_disk st)"
    using assms(2) by (simp add: ckpt_inv_def)
  from crash_guarded [OF this, of keep junk] show ?thesis
    using assms(1) unfolding good_contents_def load_crashed crash_settled [OF assms(3)]
    by (auto simp: parse_content_def log_ok_def boundary_ok_def)
qed

section \<open>Supervision\<close>

lemma resume_config_start:
  assumes "cfg_start_l2_block base \<le> tip"
  shows "cfg_start_l2_block (resume_config js base tip dk) \<le> tip" "cfg_db_tip_l2 (resume_config js base tip dk) = tip"
    "cfg_genesis_block (resume_config js base tip dk) = cfg_genesis_block base"
    "cfg_l2_frontier (resume_config js base tip dk) = cfg_l2_frontier base"
proof -
  have "cp_l2_block cp \<le> tip" if "saved_checkpoint js base tip dk = Some cp" for cp
    using that by (auto simp: saved_checkpoint_def bind_eq_Some_conv resume_for_def find_Some_iff)
  with assms show "cfg_start_l2_block (resume_config js base tip dk) \<le> tip"
    by (simp add: resume_config_def Let_def split: option.split)
qed (simp_all add: resume_config_def Let_def split: option.split)

definition attempt_streams :: "L1SyncConfig \<Rightarrow> attempt_log \<Rightarrow> bool" where
  "attempt_streams cfg l \<longleftrightarrow>
     (unat (al_tip l) + 1 + length (al_sent l) < 2 ^ 64 \<longrightarrow> consecutive_after (al_tip l) (cfg_genesis_block cfg) (al_sent l))
     \<and> (case al_delay l of None \<Rightarrow> True | Some d \<Rightarrow> d \<le> RETRY_MAX_DELAY)"

lemma supervise_loop_streams:
  assumes "supervise_loop env base as first backoff dk = (logs, dk', r)"
    and "\<forall>a \<in> set as. \<forall>tip. at_tip a = Inr tip \<longrightarrow> cfg_start_l2_block base \<le> tip"
    and "cfg_l2_frontier base \<noteq> Some u64_max" and "rb_maximum backoff = RETRY_MAX_DELAY"
  shows "(\<forall>l \<in> set logs. attempt_streams base l)
    \<and> (\<forall>e. r = Some (Inl e) \<longrightarrow> \<not> is_retryable e \<or> (\<exists>a \<in> set as. at_tip a = Inl e \<or> at_tip_after a = Inl e))"
  using assms
proof (induction as arbitrary: first backoff dk logs dk' r)
  case (Cons a as)
  show ?case
  proof (cases "at_tip a")
    case (Inl e)
    with Cons.prems(1) show ?thesis by auto
  next
    case (Inr tip)
    then have start: "cfg_start_l2_block base \<le> tip" using Cons.prems(2) by simp
    define cfg where "cfg = (if first then base\<lparr>cfg_db_tip_l2 := tip\<rparr> else resume_config (re_json env) base tip dk)"
    have cfg: "cfg_start_l2_block cfg \<le> cfg_db_tip_l2 cfg" "cfg_db_tip_l2 cfg = tip"
      "cfg_genesis_block cfg = cfg_genesis_block base" "cfg_l2_frontier cfg \<noteq> Some u64_max"
      using resume_config_start [OF start] start Cons.prems(3) by (auto simp: cfg_def)
    obtain st res where run: "run_l1_sync env cfg (at_tick a) (at_ticks a) \<lparr>fs_sent = [], fs_room = at_room a\<rparr> dk = (st, res)"
      by (metis surj_pair)
    have sent: "attempt_streams base \<lparr>al_tip = tip, al_sent = fs_sent (rs_feed st), al_delay = d\<rparr>"
      if "\<And>x. d = Some x \<Longrightarrow> x \<le> RETRY_MAX_DELAY" for d
      using run_stream_core(1) [OF cfg(1) run _ cfg(4)] cfg(2,3) that by (auto simp: attempt_streams_def split: option.split)
    note loop = Cons.prems(1) [unfolded supervise_loop.simps Inr sum.case Let_def progress_def SyncProgress.simps
        cfg_def [symmetric] run prod.case]
    show ?thesis
    proof (cases "\<exists>e. res = Some (Inl e) \<and> is_retryable e")
      case False
      then show ?thesis using loop sent [of None] by (cases res; cases "the res") (auto split: if_splits)
    next
      case True
      then obtain e where e: "res = Some (Inl e)" "is_retryable e" by blast
      show ?thesis
      proof (cases "at_tip_after a")
        case (Inl e')
        then show ?thesis using loop e sent [of None] by auto
      next
        case after: (Inr tip')
        obtain made delay backoff' where nd: "next_delay made backoff = (delay, backoff')"
          and made: "made = (progress (re_json env) base tip' (rs_disk st) \<noteq> progress (re_json env) base tip dk)"
          by (metis surj_pair)
        have delay: "delay \<le> RETRY_MAX_DELAY" "rb_maximum backoff' = RETRY_MAX_DELAY"
          using next_delay_bounds [OF _ refl nd] Cons.prems(4) by (simp_all add: RETRY_MAX_DELAY_def DURATION_LIMIT_def)
        obtain logs1 dk1 r1 where rest: "supervise_loop env base as False backoff' (rs_disk st) = (logs1, dk1, r1)"
          by (metis prod_cases3)
        note ih = Cons.IH [OF rest _ Cons.prems(3) delay(2)]
        show ?thesis
          using loop e after nd made rest ih Cons.prems(2) sent [of "Some delay"] delay(1)
          by (auto simp: progress_def Let_def split: if_splits)
      qed
    qed
  qed
qed simp

text \<open>C11: over all restarts of a supervised sync, each attempt sends consecutive message indices from
  the block after the durable tip it found, the pauses between attempts stay within the maximum, and
  sync ends in an error only for an error that must not be retried or when the durable tip cannot be
  read.\<close>

theorem supervise_streams:
  assumes "supervise_l1_sync env base attempts dk = (logs, dk', r)"
    and "\<forall>a \<in> set attempts. \<forall>tip. at_tip a = Inr tip \<longrightarrow> cfg_start_l2_block base \<le> tip"
    and "cfg_l2_frontier base \<noteq> Some u64_max"
  shows "(\<forall>l \<in> set logs. attempt_streams base l)
    \<and> (\<forall>e. r = Some (Inl e) \<longrightarrow> \<not> is_retryable e \<or> (\<exists>a \<in> set attempts. at_tip a = Inl e \<or> at_tip_after a = Inl e))"
  using supervise_loop_streams [OF assms(1) [unfolded supervise_l1_sync_def supervise_l1_sync_with_backoff_def] assms(2,3)]
  by (simp add: RetryBackoff_new_def)

section \<open>A concrete run\<close>

text \<open>One batch without data in L1 block 15 forces in two delayed messages; the head is at block 28
  and eight confirmations are kept, so one window [10, 20] holds it.\<close>

definition wit_sync_reader :: SequencerInboxReader where
  "wit_sync_reader = wit_reader\<lparr>rd_provider := wit_provider\<lparr>pr_get_logs := (\<lambda>f. Inr [wit_batch_log 1 15])\<rparr>\<rparr>"

definition wit_tick :: tick where
  "wit_tick = \<lparr>tk_seq = wit_sync_reader, tk_delayed = wit_delayed_reader, tk_beacon = None, tk_head = Inr 28,
     tk_joined = True, tk_persisted = Inr 102, tk_stamp = 0\<rparr>"

definition wit_env :: run_env where
  "wit_env = \<lparr>re_ext = wit_ext, re_json = wit_json, re_pid = 1, re_url_ok = True\<rparr>"

definition wit_config :: "path option \<Rightarrow> u64 option \<Rightarrow> L1SyncConfig" where
  "wit_config p frontier = (mainnet [] 10 7)\<lparr>cfg_l2_frontier := frontier, cfg_start_l2_block := 100, cfg_db_tip_l2 := 100, cfg_genesis_block := 50,
     cfg_checkpoint_path := p, cfg_batch_window := 11, cfg_delayed_window := 3, cfg_prefetch_windows := 1\<rparr>"

lemma wit_sync_count: "batch_count wit_sync_reader b = Inr (if 15 \<le> b then 4 else 3)"
  by (simp add: batch_count_def wit_sync_reader_def wit_reader_def wit_provider_def slice_def)

lemma wit_sync_resolve: "resolve_batches rlp_ref_header wit_sync_reader None 10 20 = Inr [(wit_no_data, [])]"
proof -
  have "batch_logs wit_sync_reader 10 20 = Inr [wit_batch_log 1 15]"
    by (simp add: batch_logs_def wit_sync_reader_def)
  then show ?thesis by (simp add: resolve_batches_def wit_resolve_one wit_batch_def wit_no_data_def)
qed

lemma wit_config_sel [simp]:
  "cfg_start_block (wit_config p fr) = 10" "cfg_end_block (wit_config p fr) = None" "cfg_start_delayed_count (wit_config p fr) = 7"
  "cfg_start_l2_block (wit_config p fr) = 100" "cfg_db_tip_l2 (wit_config p fr) = 100" "cfg_l2_frontier (wit_config p fr) = fr"
  "cfg_genesis_block (wit_config p fr) = 50" "cfg_checkpoint_path (wit_config p fr) = p" "cfg_batch_window (wit_config p fr) = 11"
  "cfg_delayed_window (wit_config p fr) = 3" "cfg_confirmations (wit_config p fr) = 8" "cfg_prefetch_windows (wit_config p fr) = 1"
  by (simp_all add: wit_config_def mainnet_def)

lemma wit_tick_sel [simp]:
  "tk_seq wit_tick = wit_sync_reader" "tk_delayed wit_tick = wit_delayed_reader" "tk_beacon wit_tick = None"
  "tk_head wit_tick = Inr 28" "tk_joined wit_tick" "tk_persisted wit_tick = Inr 102"
  by (simp_all add: wit_tick_def)

lemma wit_filled:
  assumes "run_start wit_env (wit_config p fr) wit_tick ch dk = Running st"
  shows "rbind (refresh_head (wit_config p fr) wit_tick st) (fill_pipeline wit_env (wit_config p fr) wit_tick)
    = Inr (st\<lparr>rs_safe_head := 20, rs_head_batch_count := 4,
        rs_inflight := [(10, 20, Inr [(wit_no_data, [])])], rs_seen_batch_count := 4, rs_spawn_cursor := 21\<rparr>)"
    "rs_delayed st = 7" "rs_delayed_cache st = DelayedCache_new" "rs_report_cache st = []" "rs_next_l2 st = 101" "rs_feed st = ch"
    "rs_disk st = dk" "\<not> past_end (wit_config p fr) (rs_consume_cursor st)"
proof -
  have st: "st = \<lparr>rs_delayed = 7, rs_delayed_cache = DelayedCache_new, rs_report_cache = [],
          rs_consume_cursor = 10, rs_spawn_cursor = 10, rs_safe_head = 0,
          rs_next_l2 = 101, rs_pending = [],
          rs_log = (case Option.bind p (\<lambda>p. load wit_json p dk) of Some log \<Rightarrow> log | None \<Rightarrow> \<lparr>checkpoints = []\<rparr>),
          rs_inflight = [], rs_seen_batch_count = 3, rs_head_batch_count = 0, rs_feed = ch, rs_disk = dk\<rparr>"
    using assms by (auto simp: run_start_def first_count_def wit_env_def wit_sync_count l1_err_def Let_def split: option.splits if_splits)
  show "rs_delayed st = 7" "rs_delayed_cache st = DelayedCache_new" "rs_report_cache st = []" "rs_next_l2 st = 101"
    "rs_feed st = ch" "rs_disk st = dk" "\<not> past_end (wit_config p fr) (rs_consume_cursor st)"
    by (simp_all add: st past_end_def)
  have "sat_sub (28 :: u64) 8 = 20" by (simp add: sat_sub_def)
  then show "rbind (refresh_head (wit_config p fr) wit_tick st) (fill_pipeline wit_env (wit_config p fr) wit_tick)
    = Inr (st\<lparr>rs_safe_head := 20, rs_head_batch_count := 4,
        rs_inflight := [(10, 20, Inr [(wit_no_data, [])])], rs_seen_batch_count := 4, rs_spawn_cursor := 21\<rparr>)"
    by (simp add: st refresh_head_def wit_sync_count l1_err_def fill_pipeline_def prefetch_of_def past_end_def
        fill_one_def win_to_def scan_hi_def count_at_def wit_env_def wit_ext_def wit_sync_resolve)
qed

lemma wit_sync_start:
  assumes "fr = None \<or> fr = Some 102"
  obtains st m1 m2 dc rc rng where "run_start wit_env (wit_config p fr) wit_tick \<lparr>fs_sent = [], fs_room = None\<rparr> dk = Running st"
    "derive_from_resolved_cached wit_ext wit_sync_reader wit_delayed_reader [(wit_no_data, [])] 20 7 3 DelayedCache_new [] = (dc, rc, Inr rng)"
    "dr_messages rng = [m1, m2]"
proof -
  obtain st where st: "run_start wit_env (wit_config p fr) wit_tick \<lparr>fs_sent = [], fs_room = None\<rparr> dk = Running st"
    using assms by (auto simp: run_start_def first_count_def wit_env_def wit_sync_count l1_err_def)
  obtain dc rc rng where d: "derive_from_resolved_cached wit_ext wit_sync_reader wit_delayed_reader [(wit_no_data, [])] 20 7 3
      DelayedCache_new [] = (dc, rc, Inr rng)" and "length (dr_messages rng) = 2" by (rule wit_derive)
  then obtain m1 m2 where "dr_messages rng = [m1, m2]" by (auto simp: length_Suc_conv numeral_2_eq_2)
  with st d show thesis by (rule that)
qed

lemma wit_sync_run:
  obtains st where "run_l1_sync wit_env (wit_config p None) wit_tick [wit_tick] \<lparr>fs_sent = [], fs_room = None\<rparr> dk = (st, None)"
    "length (fs_sent (rs_feed st)) = 2" "rs_consume_cursor st = 21"
proof -
  let ?ch = "\<lparr>fs_sent = [], fs_room = None\<rparr> :: feed_sender"
  obtain st0 m1 m2 dc rc rng where st0: "run_start wit_env (wit_config p None) wit_tick ?ch dk = Running st0"
    and d: "derive_from_resolved_cached wit_ext wit_sync_reader wit_delayed_reader [(wit_no_data, [])] 20 7 3 DelayedCache_new [] = (dc, rc, Inr rng)"
    and m: "dr_messages rng = [m1, m2]" by (rule wit_sync_start [of None]) simp
  note f = wit_filled [OF st0]
  let ?st1 = "st0\<lparr>rs_safe_head := 20, rs_head_batch_count := 4, rs_seen_batch_count := 4, rs_spawn_cursor := 21, rs_inflight := []\<rparr>"
  have enq: "enqueue_derived_window [m1, m2] 101 100 50 None ?ch = (103, \<lparr>fs_sent = [m1\<lparr>bf_sequence_number := 51\<rparr>,
      m2\<lparr>bf_sequence_number := 52\<rparr>], fs_room = None\<rparr>, Inr \<lparr>wd_skipped = 0, wd_frontier_reached = None\<rparr>)"
    by (simp add: enqueue_derived_window_def feed_send_def)
  let ?st2 = "?st1\<lparr>rs_delayed_cache := dc, rs_report_cache := rc, rs_next_l2 := 103, rs_feed := \<lparr>fs_sent =
      [m1\<lparr>bf_sequence_number := 51\<rparr>, m2\<lparr>bf_sequence_number := 52\<rparr>], fs_room = None\<rparr>,
      rs_delayed := dr_next_delayed_count rng, rs_consume_cursor := 21\<rparr>"
  have "re_ext wit_env = wit_ext" by (simp add: wit_env_def)
  then have turn: "run_turn wit_env (wit_config p None) wit_tick st0 = queue_checkpoint wit_env (wit_config p None) wit_tick ?st2"
    using f d m enq by (simp add: run_turn_def consume_window_def task_panicked_def l1_err_def)
  obtain st where st: "queue_checkpoint wit_env (wit_config p None) wit_tick ?st2 = Running st"
    by (cases "queue_checkpoint wit_env (wit_config p None) wit_tick ?st2")
      (auto simp: queue_checkpoint_def Let_def split: if_splits prod.splits)
  show thesis
    by (rule that [of st])
      (use queue_checkpoint_Running(1) [OF st] queue_checkpoint_output(2) [OF st] in
        \<open>simp_all add: run_l1_sync_def st0 turn st\<close>)
qed

text \<open>With a frontier at the second message the run ends there.\<close>

lemma wit_frontier_run:
  obtains st where "run_l1_sync wit_env (wit_config p (Some 102)) wit_tick [wit_tick] \<lparr>fs_sent = [], fs_room = None\<rparr> dk
      = (st, Some (Inr (FrontierReached 102)))" "length (fs_sent (rs_feed st)) = 2"
proof -
  let ?ch = "\<lparr>fs_sent = [], fs_room = None\<rparr> :: feed_sender" and ?cfg = "wit_config p (Some 102)"
  obtain st0 m1 m2 dc rc rng where st0: "run_start wit_env ?cfg wit_tick ?ch dk = Running st0"
    and d: "derive_from_resolved_cached wit_ext wit_sync_reader wit_delayed_reader [(wit_no_data, [])] 20 7 3 DelayedCache_new [] = (dc, rc, Inr rng)"
    and m: "dr_messages rng = [m1, m2]" by (rule wit_sync_start [of "Some 102"]) simp
  note f = wit_filled [OF st0]
  let ?ch' = "\<lparr>fs_sent = [m1\<lparr>bf_sequence_number := 51\<rparr>, m2\<lparr>bf_sequence_number := 52\<rparr>], fs_room = None\<rparr>"
  have enq: "enqueue_derived_window [m1, m2] 101 100 50 (Some 102) ?ch
      = (103, ?ch', Inr \<lparr>wd_skipped = 0, wd_frontier_reached = Some (FrontierReached 102)\<rparr>)"
    by (simp add: enqueue_derived_window_def feed_send_def)
  let ?st = "st0\<lparr>rs_safe_head := 20, rs_head_batch_count := 4, rs_seen_batch_count := 4, rs_spawn_cursor := 21, rs_inflight := [],
      rs_delayed_cache := dc, rs_report_cache := rc, rs_next_l2 := 103, rs_feed := ?ch'\<rparr>"
  have "re_ext wit_env = wit_ext" by (simp add: wit_env_def)
  then have "run_turn wit_env ?cfg wit_tick st0 = Finished ?st (Inr (FrontierReached 102))"
    using f d m enq by (simp add: run_turn_def consume_window_def task_panicked_def l1_err_def)
  then show thesis by (intro that [of ?st]) (simp_all add: run_l1_sync_def st0)
qed

theorem run_stream_witness:
  "(\<exists>st. run_l1_sync wit_env (wit_config None None) wit_tick [wit_tick] \<lparr>fs_sent = [], fs_room = None\<rparr> (wit_disk []) = (st, None)
      \<and> map bf_sequence_number (fs_sent (rs_feed st)) = [51, 52])
   \<and> (\<exists>st. run_l1_sync wit_env (wit_config None (Some 102)) wit_tick [wit_tick] \<lparr>fs_sent = [], fs_room = None\<rparr> (wit_disk [])
        = (st, Some (Inr (FrontierReached 102)))
      \<and> map bf_sequence_number (fs_sent (rs_feed st)) = [51, 52])"
proof -
  obtain st where st: "run_l1_sync wit_env (wit_config None None) wit_tick [wit_tick] \<lparr>fs_sent = [], fs_room = None\<rparr> (wit_disk [])
      = (st, None)" "length (fs_sent (rs_feed st)) = 2" by (rule wit_sync_run)
  obtain st' where st': "run_l1_sync wit_env (wit_config None (Some 102)) wit_tick [wit_tick] \<lparr>fs_sent = [], fs_room = None\<rparr> (wit_disk [])
      = (st', Some (Inr (FrontierReached 102)))" "length (fs_sent (rs_feed st')) = 2" by (rule wit_frontier_run)
  have u: "[0..<2] = [0, 1 :: nat]" by (simp add: upt_rec)
  have n: "cfg_l2_frontier (wit_config None None) \<noteq> Some u64_max" "cfg_l2_frontier (wit_config None (Some 102)) \<noteq> Some u64_max"
    by (simp_all add: word_unat_eq_iff unat_u64_max)
  have "map bf_sequence_number (fs_sent (rs_feed st)) = [51, 52]" using run_stream [OF _ n(1) st(1)] st u by simp
  moreover have "map bf_sequence_number (fs_sent (rs_feed st')) = [51, 52]" using run_stream [OF _ n(2) st'(1)] st' u by simp
  ultimately show ?thesis using st(1) st'(1) by simp
qed

theorem gate_skips_no_batch_witness:
  "\<exists>st. run_l1_sync wit_env (wit_config None None) wit_tick [wit_tick] \<lparr>fs_sent = [], fs_room = None\<rparr> (wit_disk []) = (st, None)
    \<and> chained 10 (consumed_windows wit_env (wit_config None None) [wit_tick]
         (run_start wit_env (wit_config None None) wit_tick \<lparr>fs_sent = [], fs_room = None\<rparr> (wit_disk []))) 21"
proof -
  obtain st where st: "run_l1_sync wit_env (wit_config None None) wit_tick [wit_tick] \<lparr>fs_sent = [], fs_room = None\<rparr> (wit_disk [])
      = (st, None)" "rs_consume_cursor st = 21" by (rule wit_sync_run)
  let ?cnt = "\<lambda>b :: u64. if 15 \<le> b then 4 else 3 :: u64"
  have "mono ?cnt" by (auto simp: mono_def)
  moreover have "tick_ok (wit_config None None) ?cnt wit_tick"
    by (simp add: tick_ok_def counts_match_def wit_sync_count)
  ultimately show ?thesis using gate_skips_no_batch [OF _ _ _ st(1), of ?cnt] st by simp
qed

theorem crash_leaves_durable_boundaries_witness:
  "\<exists>st. run_l1_sync wit_env (wit_config (Some (path_in [])) None) wit_tick [wit_tick] \<lparr>fs_sent = [], fs_room = None\<rparr> (wit_disk [])
      = (st, None)
    \<and> (load wit_json (path_in []) (crash (\<lambda>_. True) (\<lambda>_. []) (rs_disk st)) = None
      \<or> (\<exists>log. load wit_json (path_in []) (crash (\<lambda>_. True) (\<lambda>_. []) (rs_disk st)) = Some log
          \<and> list_all (\<lambda>cp. cp_l2_block cp \<le> 102) (checkpoints log)))"
proof -
  obtain st where st: "run_l1_sync wit_env (wit_config (Some (path_in [])) None) wit_tick [wit_tick]
      \<lparr>fs_sent = [], fs_room = None\<rparr> (wit_disk []) = (st, None)" by (rule wit_sync_run) (rule that)
  have absent: "load wit_json p (wit_disk []) = None" "load wit_json p (crash k j (wit_disk [])) = None" for p k j
    by (simp_all add: load_def read_file_def attempt_def wit_disk_def crash_def crash_entry_def)
  have "settled (path_in []) (wit_disk [])" by (simp add: settled_def wit_disk_def)
  from crash_leaves_durable_boundaries [of wit_env "wit_config (Some (path_in [])) None" "path_in []", OF _ _ this refl st,
      where keep = "\<lambda>_. True" and junk = "\<lambda>_. []" and keep' = "\<lambda>_. True" and junk' = "\<lambda>_. []"]
  show ?thesis using st absent by (auto simp: wit_env_def wit_json_ok list_all_iff)
qed

theorem supervise_streams_witness:
  "\<exists>logs dk'. supervise_l1_sync wit_env (wit_config None None)
      [\<lparr>at_tip = Inr 100, at_tick = wit_tick, at_ticks = [wit_tick], at_room = None, at_shutdown = True,
        at_tip_after = Inr 100, at_shutdown_in_delay = False\<rparr>] (wit_disk []) = (logs, dk', Some (Inr Exhausted))
    \<and> length logs = 1 \<and> list_all (attempt_streams (wit_config None None)) logs"
proof -
  obtain st where st: "run_l1_sync wit_env (wit_config None None) wit_tick [wit_tick] \<lparr>fs_sent = [], fs_room = None\<rparr> (wit_disk [])
      = (st, None)" by (rule wit_sync_run) (rule that)
  have cfg: "(wit_config None None)\<lparr>cfg_db_tip_l2 := 100\<rparr> = wit_config None None" by (simp add: wit_config_def)
  have run: "supervise_l1_sync wit_env (wit_config None None)
      [\<lparr>at_tip = Inr 100, at_tick = wit_tick, at_ticks = [wit_tick], at_room = None, at_shutdown = True,
        at_tip_after = Inr 100, at_shutdown_in_delay = False\<rparr>] (wit_disk [])
    = ([\<lparr>al_tip = 100, al_sent = fs_sent (rs_feed st), al_delay = None\<rparr>], rs_disk st, Some (Inr Exhausted))"
    by (simp add: supervise_l1_sync_def supervise_l1_sync_with_backoff_def progress_def Let_def st cfg)
  from supervise_streams [OF this] show ?thesis using run by (simp add: list_all_iff)
qed

end
