(* ===== verification/Snapshot_Stream.thy ===== *)
theory Snapshot_Stream
  imports Prelude
begin

text \<open>
  The full-snapshot stream (\<open>crates/arb-reth-genesis/src/snapshot_stream.rs\<close>): its framing, the checks
  the reader makes as records go past, and the builder that writes such a stream.

  A reader is the list of bytes it still holds, and \<open>read_exact\<close> fails at their end. Keccak and the
  ordered trie root are parameters. An error names its cause; \<open>SnapPanic\<close> marks the places where the
  code panics instead of returning one. After an error the stream is not read any further.
\<close>

section \<open>Format\<close>

definition MAGIC :: bytes where
  "MAGIC = [0x41, 0x52, 0x42, 0x53, 0x4e, 0x41, 0x50, 0x32]"

definition SECTION_MANIFEST :: byte where "SECTION_MANIFEST = 0xf1"
definition SECTION_BLOCKS :: byte where "SECTION_BLOCKS = 0xf2"
definition SECTION_HISTORY :: byte where "SECTION_HISTORY = 0xf3"
definition SECTION_STATE :: byte where "SECTION_STATE = 0xf4"
definition SECTION_END :: byte where "SECTION_END = 0xff"
definition REC_END :: byte where "REC_END = 0"
definition REC_HEADER :: byte where "REC_HEADER = 1"
definition REC_BODY :: byte where "REC_BODY = 2"
definition REC_RECEIPTS :: byte where "REC_RECEIPTS = 3"
definition REC_ACCOUNT :: byte where "REC_ACCOUNT = 4"
definition REC_STORAGE :: byte where "REC_STORAGE = 5"
definition REC_CODE :: byte where "REC_CODE = 6"
definition HISTORY_VERSION_RAW_SLOTS :: byte where "HISTORY_VERSION_RAW_SLOTS = 1"

lemmas tag_defs = SECTION_MANIFEST_def SECTION_BLOCKS_def SECTION_HISTORY_def SECTION_STATE_def SECTION_END_def
  REC_END_def REC_HEADER_def REC_BODY_def REC_RECEIPTS_def REC_ACCOUNT_def REC_STORAGE_def REC_CODE_def

record ResumePoint =
  rp_l1_block :: u64
  rp_delayed_count :: u64
  rp_l2_block :: u64

record Manifest =
  mf_block :: u64
  mf_root :: b256
  mf_state_id :: u64
  mf_hash :: b256
  mf_resume :: "ResumePoint option"

record HistoryAccount =
  ha_address :: address
  ha_previous :: "(u64 \<times> u256 \<times> b256 option) option"
  ha_storage :: "(b256 \<times> u256) list"

record HistoryObject =
  ho_state_id :: u64
  ho_block :: u64
  ho_parent_root :: b256
  ho_post_root :: b256
  ho_accounts :: "HistoryAccount list"

datatype Record =
    RHeader u64 b256 bytes
  | RBody u64 bytes
  | RReceipts u64 bytes
  | RHistory HistoryObject
  | RAccount b256 u64 u256 "b256 option"
  | RStorage b256 u256
  | RCode b256 bytes

record SnapshotStream =
  ss_inner :: bytes
  ss_manifest :: Manifest
  ss_section :: byte
  ss_last_block :: "(u64 \<times> b256) option"
  ss_last_history :: "(u64 \<times> b256) option"
  ss_held :: "Record option"
  ss_finished :: bool

datatype SnapError =
    UnexpectedEof
  | NotASnapshot bytes
  | ExpectedManifest byte
  | ExpectedBlocks byte
  | BadTag byte byte
  | VarintOverflow
  | TooWide nat
  | CodeHash b256
  | HeaderHash u64 b256
  | AboveConvertPoint u64 u64
  | BlocksJump u64 u64
  | NotBuiltOn u64 u64 b256
  | HistoryVersion u64 byte
  | HistoryAbove u64 u64 u64
  | HistoryStalls u64 u64 u64
  | HistoryGap u64 u64 b256 b256
  | NoHistory
  | HistoryEndsEarly u64 u64
  | HistoryEndsElsewhere b256 b256
  | EmptyRlp
  | ShortRlp
  | RlpKind
  | RlpClaims nat nat
  | TrailingBytes
  | SnapPanic

section \<open>Reading primitives\<close>

type_synonym 'a reader = "bytes \<Rightarrow> SnapError + ('a \<times> bytes)"

definition read_exact :: "nat \<Rightarrow> bytes reader" where
  "read_exact n bs = (if length bs < n then Inl UnexpectedEof else Inr (take n bs, drop n bs))"

definition read_u8 :: "byte reader" where
  "read_u8 bs = rbind (read_exact 1 bs) (\<lambda>(b, bs). Inr (hd b, bs))"

definition read_b256 :: "b256 reader" where
  "read_b256 bs = read_exact 32 bs"

fun uvarint_loop :: "bytes \<Rightarrow> u64 \<Rightarrow> nat \<Rightarrow> SnapError + (u64 \<times> bytes)" where
  "uvarint_loop [] value shift = Inl UnexpectedEof"
| "uvarint_loop (b # bs) value shift =
     (if shift \<ge> 64 then Inl VarintOverflow
      else
        let value = or value (push_bit shift (ucast (and b 0x7f))) in
        if and b 0x80 = 0 then Inr (value, bs)
        else if shift + 7 \<ge> 64 then Inl VarintOverflow
        else uvarint_loop bs value (shift + 7))"

definition read_uvarint :: "u64 reader" where
  "read_uvarint bs = uvarint_loop bs 0 0"

definition read_short_bytes :: "bytes reader" where
  "read_short_bytes bs = rbind (read_u8 bs) (\<lambda>(len, bs). read_exact (unat len) bs)"

definition read_short_u256 :: "u256 reader" where
  "read_short_u256 bs = rbind (read_short_bytes bs) (\<lambda>(v, bs).
     if length v > 32 then Inl (TooWide (length v)) else Inr (u256_of_be v, bs))"

text \<open>A length that no allocation can have panics.\<close>

definition read_blob :: "bytes reader" where
  "read_blob bs = rbind (read_uvarint bs) (\<lambda>(len, bs).
     if unat len \<ge> 2 ^ 63 then Inl SnapPanic else read_exact (unat len) bs)"

text \<open>An optional hash: empty, or exactly 32 bytes; \<open>B256::from_slice\<close> panics on any other length.\<close>

definition read_opt_hash :: "b256 option reader" where
  "read_opt_hash bs = rbind (read_short_bytes bs) (\<lambda>(h, bs).
     if h = [] then Inr (None, bs) else if length h = 32 then Inr (Some h, bs) else Inl SnapPanic)"

fun read_many :: "nat \<Rightarrow> 'a reader \<Rightarrow> 'a list reader" where
  "read_many 0 p bs = Inr ([], bs)"
| "read_many (Suc n) p bs = rbind (p bs) (\<lambda>(x, bs). rbind (read_many n p bs) (\<lambda>(xs, bs). Inr (x # xs, bs)))"

section \<open>RLP\<close>

definition be_usize :: "bytes \<Rightarrow> nat" where
  "be_usize bs = be_nat bs mod 2 ^ 64"

definition rlp_head :: "bytes \<Rightarrow> SnapError + (nat \<times> nat)" where
  "rlp_head blob = (case blob of
       [] \<Rightarrow> Inl EmptyRlp
     | prefix # _ \<Rightarrow>
         let p = unat prefix in
         if p \<le> 0x7f then Inr (0, 1)
         else if p \<le> 0xb7 then Inr (1, p - 0x80)
         else if p \<le> 0xbf then
           rbind (ok_or ShortRlp (get_range blob 1 (1 + (p - 0xb7)))) (\<lambda>l. Inr (1 + (p - 0xb7), be_usize l))
         else if p \<le> 0xf7 then Inr (1, p - 0xc0)
         else rbind (ok_or ShortRlp (get_range blob 1 (1 + (p - 0xf7)))) (\<lambda>l. Inr (1 + (p - 0xf7), be_usize l)))"

definition rlp_split :: "bytes \<Rightarrow> bool \<Rightarrow> SnapError + (bytes \<times> bytes)" where
  "rlp_split blob want_list =
     rbind (rlp_head blob) (\<lambda>(header, len).
       if (unat (hd blob) \<ge> 0xc0) \<noteq> want_list then Inl RlpKind
       else let e = (header + len) mod 2 ^ 64 in
         rbind (ok_or (RlpClaims len (length blob)) (get_range blob header e))
           (\<lambda>payload. Inr (payload, drop e blob)))"

fun skip_fields :: "nat \<Rightarrow> bytes \<Rightarrow> SnapError + bytes" where
  "skip_fields 0 cursor = Inr cursor"
| "skip_fields (Suc n) cursor = rbind (rlp_split cursor False) (\<lambda>(_, rest). skip_fields n rest)"

definition header_field :: "bytes \<Rightarrow> nat \<Rightarrow> SnapError + bytes" where
  "header_field rlp index =
     rbind (rlp_split rlp True) (\<lambda>(cursor, rest).
       if rest \<noteq> [] then Inl TrailingBytes
       else rbind (skip_fields index cursor) (\<lambda>cursor.
            rbind (rlp_split cursor False) (\<lambda>(payload, _). Inr payload)))"

section \<open>The reader\<close>

definition open_stream :: "bytes \<Rightarrow> SnapError + SnapshotStream" where
  "open_stream bs =
     rbind (read_exact 8 bs) (\<lambda>(magic, bs).
     if magic \<noteq> MAGIC then Inl (NotASnapshot magic)
     else rbind (read_u8 bs) (\<lambda>(tag, bs).
     if tag \<noteq> SECTION_MANIFEST then Inl (ExpectedManifest tag)
     else rbind (read_uvarint bs) (\<lambda>(block, bs).
     rbind (read_b256 bs) (\<lambda>(root, bs).
     rbind (read_uvarint bs) (\<lambda>(state_id, bs).
     rbind (read_b256 bs) (\<lambda>(hash, bs).
     rbind (read_u8 bs) (\<lambda>(present, bs).
     rbind (if present = 1 then
              rbind (read_uvarint bs) (\<lambda>(l1_block, bs).
              rbind (read_uvarint bs) (\<lambda>(delayed_count, bs).
              rbind (read_uvarint bs) (\<lambda>(l2_block, bs).
              Inr (Some \<lparr>rp_l1_block = l1_block, rp_delayed_count = delayed_count, rp_l2_block = l2_block\<rparr>, bs))))
            else Inr (None, bs)) (\<lambda>(resume, bs).
     Inr \<lparr>ss_inner = bs,
          ss_manifest = \<lparr>mf_block = block, mf_root = root, mf_state_id = state_id, mf_hash = hash, mf_resume = resume\<rparr>,
          ss_section = SECTION_MANIFEST, ss_last_block = None, ss_last_history = None, ss_held = None,
          ss_finished = False\<rparr>))))))))"

definition unread :: "Record \<Rightarrow> SnapshotStream \<Rightarrow> SnapshotStream" where
  "unread r s = s\<lparr>ss_held := Some r\<rparr>"

definition check_header ::
  "(bytes \<Rightarrow> b256) \<Rightarrow> u64 \<Rightarrow> b256 \<Rightarrow> bytes \<Rightarrow> SnapshotStream \<Rightarrow> SnapError + SnapshotStream" where
  "check_header keccak block hash rlp s =
     (if keccak rlp \<noteq> hash then Inl (HeaderHash block hash)
      else if block > mf_block (ss_manifest s) then Inl (AboveConvertPoint block (mf_block (ss_manifest s)))
      else rbind (header_field rlp 0) (\<lambda>parent.
        case ss_last_block s of
          None \<Rightarrow> Inr (s\<lparr>ss_last_block := Some (block, hash)\<rparr>)
        | Some (last_number, last_hash) \<Rightarrow>
            if block \<noteq> last_number + 1 then Inl (BlocksJump last_number block)
            else if parent \<noteq> last_hash
              then (if length parent = 32 then Inl (NotBuiltOn block last_number parent) else Inl SnapPanic)
            else Inr (s\<lparr>ss_last_block := Some (block, hash)\<rparr>)))"

definition read_slot :: "(b256 \<times> u256) reader" where
  "read_slot bs = rbind (read_b256 bs) (\<lambda>(key, bs). rbind (read_short_u256 bs) (\<lambda>(v, bs). Inr ((key, v), bs)))"

definition read_account :: "HistoryAccount reader" where
  "read_account bs =
     rbind (read_exact 20 bs) (\<lambda>(address, bs).
     rbind (read_u8 bs) (\<lambda>(present, bs).
     rbind (if present = 0 then Inr (None, bs)
            else rbind (read_uvarint bs) (\<lambda>(nonce, bs).
                 rbind (read_short_u256 bs) (\<lambda>(balance, bs).
                 rbind (read_opt_hash bs) (\<lambda>(code_hash, bs).
                 Inr (Some (nonce, balance, code_hash), bs))))) (\<lambda>(previous, bs).
     rbind (read_uvarint bs) (\<lambda>(slots, bs).
     rbind (read_many (unat slots) read_slot bs) (\<lambda>(storage, bs).
     Inr (\<lparr>ha_address = address, ha_previous = previous, ha_storage = storage\<rparr>, bs))))))"

definition check_history :: "u64 \<Rightarrow> u64 \<Rightarrow> byte \<Rightarrow> b256 \<Rightarrow> SnapshotStream \<Rightarrow> SnapError + unit" where
  "check_history state_id block version parent_root s =
     (if version \<noteq> HISTORY_VERSION_RAW_SLOTS then Inl (HistoryVersion state_id version)
      else if block > mf_block (ss_manifest s) then Inl (HistoryAbove state_id block (mf_block (ss_manifest s)))
      else case ss_last_history s of
        None \<Rightarrow> Inr ()
      | Some (last_block, last_post) \<Rightarrow>
          if block \<le> last_block then Inl (HistoryStalls state_id block last_block)
          else if parent_root \<noteq> last_post then Inl (HistoryGap state_id block parent_root last_post)
          else Inr ())"

definition read_history :: "SnapshotStream \<Rightarrow> SnapError + (HistoryObject \<times> SnapshotStream)" where
  "read_history s =
     rbind (read_uvarint (ss_inner s)) (\<lambda>(state_id, bs).
     rbind (read_uvarint bs) (\<lambda>(block, bs).
     rbind (read_u8 bs) (\<lambda>(version, bs).
     rbind (read_b256 bs) (\<lambda>(parent_root, bs).
     rbind (read_b256 bs) (\<lambda>(post_root, bs).
     rbind (check_history state_id block version parent_root s) (\<lambda>_.
     rbind (read_uvarint bs) (\<lambda>(cnt, bs).
     rbind (read_many (unat cnt) read_account bs) (\<lambda>(accounts, bs).
     Inr (\<lparr>ho_state_id = state_id, ho_block = block, ho_parent_root = parent_root, ho_post_root = post_root,
           ho_accounts = accounts\<rparr>,
          s\<lparr>ss_inner := bs, ss_last_history := Some (block, post_root)\<rparr>)))))))))"

text \<open>One record of the section, after its tag.\<close>

definition read_record :: "(bytes \<Rightarrow> b256) \<Rightarrow> byte \<Rightarrow> SnapshotStream \<Rightarrow> SnapError + (Record \<times> SnapshotStream)" where
  "read_record keccak tag s =
     (if ss_section s = SECTION_BLOCKS \<and> tag = REC_HEADER then
        rbind (read_uvarint (ss_inner s)) (\<lambda>(block, bs).
        rbind (read_b256 bs) (\<lambda>(hash, bs).
        rbind (read_blob bs) (\<lambda>(rlp, bs).
        rbind (check_header keccak block hash rlp (s\<lparr>ss_inner := bs\<rparr>)) (\<lambda>s.
        Inr (RHeader block hash rlp, s)))))
      else if ss_section s = SECTION_BLOCKS \<and> tag = REC_BODY then
        rbind (read_uvarint (ss_inner s)) (\<lambda>(block, bs).
        rbind (read_blob bs) (\<lambda>(rlp, bs). Inr (RBody block rlp, s\<lparr>ss_inner := bs\<rparr>)))
      else if ss_section s = SECTION_BLOCKS \<and> tag = REC_RECEIPTS then
        rbind (read_uvarint (ss_inner s)) (\<lambda>(block, bs).
        rbind (read_blob bs) (\<lambda>(rlp, bs). Inr (RReceipts block rlp, s\<lparr>ss_inner := bs\<rparr>)))
      else if ss_section s = SECTION_HISTORY \<and> tag = REC_HEADER then
        rbind (read_history s) (\<lambda>(object, s). Inr (RHistory object, s))
      else if ss_section s = SECTION_STATE \<and> tag = REC_ACCOUNT then
        rbind (read_b256 (ss_inner s)) (\<lambda>(hashed_address, bs).
        rbind (read_uvarint bs) (\<lambda>(nonce, bs).
        rbind (read_short_u256 bs) (\<lambda>(balance, bs).
        rbind (read_opt_hash bs) (\<lambda>(code_hash, bs).
        Inr (RAccount hashed_address nonce balance code_hash, s\<lparr>ss_inner := bs\<rparr>)))))
      else if ss_section s = SECTION_STATE \<and> tag = REC_STORAGE then
        rbind (read_b256 (ss_inner s)) (\<lambda>(hashed_slot, bs).
        rbind (read_short_u256 bs) (\<lambda>(v, bs). Inr (RStorage hashed_slot v, s\<lparr>ss_inner := bs\<rparr>)))
      else if ss_section s = SECTION_STATE \<and> tag = REC_CODE then
        rbind (read_b256 (ss_inner s)) (\<lambda>(hash, bs).
        rbind (read_blob bs) (\<lambda>(code, bs).
        if keccak code \<noteq> hash then Inl (CodeHash hash) else Inr (RCode hash code, s\<lparr>ss_inner := bs\<rparr>)))
      else Inl (BadTag tag (ss_section s)))"

definition opens_section :: "byte \<Rightarrow> byte \<Rightarrow> bool" where
  "opens_section section_tag tag \<longleftrightarrow> (section_tag, tag) \<in> {(SECTION_MANIFEST, SECTION_BLOCKS),
     (SECTION_BLOCKS, SECTION_HISTORY), (SECTION_HISTORY, SECTION_STATE)}"

text \<open>The loop over tags: opening or ending a section reads on, a record or the end of the stream
  returns. Every round takes a byte.\<close>

function next_loop :: "(bytes \<Rightarrow> b256) \<Rightarrow> SnapshotStream \<Rightarrow> SnapError + (Record option \<times> SnapshotStream)" where
  "next_loop keccak s = (case ss_inner s of
       [] \<Rightarrow> Inl UnexpectedEof
     | tag # bs \<Rightarrow>
         let s1 = s\<lparr>ss_inner := bs\<rparr> in
         if opens_section (ss_section s) tag then next_loop keccak (s1\<lparr>ss_section := tag\<rparr>)
         else if ss_section s = SECTION_STATE \<and> tag = SECTION_END then Inr (None, s1\<lparr>ss_finished := True\<rparr>)
         else if ss_section s = SECTION_MANIFEST then Inl (ExpectedBlocks tag)
         else if tag = REC_END then next_loop keccak s1
         else rbind (read_record keccak tag s1) (\<lambda>(r, s). Inr (Some r, s)))"
  by pat_completeness auto

termination next_loop
  by (relation "measure (\<lambda>(k, s). length (ss_inner s))") auto

declare next_loop.simps [simp del]

definition next_record :: "(bytes \<Rightarrow> b256) \<Rightarrow> SnapshotStream \<Rightarrow> SnapError + (Record option \<times> SnapshotStream)" where
  "next_record keccak s = (case ss_held s of
       Some r \<Rightarrow> Inr (Some r, s\<lparr>ss_held := None\<rparr>)
     | None \<Rightarrow> if ss_finished s then Inr (None, s) else next_loop keccak s)"

definition check_history_meets_state :: "SnapshotStream \<Rightarrow> SnapError + unit" where
  "check_history_meets_state s = (case ss_last_history s of
       None \<Rightarrow> Inl NoHistory
     | Some (block, post_root) \<Rightarrow>
         if block \<noteq> mf_block (ss_manifest s) then Inl (HistoryEndsEarly block (mf_block (ss_manifest s)))
         else if post_root \<noteq> mf_root (ss_manifest s) then Inl (HistoryEndsElsewhere post_root (mf_root (ss_manifest s)))
         else Inr ())"

definition last_block :: "SnapshotStream \<Rightarrow> u64 option" where
  "last_block s = map_option fst (ss_last_block s)"

section \<open>Transactions root\<close>

lemma rlp_head_bounds:
  assumes "rlp_head blob = Inr (header, len)"
  shows "0 < header + len" "header \<le> 9" "blob \<noteq> []" "len < 2 ^ 64"
proof -
  from assms obtain p rest where b: "blob = p # rest" by (cases blob) (auto simp: rlp_head_def)
  have p: "unat p < 256" using unat_bound [of p] by simp
  show "0 < header + len" "header \<le> 9" "blob \<noteq> []" "len < 2 ^ 64"
    using assms p by (auto simp: rlp_head_def b be_usize_def Let_def result_simps split: if_splits)
qed

lemma rlp_split_shrinks:
  assumes "rlp_split blob want = Inr (payload, rest)"
  shows "length rest < length blob" "\<exists>header. blob = header @ payload @ rest"
proof -
  from assms obtain header len e where h: "rlp_head blob = Inr (header, len)" and e: "e = (header + len) mod 2 ^ 64"
    and g: "get_range blob header e = Some payload" and r: "rest = drop e blob"
    by (auto simp: rlp_split_def result_simps Let_def split: if_splits)
  note hb = rlp_head_bounds [OF h]
  from g have bounds: "header \<le> e" "e \<le> length blob" "payload = slice header e blob"
    by (auto simp: get_range_def split: if_splits)
  have "0 < e"
  proof (cases "header = 0")
    case True
    with hb(1,4) e show ?thesis by simp
  qed (use bounds in simp)
  with bounds r hb(3) show "length rest < length blob" by (cases blob) auto
  have "blob = take header blob @ slice header e blob @ drop e blob"
    using bounds(1) by (metis append.assoc append_take_drop_id drop_take slice_def take_add le_add_diff_inverse)
  then show "\<exists>header. blob = header @ payload @ rest" using bounds(3) r by blast
qed

function tx_items :: "bytes \<Rightarrow> SnapError + bytes list" where
  "tx_items cursor =
     (if cursor = [] then Inr []
      else let is_list = unat (hd cursor) \<ge> 0xc0 in
        rbind (rlp_split cursor is_list) (\<lambda>(payload, rest).
        rbind (tx_items rest) (\<lambda>items.
        Inr ((if is_list then take (length cursor - length rest) cursor else payload) # items))))"
  by pat_completeness auto

termination tx_items
  by (relation "measure length") (auto dest: rlp_split_shrinks(1))

declare tx_items.simps [simp del]

definition transactions_root :: "(bytes list \<Rightarrow> b256) \<Rightarrow> bytes \<Rightarrow> SnapError + b256" where
  "transactions_root ordered_root body_rlp =
     rbind (rlp_split body_rlp True) (\<lambda>(body, rest).
       if rest \<noteq> [] then Inl TrailingBytes
       else rbind (rlp_split body True) (\<lambda>(txs, _). rbind (tx_items txs) (\<lambda>encoded. Inr (ordered_root encoded))))"

section \<open>The builder\<close>

lemma unat_drop_bit_less: "0x80 \<le> (v :: u64) \<Longrightarrow> unat (drop_bit 7 v) < unat v"
  by (simp add: drop_bit_eq_div unat_div word_le_nat_alt)

function put_uvarint :: "u64 \<Rightarrow> bytes" where
  "put_uvarint v = (if v \<ge> 0x80 then or (ucast v) 0x80 # put_uvarint (drop_bit 7 v) else [ucast v])"
  by pat_completeness auto

termination put_uvarint
  by (relation "measure unat") (auto simp: unat_drop_bit_less)

declare put_uvarint.simps [simp del]

definition put_short :: "bytes \<Rightarrow> bytes" where
  "put_short b = word_of_nat (length b) # b"

definition trim :: "bytes \<Rightarrow> bytes" where
  "trim bs = dropWhile (\<lambda>b. b = 0) bs"

definition put_u256 :: "u256 \<Rightarrow> bytes" where
  "put_u256 v = put_short (trim (u256_to_be v))"

definition put_blob :: "bytes \<Rightarrow> bytes" where
  "put_blob b = put_uvarint (word_of_nat (length b)) @ b"

definition put_opt_hash :: "b256 option \<Rightarrow> bytes" where
  "put_opt_hash h = put_short (case h of None \<Rightarrow> [] | Some c \<Rightarrow> c)"

definition StreamBuilder_new :: "Manifest \<Rightarrow> bytes" where
  "StreamBuilder_new m = MAGIC @ [SECTION_MANIFEST] @ put_uvarint (mf_block m) @ mf_root m @ put_uvarint (mf_state_id m)
     @ mf_hash m @ (case mf_resume m of None \<Rightarrow> [0]
         | Some r \<Rightarrow> [1] @ put_uvarint (rp_l1_block r) @ put_uvarint (rp_delayed_count r) @ put_uvarint (rp_l2_block r))"

definition put_slot :: "b256 \<times> u256 \<Rightarrow> bytes" where
  "put_slot kv = fst kv @ put_u256 (snd kv)"

definition put_account :: "HistoryAccount \<Rightarrow> bytes" where
  "put_account a = ha_address a
     @ (case ha_previous a of None \<Rightarrow> [0]
        | Some (nonce, balance, code) \<Rightarrow> [1] @ put_uvarint nonce @ put_u256 balance @ put_opt_hash code)
     @ put_uvarint (word_of_nat (length (ha_storage a))) @ concat (map put_slot (ha_storage a))"

definition put_history :: "HistoryObject \<Rightarrow> bytes" where
  "put_history ob = REC_HEADER # put_uvarint (ho_state_id ob) @ put_uvarint (ho_block ob) @ [HISTORY_VERSION_RAW_SLOTS]
     @ ho_parent_root ob @ ho_post_root ob @ put_uvarint (word_of_nat (length (ho_accounts ob)))
     @ concat (map put_account (ho_accounts ob))"

text \<open>The builder derives the hashes of headers and code from their bytes.\<close>

definition put_header :: "(bytes \<Rightarrow> b256) \<Rightarrow> u64 \<Rightarrow> bytes \<Rightarrow> bytes" where
  "put_header keccak block rlp = REC_HEADER # put_uvarint block @ keccak rlp @ put_blob rlp"

definition put_body :: "u64 \<Rightarrow> bytes \<Rightarrow> bytes" where
  "put_body block rlp = REC_BODY # put_uvarint block @ put_blob rlp"

definition put_receipts :: "u64 \<Rightarrow> bytes \<Rightarrow> bytes" where
  "put_receipts block rlp = REC_RECEIPTS # put_uvarint block @ put_blob rlp"

definition put_state_account :: "b256 \<Rightarrow> u64 \<Rightarrow> u256 \<Rightarrow> b256 option \<Rightarrow> bytes" where
  "put_state_account hashed_address nonce balance code_hash =
     REC_ACCOUNT # hashed_address @ put_uvarint nonce @ put_u256 balance @ put_opt_hash code_hash"

definition put_storage :: "b256 \<Rightarrow> u256 \<Rightarrow> bytes" where
  "put_storage hashed_slot v = REC_STORAGE # hashed_slot @ put_u256 v"

definition put_code :: "(bytes \<Rightarrow> b256) \<Rightarrow> bytes \<Rightarrow> bytes" where
  "put_code keccak code = REC_CODE # keccak code @ put_blob code"

section \<open>Variable-length integers\<close>

lemma and_7f: "and w 0x7f = take_bit 7 (w :: 'a::len word)"
  by (simp add: take_bit_eq_mask mask_eq_exp_minus_1)

lemma bit_0x80: "bit (0x80 :: 'a::len word) n \<longleftrightarrow> n = 7 \<and> 7 < LENGTH('a)"
proof -
  have "(0x80 :: 'a word) = push_bit 7 1" by (simp add: push_bit_eq_mult)
  then show ?thesis by (simp only: bit_push_bit_iff bit_1_iff possible_bit_word) auto
qed

lemma uvarint_last:
  assumes "v < (0x80 :: u64)"
  shows "and (ucast v :: byte) 0x80 = 0" "ucast (and (ucast v :: byte) 0x7f) = v"
proof -
  have "unat (take_bit 7 v) = unat v" using assms by (simp add: take_bit_eq_mod unat_mod word_less_nat_alt)
  then have "take_bit 7 v = v" by (simp add: word_unat_eq_iff)
  then have bits: "n < 7" if "bit v n" for n using bit_take_bit_iff [of 7 v n] that by simp
  show "and (ucast v :: byte) 0x80 = 0"
    by (rule bit_eqI, unfold bit_and_iff bit_0x80 bit_unsigned_iff) (use bits [of 7] in auto)
  show "ucast (and (ucast v :: byte) 0x7f) = v"
    by (rule bit_eqI) (auto simp: and_7f bit_take_bit_iff bit_unsigned_iff dest: bits)
qed

lemma uvarint_more:
  fixes v :: u64
  shows "and (or (ucast v) 0x80 :: byte) 0x80 \<noteq> 0"
    "or (or acc (push_bit shift (ucast (and (or (ucast v) 0x80 :: byte) 0x7f)))) (push_bit (shift + 7) (drop_bit 7 v))
      = or acc (push_bit shift v)"
proof -
  have "bit (and (or (ucast v) 0x80 :: byte) 0x80) 7" by (unfold bit_and_iff bit_or_iff bit_0x80) simp
  then show "and (or (ucast v) 0x80 :: byte) 0x80 \<noteq> 0" by auto
  have low: "ucast (and (or (ucast v) 0x80 :: byte) 0x7f) = take_bit 7 v"
    by (rule bit_eqI, unfold and_7f bit_take_bit_iff bit_unsigned_iff bit_or_iff bit_0x80) auto
  have "or (take_bit 7 v) (push_bit 7 (drop_bit 7 v)) = v"
  proof (rule bit_eqI)
    fix n assume "possible_bit TYPE(64 word) n"
    then show "bit (or (take_bit 7 v) (push_bit 7 (drop_bit 7 v))) n = bit v n"
      by (cases "n < 7") (simp_all add: bit_or_iff bit_take_bit_iff bit_push_bit_iff bit_drop_bit_eq possible_bit_word not_less)
  qed
  then have "or (push_bit shift (take_bit 7 v)) (push_bit shift (push_bit 7 (drop_bit 7 v))) = push_bit shift v"
    by (metis push_bit_or)
  then show "or (or acc (push_bit shift (ucast (and (or (ucast v) 0x80 :: byte) 0x7f)))) (push_bit (shift + 7) (drop_bit 7 v))
      = or acc (push_bit shift v)"
    unfolding low by (simp add: or.assoc push_bit_push_bit add.commute)
qed

lemma uvarint_loop_put:
  "shift < 64 \<Longrightarrow> unat v < 2 ^ (64 - shift) \<Longrightarrow>
    uvarint_loop (put_uvarint v @ rest) acc shift = Inr (or acc (push_bit shift v), rest)"
proof (induction v arbitrary: acc shift rule: put_uvarint.induct)
  case (1 v)
  show ?case
  proof (cases "v \<ge> 0x80")
    case True
    then have "2 ^ 7 \<le> unat v" by (simp add: word_le_nat_alt)
    then have "(2 :: nat) ^ 7 < 2 ^ (64 - shift)" using 1(3) by linarith
    then have "7 < 64 - shift" by (rule power_less_imp_less_exp [rotated]) simp
    then have shift: "shift + 7 < 64" by simp
    have "unat (drop_bit 7 v) = unat v div 2 ^ 7" by (simp add: drop_bit_eq_div unat_div)
    moreover have "unat v < 2 ^ (64 - (shift + 7)) * 2 ^ 7"
    proof -
      have "64 - shift = 64 - (shift + 7) + 7" using shift by simp
      from 1(3) [unfolded this power_add] show ?thesis .
    qed
    then have "unat v div 2 ^ 7 < 2 ^ (64 - (shift + 7))" by (rule less_mult_imp_div_less)
    ultimately have "unat (drop_bit 7 v) < 2 ^ (64 - (shift + 7))" by simp
    note ih = 1(1) [OF True shift this]
    have "put_uvarint v @ rest = or (ucast v) 0x80 # put_uvarint (drop_bit 7 v) @ rest"
      using True by (subst put_uvarint.simps) simp
    then show ?thesis
      using shift 1(2) uvarint_more(1) [of v]
      by (simp only: uvarint_loop.simps Let_def ih uvarint_more(2) not_le [symmetric] if_False)
  next
    case False
    then have "v < 0x80" by simp
    have "put_uvarint v @ rest = ucast v # rest" using False by (subst put_uvarint.simps) simp
    then show ?thesis
      using 1(2) uvarint_last [OF \<open>v < 0x80\<close>]
      by (simp only: uvarint_loop.simps Let_def not_le [symmetric] if_False if_True refl)
  qed
qed

lemma read_put_uvarint [simp]: "read_uvarint (put_uvarint v @ rest) = Inr (v, rest)"
  using uvarint_loop_put [of 0 v rest 0] unat_bound [of v] by (simp add: read_uvarint_def)

section \<open>Round trips of the parts\<close>

lemma read_exact_append [simp]: "length xs = n \<Longrightarrow> read_exact n (xs @ rest) = Inr (xs, rest)"
  by (simp add: read_exact_def)

lemma read_b256_append [simp]: "length xs = 32 \<Longrightarrow> read_b256 (xs @ rest) = Inr (xs, rest)"
  by (simp add: read_b256_def)

lemma read_u8_Cons [simp]: "read_u8 (b # bs) = Inr (b, bs)"
  by (simp add: read_u8_def read_exact_def)

lemma read_put_short [simp]: "length b < 256 \<Longrightarrow> read_short_bytes (put_short b @ rest) = Inr (b, rest)"
  by (simp add: read_short_bytes_def put_short_def unat_byte_of_nat)

lemma be_nat_trim: "be_nat (trim bs) = be_nat bs"
proof (induction bs)
  case (Cons b bs)
  have "be_nat (0 # bs) = be_nat bs" by (simp add: be_nat_def)
  with Cons show ?case by (simp add: trim_def)
qed (simp add: trim_def)

lemma read_put_u256 [simp]: "read_short_u256 (put_u256 v @ rest) = Inr (v, rest)"
proof -
  have "length (trim (u256_to_be v)) \<le> 32"
    using length_dropWhile_le [of "\<lambda>b. b = 0" "u256_to_be v"] by (simp add: trim_def)
  moreover have "u256_of_be (trim (u256_to_be v)) = v"
    using u256_of_to_be [of v] by (simp add: u256_of_be_def be_nat_trim)
  ultimately show ?thesis by (simp add: put_u256_def read_short_u256_def)
qed

lemma read_put_blob [simp]: "length b < 2 ^ 63 \<Longrightarrow> read_blob (put_blob b @ rest) = Inr (b, rest)"
  by (simp add: read_blob_def put_blob_def unat_of_nat take_bit_eq_mod)

definition hash_wf :: "b256 option \<Rightarrow> bool" where
  "hash_wf h = (case h of None \<Rightarrow> True | Some c \<Rightarrow> length c = 32)"

lemma read_put_opt_hash [simp]: "hash_wf h \<Longrightarrow> read_opt_hash (put_opt_hash h @ rest) = Inr (h, rest)"
  by (cases h) (auto simp: read_opt_hash_def put_opt_hash_def hash_wf_def)

lemma read_many_put:
  assumes "\<And>x rest. x \<in> set xs \<Longrightarrow> p (enc x @ rest) = Inr (x, rest)"
  shows "read_many (length xs) p (concat (map enc xs) @ rest) = Inr (xs, rest)"
  using assms by (induction xs) auto

lemma unat_length: "length xs < 2 ^ 64 \<Longrightarrow> unat (word_of_nat (length xs) :: u64) = length xs"
  by (simp add: unat_of_nat take_bit_eq_mod)

definition account_wf :: "HistoryAccount \<Rightarrow> bool" where
  "account_wf a \<longleftrightarrow> length (ha_address a) = 20 \<and> length (ha_storage a) < 2 ^ 64
     \<and> (\<forall>kv \<in> set (ha_storage a). length (fst kv) = 32)
     \<and> (case ha_previous a of None \<Rightarrow> True | Some (_, _, code) \<Rightarrow> hash_wf code)"

lemma read_put_account [simp]: "account_wf a \<Longrightarrow> read_account (put_account a @ rest) = Inr (a, rest)"
proof -
  assume wf: "account_wf a"
  have slots: "read_many (length (ha_storage a)) read_slot (concat (map put_slot (ha_storage a)) @ rest)
      = Inr (ha_storage a, rest)"
    using wf by (intro read_many_put) (auto simp: account_wf_def read_slot_def put_slot_def)
  show ?thesis
  proof (cases "ha_previous a")
    case None
    with wf slots show ?thesis
      by (cases a) (simp add: account_wf_def read_account_def put_account_def unat_length)
  next
    case (Some x)
    obtain nonce balance code where x: "x = (nonce, balance, code)" by (cases x)
    with wf slots Some show ?thesis
      by (cases a) (simp add: account_wf_def read_account_def put_account_def unat_length)
  qed
qed

section \<open>Round trip of a stream\<close>

definition manifest_wf :: "Manifest \<Rightarrow> bool" where
  "manifest_wf m \<longleftrightarrow> length (mf_root m) = 32 \<and> length (mf_hash m) = 32"

definition history_wf :: "HistoryObject \<Rightarrow> bool" where
  "history_wf ob \<longleftrightarrow> length (ho_parent_root ob) = 32 \<and> length (ho_post_root ob) = 32 \<and> length (ho_accounts ob) < 2 ^ 64
     \<and> (\<forall>a \<in> set (ho_accounts ob). account_wf a)"

text \<open>Sizes the format can carry.\<close>

fun record_wf :: "Record \<Rightarrow> bool" where
  "record_wf (RHeader block hash rlp) \<longleftrightarrow> length hash = 32 \<and> length rlp < 2 ^ 63"
| "record_wf (RBody block rlp) \<longleftrightarrow> length rlp < 2 ^ 63"
| "record_wf (RReceipts block rlp) \<longleftrightarrow> length rlp < 2 ^ 63"
| "record_wf (RHistory ob) \<longleftrightarrow> history_wf ob"
| "record_wf (RAccount h nonce balance code) \<longleftrightarrow> length h = 32 \<and> hash_wf code"
| "record_wf (RStorage h v) \<longleftrightarrow> length h = 32"
| "record_wf (RCode hash code) \<longleftrightarrow> length hash = 32 \<and> length code < 2 ^ 63"

fun put_record :: "(bytes \<Rightarrow> b256) \<Rightarrow> Record \<Rightarrow> bytes" where
  "put_record keccak (RHeader block hash rlp) = put_header keccak block rlp"
| "put_record keccak (RBody block rlp) = put_body block rlp"
| "put_record keccak (RReceipts block rlp) = put_receipts block rlp"
| "put_record keccak (RHistory ob) = put_history ob"
| "put_record keccak (RAccount h nonce balance code) = put_state_account h nonce balance code"
| "put_record keccak (RStorage h v) = put_storage h v"
| "put_record keccak (RCode hash code) = put_code keccak code"

fun record_section :: "Record \<Rightarrow> byte" where
  "record_section (RHeader _ _ _) = SECTION_BLOCKS"
| "record_section (RBody _ _) = SECTION_BLOCKS"
| "record_section (RReceipts _ _) = SECTION_BLOCKS"
| "record_section (RHistory _) = SECTION_HISTORY"
| "record_section (RAccount _ _ _ _) = SECTION_STATE"
| "record_section (RStorage _ _) = SECTION_STATE"
| "record_section (RCode _ _) = SECTION_STATE"

text \<open>The checks on one record, given the last block and history object before it.\<close>

fun record_ok :: "(bytes \<Rightarrow> b256) \<Rightarrow> Manifest \<Rightarrow> (u64 \<times> b256) option \<Rightarrow> (u64 \<times> b256) option \<Rightarrow> Record \<Rightarrow> bool" where
  "record_ok keccak m lb lh (RHeader block hash rlp) \<longleftrightarrow>
     keccak rlp = hash \<and> block \<le> mf_block m \<and> (\<exists>parent. header_field rlp 0 = Inr parent
       \<and> (case lb of None \<Rightarrow> True | Some (n, h) \<Rightarrow> block = n + 1 \<and> parent = h))"
| "record_ok keccak m lb lh (RHistory ob) \<longleftrightarrow> ho_block ob \<le> mf_block m
     \<and> (case lh of None \<Rightarrow> True | Some (n, r) \<Rightarrow> n < ho_block ob \<and> ho_parent_root ob = r)"
| "record_ok keccak m lb lh (RCode hash code) \<longleftrightarrow> keccak code = hash"
| "record_ok keccak m lb lh _ \<longleftrightarrow> True"

fun after_block :: "(u64 \<times> b256) option \<Rightarrow> Record \<Rightarrow> (u64 \<times> b256) option" where
  "after_block lb (RHeader block hash rlp) = Some (block, hash)"
| "after_block lb _ = lb"

fun after_history :: "(u64 \<times> b256) option \<Rightarrow> Record \<Rightarrow> (u64 \<times> b256) option" where
  "after_history lh (RHistory ob) = Some (ho_block ob, ho_post_root ob)"
| "after_history lh _ = lh"

lemma check_header_iff:
  "check_header keccak block hash rlp s = Inr s' \<longleftrightarrow>
     record_ok keccak (ss_manifest s) (ss_last_block s) lh (RHeader block hash rlp) \<and> s' = s\<lparr>ss_last_block := Some (block, hash)\<rparr>"
  by (cases "ss_last_block s") (auto simp: check_header_def not_less rbind_eq_Inr split: if_splits)

lemma check_history_iff:
  "check_history state_id block version parent_root s = Inr u \<longleftrightarrow>
     version = HISTORY_VERSION_RAW_SLOTS \<and> block \<le> mf_block (ss_manifest s)
     \<and> (case ss_last_history s of None \<Rightarrow> True | Some (n, r) \<Rightarrow> n < block \<and> parent_root = r)"
  by (auto simp: check_history_def not_less split: option.splits if_splits)

definition advance :: "Record \<Rightarrow> bytes \<Rightarrow> SnapshotStream \<Rightarrow> SnapshotStream" where
  "advance r bs s = s\<lparr>ss_inner := bs, ss_last_block := after_block (ss_last_block s) r,
     ss_last_history := after_history (ss_last_history s) r\<rparr>"

lemma read_history_put:
  assumes "history_wf ob" "record_ok keccak (ss_manifest s) (ss_last_block s) (ss_last_history s) (RHistory ob)"
  shows "read_history (s\<lparr>ss_inner := tl (put_history ob) @ rest\<rparr>) = Inr (ob, advance (RHistory ob) rest s)"
proof -
  have accounts: "read_many (length (ho_accounts ob)) read_account (concat (map put_account (ho_accounts ob)) @ rest)
      = Inr (ho_accounts ob, rest)"
    using assms(1) by (intro read_many_put) (simp add: history_wf_def)
  have "\<lparr>ho_state_id = ho_state_id ob, ho_block = ho_block ob, ho_parent_root = ho_parent_root ob,
      ho_post_root = ho_post_root ob, ho_accounts = ho_accounts ob\<rparr> = ob"
    by simp
  moreover have "check_history (ho_state_id ob) (ho_block ob) HISTORY_VERSION_RAW_SLOTS (ho_parent_root ob) s0 = Inr ()"
    if "ss_manifest s0 = ss_manifest s" "ss_last_history s0 = ss_last_history s" for s0
    using assms(2) that by (simp add: check_history_iff)
  ultimately show ?thesis
    using assms(1) accounts
    by (simp add: put_history_def history_wf_def read_history_def unat_length advance_def)
qed

lemma next_record_put:
  assumes "record_wf r" "record_ok keccak (ss_manifest s) (ss_last_block s) (ss_last_history s) r"
    and "ss_section s = record_section r" "ss_held s = None" "\<not> ss_finished s"
  shows "next_record keccak (s\<lparr>ss_inner := put_record keccak r @ rest\<rparr>) = Inr (Some r, advance r rest s)"
proof -
  define rec where "rec = put_record keccak r"
  have tag: "\<not> opens_section (ss_section s) (hd rec)" "hd rec \<noteq> SECTION_END" "ss_section s \<noteq> SECTION_MANIFEST"
    "hd rec \<noteq> REC_END" "rec = hd rec # tl rec"
    using assms(3) by (cases r; simp add: rec_def opens_section_def put_header_def put_body_def put_receipts_def
        put_history_def put_state_account_def put_storage_def put_code_def tag_defs)+
  have "read_record keccak (hd rec) (s\<lparr>ss_inner := tl rec @ rest\<rparr>) = Inr (r, advance r rest s)"
  proof (cases r)
    case (RHeader block hash rlp)
    have "check_header keccak block hash rlp (s\<lparr>ss_inner := rest\<rparr>) = Inr (advance r rest s)"
      using assms(2) RHeader by (simp add: check_header_iff [where lh = None] advance_def)
    then show ?thesis
      using assms RHeader by (auto simp: rec_def read_record_def put_header_def advance_def)
  next
    case (RHistory ob)
    then have "hd rec = REC_HEADER" "tl rec = tl (put_history ob)" by (simp_all add: rec_def put_history_def)
    moreover have "read_history (s\<lparr>ss_inner := tl (put_history ob) @ rest\<rparr>) = Inr (ob, advance r rest s)"
      using read_history_put [of ob keccak s rest] assms(1,2) RHistory by simp
    moreover have "ss_section s = SECTION_HISTORY" using assms(3) RHistory by simp
    ultimately show ?thesis using RHistory by (simp add: read_record_def tag_defs)
  qed (use assms in \<open>auto simp: rec_def read_record_def put_body_def put_receipts_def put_state_account_def
        put_storage_def put_code_def advance_def tag_defs\<close>)
  then show ?thesis
    using tag assms(4,5) by (cases rec) (simp_all add: next_record_def next_loop.simps rec_def [symmetric])
qed

subsection \<open>Every read takes bytes\<close>

lemma read_exact_le: "read_exact n bs = Inr (v, bs') \<Longrightarrow> length bs' \<le> length bs"
  by (auto simp: read_exact_def split: if_splits)

lemma read_u8_le: "read_u8 bs = Inr (v, bs') \<Longrightarrow> length bs' \<le> length bs"
  by (auto simp: read_u8_def result_simps dest: read_exact_le)

lemma read_b256_le: "read_b256 bs = Inr (v, bs') \<Longrightarrow> length bs' \<le> length bs"
  by (auto simp: read_b256_def dest: read_exact_le)

lemma uvarint_loop_le: "uvarint_loop bs acc shift = Inr (v, bs') \<Longrightarrow> length bs' \<le> length bs"
  by (induction bs acc shift rule: uvarint_loop.induct) (auto simp: Let_def split: if_splits)

lemma read_uvarint_le: "read_uvarint bs = Inr (v, bs') \<Longrightarrow> length bs' \<le> length bs"
  by (auto simp: read_uvarint_def dest: uvarint_loop_le)

lemmas read_le1 = read_exact_le read_u8_le read_b256_le read_uvarint_le

lemma read_short_bytes_le: "read_short_bytes bs = Inr (v, bs') \<Longrightarrow> length bs' \<le> length bs"
  by (auto simp: read_short_bytes_def result_simps dest!: read_le1)

lemma read_blob_le: "read_blob bs = Inr (v, bs') \<Longrightarrow> length bs' \<le> length bs"
  by (auto simp: read_blob_def result_simps dest!: read_le1 split: if_splits)

lemma read_short_u256_le: "read_short_u256 bs = Inr (v, bs') \<Longrightarrow> length bs' \<le> length bs"
  by (auto simp: read_short_u256_def result_simps dest!: read_short_bytes_le split: if_splits)

lemma read_opt_hash_le: "read_opt_hash bs = Inr (v, bs') \<Longrightarrow> length bs' \<le> length bs"
  by (auto simp: read_opt_hash_def result_simps dest!: read_short_bytes_le split: if_splits)

lemmas read_le = read_le1 read_short_bytes_le read_blob_le read_short_u256_le read_opt_hash_le

lemma read_many_le:
  assumes "\<And>bs v bs'. f bs = Inr (v, bs') \<Longrightarrow> length bs' \<le> length bs"
  shows "read_many n f bs = Inr (vs, bs') \<Longrightarrow> length bs' \<le> length bs"
  by (induction n arbitrary: bs vs) (auto simp: result_simps dest!: assms, fastforce)

lemma read_slot_le: "read_slot bs = Inr (v, bs') \<Longrightarrow> length bs' \<le> length bs"
  by (auto simp: read_slot_def result_simps dest!: read_le)

lemma read_slots_le: "read_many n read_slot bs = Inr (v, bs') \<Longrightarrow> length bs' \<le> length bs"
  by (rule read_many_le [where f = read_slot]) (simp_all add: read_slot_le)

lemma read_account_le: "read_account bs = Inr (v, bs') \<Longrightarrow> length bs' \<le> length bs"
  by (auto simp: read_account_def result_simps dest!: read_le read_slots_le split: if_splits)

lemma read_accounts_le: "read_many n read_account bs = Inr (v, bs') \<Longrightarrow> length bs' \<le> length bs"
  by (rule read_many_le [where f = read_account]) (simp_all add: read_account_le)

lemma read_history_checks:
  assumes "read_history s = Inr (ob, s')"
  shows "record_ok keccak (ss_manifest s) (ss_last_block s) (ss_last_history s) (RHistory ob)
    \<and> s' = advance (RHistory ob) (ss_inner s') s \<and> length (ss_inner s') \<le> length (ss_inner s)"
  using assms
  by (auto simp: read_history_def result_simps check_history_iff advance_def dest!: read_le read_accounts_le
      split: option.splits)

lemma read_record_checks:
  assumes "read_record keccak tag s = Inr (r, s')"
  shows "record_ok keccak (ss_manifest s) (ss_last_block s) (ss_last_history s) r \<and> record_section r = ss_section s
    \<and> s' = advance r (ss_inner s') s \<and> length (ss_inner s') \<le> length (ss_inner s)"
  using assms
  by (auto simp: read_record_def result_simps check_header_iff [where lh = None] advance_def
      dest!: read_le read_history_checks [where keccak = keccak] split: if_splits)

text \<open>A round of the loop moves through the sections in order, reads one checked record and takes
  bytes, or finds the end of the stream.\<close>

lemma next_loop_checks:
  assumes "next_loop keccak s = Inr (r, s')"
  shows "ss_section s \<le> ss_section s' \<and> ss_manifest s' = ss_manifest s \<and> ss_held s' = ss_held s
    \<and> length (ss_inner s') < length (ss_inner s)
    \<and> ss_last_block s' = (case r of None \<Rightarrow> ss_last_block s | Some q \<Rightarrow> after_block (ss_last_block s) q)
    \<and> ss_last_history s' = (case r of None \<Rightarrow> ss_last_history s | Some q \<Rightarrow> after_history (ss_last_history s) q)
    \<and> (case r of None \<Rightarrow> ss_finished s' \<and> ss_section s' = SECTION_STATE
       | Some q \<Rightarrow> ss_finished s' = ss_finished s \<and> record_section q = ss_section s'
           \<and> record_ok keccak (ss_manifest s) (ss_last_block s) (ss_last_history s) q)"
  using assms
proof (induction keccak s rule: next_loop.induct)
  case (1 keccak s)
  from "1.prems" obtain tag bs where inner: "ss_inner s = tag # bs"
    by (cases "ss_inner s") (simp_all add: next_loop.simps)
  note IH = "1.IH" [OF inner refl]
  note step = "1.prems" [unfolded next_loop.simps [of keccak s] inner list.case Let_def]
  show ?case
  proof (cases "opens_section (ss_section s) tag")
    case True
    then have "ss_section s \<le> tag" by (auto simp: opens_section_def tag_defs)
    from order_trans [OF this] IH(1) [OF True] step True inner show ?thesis by (cases r) auto
  next
    case no: False
    consider (fin) "ss_section s = SECTION_STATE \<and> tag = SECTION_END"
      | (skip) "\<not> (ss_section s = SECTION_STATE \<and> tag = SECTION_END)" "ss_section s \<noteq> SECTION_MANIFEST" "tag = REC_END"
      | (rec) "\<not> (ss_section s = SECTION_STATE \<and> tag = SECTION_END)" "ss_section s \<noteq> SECTION_MANIFEST" "tag \<noteq> REC_END"
      using step no by (auto split: if_splits)
    then show ?thesis
    proof cases
      case fin
      with step no inner show ?thesis by auto
    next
      case skip
      with IH(2) [OF no skip] step no inner show ?thesis by (cases r) auto
    next
      case rec
      with step no obtain q where q: "read_record keccak tag (s\<lparr>ss_inner := bs\<rparr>) = Inr (q, s')" "r = Some q"
        by (auto simp: result_simps)
      from read_record_checks [OF q(1)] have c: "s' = advance q (ss_inner s') (s\<lparr>ss_inner := bs\<rparr>)"
        "length (ss_inner s') \<le> length bs" "record_section q = ss_section s"
        "record_ok keccak (ss_manifest s) (ss_last_block s) (ss_last_history s) q" by simp_all
      from arg_cong [OF c(1), of ss_section] arg_cong [OF c(1), of ss_manifest] arg_cong [OF c(1), of ss_held]
        arg_cong [OF c(1), of ss_last_block] arg_cong [OF c(1), of ss_last_history] arg_cong [OF c(1), of ss_finished]
        c(2-4) inner q(2)
      show ?thesis by (simp add: advance_def)
    qed
  qed
qed

section \<open>Whole streams\<close>

text \<open>Reading a stream to its end, the way the importers do: ask for the next record until there is
  none. A record held back is handed out again without taking bytes.\<close>

definition pending_reads :: "SnapshotStream \<Rightarrow> nat" where
  "pending_reads s = 2 * length (ss_inner s) + (if ss_held s = None then 0 else 1)"

lemma next_record_less:
  assumes "next_record keccak s = Inr (Some r, s')"
  shows "pending_reads s' < pending_reads s"
  using assms next_loop_checks [of keccak s "Some r" s']
  by (auto simp: next_record_def pending_reads_def split: option.splits if_splits)

function read_records :: "(bytes \<Rightarrow> b256) \<Rightarrow> SnapshotStream \<Rightarrow> SnapError + (Record list \<times> SnapshotStream)" where
  "read_records keccak s = (case next_record keccak s of
       Inl e \<Rightarrow> Inl e
     | Inr (None, s') \<Rightarrow> Inr ([], s')
     | Inr (Some r, s') \<Rightarrow> rbind (read_records keccak s') (\<lambda>(rs, s). Inr (r # rs, s)))"
  by pat_completeness auto

termination read_records
  by (relation "measure (\<lambda>(k, s). pending_reads s)") (auto dest: next_record_less)

declare read_records.simps [simp del]

definition read_snapshot :: "(bytes \<Rightarrow> b256) \<Rightarrow> bytes \<Rightarrow> SnapError + (Manifest \<times> Record list \<times> SnapshotStream)" where
  "read_snapshot keccak bs = rbind (open_stream bs) (\<lambda>s. rbind (read_records keccak s) (\<lambda>(rs, s'). Inr (ss_manifest s, rs, s')))"

fun checked :: "(bytes \<Rightarrow> b256) \<Rightarrow> Manifest \<Rightarrow> (u64 \<times> b256) option \<Rightarrow> (u64 \<times> b256) option \<Rightarrow> Record list \<Rightarrow> bool" where
  "checked keccak m lb lh [] \<longleftrightarrow> True"
| "checked keccak m lb lh (r # rs) \<longleftrightarrow> record_ok keccak m lb lh r
     \<and> checked keccak m (after_block lb r) (after_history lh r) rs"

text \<open>The sections of a snapshot in the order the builder's callers open and close them.\<close>

definition snapshot_bytes :: "(bytes \<Rightarrow> b256) \<Rightarrow> Manifest \<Rightarrow> Record list \<Rightarrow> Record list \<Rightarrow> Record list \<Rightarrow> bytes" where
  "snapshot_bytes keccak m blocks hist state = StreamBuilder_new m
     @ SECTION_BLOCKS # concat (map (put_record keccak) blocks) @ REC_END
     # SECTION_HISTORY # concat (map (put_record keccak) hist) @ REC_END
     # SECTION_STATE # concat (map (put_record keccak) state) @ [REC_END, SECTION_END]"

lemma checked_append:
  "checked keccak m lb lh (rs @ qs) \<longleftrightarrow> checked keccak m lb lh rs
     \<and> checked keccak m (fold (\<lambda>r lb. after_block lb r) rs lb) (fold (\<lambda>r lh. after_history lh r) rs lh) qs"
  by (induction rs arbitrary: lb lh) auto

lemma open_stream_builder:
  assumes "manifest_wf m"
  shows "open_stream (StreamBuilder_new m @ rest) = Inr \<lparr>ss_inner = rest, ss_manifest = m, ss_section = SECTION_MANIFEST,
    ss_last_block = None, ss_last_history = None, ss_held = None, ss_finished = False\<rparr>"
proof -
  have magic: "read_exact 8 (MAGIC @ bs) = Inr (MAGIC, bs)" for bs
    using read_exact_append [of MAGIC 8 bs] by (simp add: MAGIC_def)
  have m: "\<lparr>mf_block = mf_block m, mf_root = mf_root m, mf_state_id = mf_state_id m, mf_hash = mf_hash m, mf_resume = mf_resume m\<rparr> = m"
    by simp
  show ?thesis
    using assms m
    by (cases "mf_resume m") (simp_all add: open_stream_def StreamBuilder_new_def magic manifest_wf_def)
qed

text \<open>The stream after a run of records of one section.\<close>

definition advance_all :: "Record list \<Rightarrow> bytes \<Rightarrow> SnapshotStream \<Rightarrow> SnapshotStream" where
  "advance_all rs bs s = s\<lparr>ss_inner := bs, ss_last_block := fold (\<lambda>r lb. after_block lb r) rs (ss_last_block s),
     ss_last_history := fold (\<lambda>r lh. after_history lh r) rs (ss_last_history s)\<rparr>"

lemma advance_all_simps [simp]:
  "ss_inner (advance_all rs bs s) = bs" "ss_manifest (advance_all rs bs s) = ss_manifest s"
  "ss_section (advance_all rs bs s) = ss_section s" "ss_held (advance_all rs bs s) = ss_held s"
  "ss_finished (advance_all rs bs s) = ss_finished s"
  "ss_last_block (advance_all rs bs s) = fold (\<lambda>r lb. after_block lb r) rs (ss_last_block s)"
  "ss_last_history (advance_all rs bs s) = fold (\<lambda>r lh. after_history lh r) rs (ss_last_history s)"
  by (simp_all add: advance_all_def)

lemma read_records_section:
  assumes "\<forall>r \<in> set rs. record_wf r \<and> record_section r = ss_section s"
    and "checked keccak (ss_manifest s) (ss_last_block s) (ss_last_history s) rs"
    and "ss_held s = None" "\<not> ss_finished s"
    and "ss_inner s = concat (map (put_record keccak) rs) @ rest"
  shows "read_records keccak s = rbind (read_records keccak (advance_all rs rest s)) (\<lambda>(qs, s'). Inr (rs @ qs, s'))"
  using assms
proof (induction rs arbitrary: s)
  case Nil
  then show ?case by (auto simp: advance_all_def rbind_def split: sum.splits)
next
  case (Cons r rs)
  define s1 where "s1 = advance r (concat (map (put_record keccak) rs) @ rest) s"
  have "s\<lparr>ss_inner := put_record keccak r @ concat (map (put_record keccak) rs) @ rest\<rparr> = s"
    using Cons.prems(5) by simp
  with next_record_put [of r keccak s "concat (map (put_record keccak) rs) @ rest"] Cons.prems(1-4)
  have "next_record keccak s = Inr (Some r, s1)" by (simp add: s1_def)
  then have "read_records keccak s = rbind (read_records keccak s1) (\<lambda>(rs, s). Inr (r # rs, s))"
    by (simp add: read_records.simps [of keccak s])
  moreover have "read_records keccak s1 = rbind (read_records keccak (advance_all rs rest s1)) (\<lambda>(qs, s'). Inr (rs @ qs, s'))"
    using Cons.prems by (intro Cons.IH) (simp_all add: s1_def advance_def)
  moreover have "advance_all rs rest s1 = advance_all (r # rs) rest s"
    by (simp add: s1_def advance_def advance_all_def)
  ultimately show ?case by (auto simp: rbind_def split: sum.splits)
qed

lemma read_records_end_section:
  assumes "ss_inner s = REC_END # bs" "ss_section s \<noteq> SECTION_MANIFEST" "ss_held s = None" "\<not> ss_finished s"
  shows "read_records keccak s = read_records keccak (s\<lparr>ss_inner := bs\<rparr>)"
proof -
  have "\<not> opens_section (ss_section s) REC_END" "REC_END \<noteq> SECTION_END" by (auto simp: opens_section_def tag_defs)
  with assms have "next_record keccak s = next_record keccak (s\<lparr>ss_inner := bs\<rparr>)"
    by (simp add: next_record_def next_loop.simps [of keccak s])
  then show ?thesis by (simp add: read_records.simps [of keccak s] read_records.simps [of keccak "s\<lparr>ss_inner := bs\<rparr>"])
qed

lemma read_records_open_section:
  assumes "ss_inner s = tag # bs" "opens_section (ss_section s) tag" "ss_held s = None" "\<not> ss_finished s"
  shows "read_records keccak s = read_records keccak (s\<lparr>ss_inner := bs, ss_section := tag\<rparr>)"
proof -
  let ?s' = "s\<lparr>ss_inner := bs, ss_section := tag\<rparr>"
  from assms have "next_record keccak s = next_record keccak ?s'"
    by (simp add: next_record_def next_loop.simps [of keccak s])
  then show ?thesis by (simp add: read_records.simps [of keccak s] read_records.simps [of keccak ?s'])
qed

lemma read_records_end:
  assumes "ss_inner s = SECTION_END # bs" "ss_section s = SECTION_STATE" "ss_held s = None" "\<not> ss_finished s"
  shows "read_records keccak s = Inr ([], s\<lparr>ss_inner := bs, ss_finished := True\<rparr>)"
  using assms by (simp add: read_records.simps next_record_def next_loop.simps opens_section_def tag_defs)

lemma read_whole_section:
  assumes "opens_section (ss_section s) tag" "\<forall>r \<in> set rs. record_wf r \<and> record_section r = tag"
    and "checked keccak (ss_manifest s) (ss_last_block s) (ss_last_history s) rs"
    and "ss_held s = None" "\<not> ss_finished s"
    and "ss_inner s = tag # concat (map (put_record keccak) rs) @ REC_END # rest"
  shows "read_records keccak s =
    rbind (read_records keccak (advance_all rs rest (s\<lparr>ss_section := tag\<rparr>))) (\<lambda>(qs, s'). Inr (rs @ qs, s'))"
proof -
  have tag: "tag \<noteq> SECTION_MANIFEST" using assms(1) by (auto simp: opens_section_def tag_defs)
  let ?s = "s\<lparr>ss_inner := concat (map (put_record keccak) rs) @ REC_END # rest, ss_section := tag\<rparr>"
  have "read_records keccak s = read_records keccak ?s"
    using assms by (intro read_records_open_section)
  also have "\<dots> = rbind (read_records keccak (advance_all rs (REC_END # rest) ?s)) (\<lambda>(qs, s'). Inr (rs @ qs, s'))"
    using assms by (intro read_records_section) simp_all
  also have "read_records keccak (advance_all rs (REC_END # rest) ?s)
      = read_records keccak (advance_all rs (REC_END # rest) ?s \<lparr>ss_inner := rest\<rparr>)"
    using assms tag by (intro read_records_end_section) simp_all
  also have "advance_all rs (REC_END # rest) ?s \<lparr>ss_inner := rest\<rparr> = advance_all rs rest (s\<lparr>ss_section := tag\<rparr>)"
    by (simp add: advance_all_def)
  finally show ?thesis .
qed

lemma opens_sections [simp]:
  "opens_section SECTION_MANIFEST SECTION_BLOCKS" "opens_section SECTION_BLOCKS SECTION_HISTORY"
  "opens_section SECTION_HISTORY SECTION_STATE"
  by (simp_all add: opens_section_def)

lemma read_snapshot_bytes:
  assumes "manifest_wf m"
    and "\<forall>r \<in> set blocks. record_wf r \<and> record_section r = SECTION_BLOCKS"
    and "\<forall>r \<in> set hist. record_wf r \<and> record_section r = SECTION_HISTORY"
    and "\<forall>r \<in> set state. record_wf r \<and> record_section r = SECTION_STATE"
    and ok: "checked keccak m None None (blocks @ hist @ state)"
  shows "\<exists>s. read_snapshot keccak (snapshot_bytes keccak m blocks hist state @ rest) = Inr (m, blocks @ hist @ state, s)
    \<and> ss_inner s = rest \<and> ss_finished s"
proof -
  define put where "put rs = concat (map (put_record keccak) rs)" for rs
  define bs3 where "bs3 = SECTION_STATE # put state @ REC_END # SECTION_END # rest"
  define bs2 where "bs2 = SECTION_HISTORY # put hist @ REC_END # bs3"
  define bs1 where "bs1 = SECTION_BLOCKS # put blocks @ REC_END # bs2"
  define s0 where "s0 = \<lparr>ss_inner = bs1, ss_manifest = m, ss_section = SECTION_MANIFEST,
    ss_last_block = None, ss_last_history = None, ss_held = None, ss_finished = False\<rparr>"
  define s1 where "s1 = advance_all blocks bs2 (s0\<lparr>ss_section := SECTION_BLOCKS\<rparr>)"
  define s2 where "s2 = advance_all hist bs3 (s1\<lparr>ss_section := SECTION_HISTORY\<rparr>)"
  define s3 where "s3 = advance_all state (SECTION_END # rest) (s2\<lparr>ss_section := SECTION_STATE\<rparr>)"
  note defs = bs1_def bs2_def bs3_def s0_def s1_def s2_def s3_def put_def
  have "read_records keccak s0 = rbind (read_records keccak s1) (\<lambda>(qs, s'). Inr (blocks @ qs, s'))"
    unfolding s1_def using assms by (intro read_whole_section) (simp_all add: defs checked_append)
  moreover have "read_records keccak s1 = rbind (read_records keccak s2) (\<lambda>(qs, s'). Inr (hist @ qs, s'))"
    unfolding s2_def using assms by (intro read_whole_section) (simp_all add: defs checked_append)
  moreover have "read_records keccak s2 = rbind (read_records keccak s3) (\<lambda>(qs, s'). Inr (state @ qs, s'))"
    unfolding s3_def using assms by (intro read_whole_section) (simp_all add: defs checked_append)
  moreover have "read_records keccak s3 = Inr ([], s3\<lparr>ss_inner := rest, ss_finished := True\<rparr>)"
    by (rule read_records_end) (simp_all add: defs)
  moreover have "open_stream (snapshot_bytes keccak m blocks hist state @ rest) = Inr s0"
    using open_stream_builder [OF assms(1), of bs1] by (simp add: snapshot_bytes_def defs)
  ultimately show ?thesis by (simp add: read_snapshot_def s0_def)
qed

subsection \<open>What a stream that reads to its end satisfies\<close>

lemma read_records_checked:
  assumes "read_records keccak s = Inr (rs, s')" "ss_held s = None" "\<not> ss_finished s"
  shows "checked keccak (ss_manifest s) (ss_last_block s) (ss_last_history s) rs
    \<and> (\<forall>r \<in> set rs. ss_section s \<le> record_section r) \<and> sorted (map record_section rs)
    \<and> ss_manifest s' = ss_manifest s
    \<and> ss_last_block s' = fold (\<lambda>r lb. after_block lb r) rs (ss_last_block s)
    \<and> ss_last_history s' = fold (\<lambda>r lh. after_history lh r) rs (ss_last_history s)"
  using assms
proof (induction keccak s arbitrary: rs rule: read_records.induct)
  case (1 keccak s)
  have nl: "next_record keccak s = next_loop keccak s" using "1.prems" by (simp add: next_record_def)
  from "1.prems"(1) obtain r s1 where n: "next_record keccak s = Inr (r, s1)"
    by (auto simp: read_records.simps [of keccak s] split: sum.splits)
  note c = next_loop_checks [OF n [unfolded nl]]
  show ?case
  proof (cases r)
    case None
    with "1.prems"(1) n have "rs = []" "s' = s1" by (simp_all add: read_records.simps [of keccak s])
    with c None show ?thesis by simp
  next
    case (Some q)
    with "1.prems"(1) n obtain qs where qs: "read_records keccak s1 = Inr (qs, s')" "rs = q # qs"
      by (auto simp: read_records.simps [of keccak s] result_simps)
    have "ss_held s1 = None" "\<not> ss_finished s1" using c Some "1.prems" by simp_all
    note IH = "1.IH" [OF n refl Some qs(1) this]
    have "ss_section s \<le> record_section x" if "x \<in> set qs" for x
      using order_trans [of "ss_section s" "ss_section s1"] c IH that by blast
    then show ?thesis using IH c Some qs(2) by simp
  qed
qed

text \<open>The headers and the history objects of a record list, in order.\<close>

fun header_records :: "Record list \<Rightarrow> (u64 \<times> b256 \<times> bytes) list" where
  "header_records [] = []"
| "header_records (RHeader block hash rlp # rs) = (block, hash, rlp) # header_records rs"
| "header_records (_ # rs) = header_records rs"

fun history_records :: "Record list \<Rightarrow> HistoryObject list" where
  "history_records [] = []"
| "history_records (RHistory ob # rs) = ob # history_records rs"
| "history_records (_ # rs) = history_records rs"

definition builds_on :: "u64 \<times> b256 \<times> bytes \<Rightarrow> u64 \<times> b256 \<times> bytes \<Rightarrow> bool" where
  "builds_on p c \<longleftrightarrow> fst c = fst p + 1 \<and> header_field (snd (snd c)) 0 = Inr (fst (snd p))"

definition continues :: "HistoryObject \<Rightarrow> HistoryObject \<Rightarrow> bool" where
  "continues p c \<longleftrightarrow> ho_block p < ho_block c \<and> ho_parent_root c = ho_post_root p"

lemma checked_headers:
  assumes "checked keccak m lb lh rs"
  shows "successively builds_on ((case lb of None \<Rightarrow> [] | Some (n, h) \<Rightarrow> [(n, h, [])]) @ header_records rs)
    \<and> (\<forall>(n, h, rlp) \<in> set (header_records rs). keccak rlp = h \<and> n \<le> mf_block m)"
  using assms
proof (induction rs arbitrary: lb lh)
  case (Cons r rs)
  show ?case
  proof (cases r)
    case (RHeader n h rlp)
    with Cons.prems have "checked keccak m (Some (n, h)) lh rs" by simp
    from Cons.IH [OF this] Cons.prems RHeader show ?thesis
      by (cases "header_records rs") (auto simp: builds_on_def split: option.splits)
  qed (use Cons.IH [of "after_block lb r" "after_history lh r"] Cons.prems in \<open>auto split: option.splits\<close>)
qed (simp split: option.split)

lemma checked_histories:
  assumes "checked keccak m lb lh rs"
  shows "successively continues (history_records rs)
    \<and> (\<forall>ob \<in> set (history_records rs). ho_block ob \<le> mf_block m)
    \<and> (case lh of None \<Rightarrow> True | Some (n, root) \<Rightarrow> (case history_records rs of [] \<Rightarrow> True
          | ob # _ \<Rightarrow> n < ho_block ob \<and> ho_parent_root ob = root))
    \<and> fold (\<lambda>r lh. after_history lh r) rs lh
        = (if history_records rs = [] then lh else Some (ho_block (last (history_records rs)), ho_post_root (last (history_records rs))))"
  using assms
proof (induction rs arbitrary: lb lh)
  case (Cons r rs)
  show ?case
  proof (cases r)
    case (RHistory ob)
    with Cons.prems have "checked keccak m lb (Some (ho_block ob, ho_post_root ob)) rs" by simp
    from Cons.IH [OF this] Cons.prems RHistory show ?thesis
      by (cases "history_records rs") (auto simp: continues_def split: option.splits)
  qed (use Cons.IH [of "after_block lb r" "after_history lh r"] Cons.prems in \<open>auto split: option.splits\<close>)
qed (simp split: option.split)

lemma checked_code: "checked keccak m lb lh rs \<Longrightarrow> RCode hash code \<in> set rs \<Longrightarrow> keccak code = hash"
  by (induction rs arbitrary: lb lh) auto

lemma read_snapshot_checked:
  assumes "read_snapshot keccak bs = Inr (m, rs, s)"
  shows "checked keccak m None None rs" "sorted (map record_section rs)" "ss_manifest s = m"
    "ss_last_history s = fold (\<lambda>r lh. after_history lh r) rs None"
proof -
  from assms obtain s0 where s0: "open_stream bs = Inr s0" "read_records keccak s0 = Inr (rs, s)" "m = ss_manifest s0"
    by (auto simp: read_snapshot_def result_simps)
  from s0(1) have "ss_held s0 = None" "\<not> ss_finished s0" "ss_last_block s0 = None" "ss_last_history s0 = None"
    by (auto simp: open_stream_def result_simps split: if_splits)
  with read_records_checked [OF s0(2)] s0(3)
  show "checked keccak m None None rs" "sorted (map record_section rs)" "ss_manifest s = m"
    "ss_last_history s = fold (\<lambda>r lh. after_history lh r) rs None"
    by simp_all
qed

subsection \<open>A small snapshot\<close>

definition wit_hash :: b256 where "wit_hash = replicate 32 7"

definition wit_keccak :: "bytes \<Rightarrow> b256" where "wit_keccak _ = wit_hash"

definition wit_header :: bytes where "wit_header = 0xe1 # 0xa0 # wit_hash"

definition wit_manifest :: Manifest where
  "wit_manifest = \<lparr>mf_block = 301, mf_root = wit_hash, mf_state_id = 4, mf_hash = wit_hash, mf_resume = None\<rparr>"

definition wit_history :: HistoryObject where
  "wit_history = \<lparr>ho_state_id = 3, ho_block = 301, ho_parent_root = wit_hash, ho_post_root = wit_hash,
     ho_accounts = [\<lparr>ha_address = replicate 20 1, ha_previous = Some (1, 500, None), ha_storage = [(wit_hash, 9)]\<rparr>]\<rparr>"

definition wit_blocks :: "Record list" where
  "wit_blocks = [RHeader 300 wit_hash wit_header, RBody 300 [1, 2], RHeader 301 wit_hash wit_header, RReceipts 301 []]"

definition wit_state :: "Record list" where
  "wit_state = [RAccount wit_hash 7 1000 (Some wit_hash), RStorage wit_hash 5, RCode wit_hash [0xfe]]"

lemma wit_header_field: "header_field wit_header 0 = Inr wit_hash"
  by (simp add: header_field_def wit_header_def wit_hash_def rlp_split_def rlp_head_def be_usize_def get_range_def slice_def
      Let_def)

lemma wit_snapshot_wf:
  "manifest_wf wit_manifest"
  "\<forall>r \<in> set wit_blocks. record_wf r \<and> record_section r = SECTION_BLOCKS"
  "\<forall>r \<in> set [RHistory wit_history]. record_wf r \<and> record_section r = SECTION_HISTORY"
  "\<forall>r \<in> set wit_state. record_wf r \<and> record_section r = SECTION_STATE"
  "checked wit_keccak wit_manifest None None (wit_blocks @ [RHistory wit_history] @ wit_state)"
  by (simp_all add: manifest_wf_def wit_manifest_def wit_blocks_def wit_state_def wit_history_def wit_hash_def [THEN arg_cong [where f = length]]
      history_wf_def account_wf_def hash_wf_def wit_header_field wit_keccak_def) (simp_all add: wit_header_def wit_hash_def)

section \<open>Properties\<close>

text \<open>C32: a snapshot written by the builder - manifest, blocks, history and state records of sizes the
  format can carry - is read back exactly, manifest and records in order and nothing beyond the end marker
  touched, if and only if its records pass the reader's checks of hashes, numbering and linkage.\<close>

theorem snapshot_roundtrip:
  assumes "manifest_wf m"
    and "\<forall>r \<in> set blocks. record_wf r \<and> record_section r = SECTION_BLOCKS"
    and "\<forall>r \<in> set hist. record_wf r \<and> record_section r = SECTION_HISTORY"
    and "\<forall>r \<in> set state. record_wf r \<and> record_section r = SECTION_STATE"
  shows "(\<exists>s. read_snapshot keccak (snapshot_bytes keccak m blocks hist state @ rest) = Inr (m, blocks @ hist @ state, s)
           \<and> ss_inner s = rest \<and> ss_finished s)
     \<longleftrightarrow> checked keccak m None None (blocks @ hist @ state)"
  using read_snapshot_bytes [OF assms] read_snapshot_checked(1) by blast

theorem snapshot_roundtrip_witness:
  "(\<exists>s. read_snapshot wit_keccak (snapshot_bytes wit_keccak wit_manifest wit_blocks [RHistory wit_history] wit_state @ [1, 2])
       = Inr (wit_manifest, wit_blocks @ [RHistory wit_history] @ wit_state, s)
     \<and> ss_inner s = [1, 2] \<and> ss_finished s)"
  using snapshot_roundtrip [OF wit_snapshot_wf(1-4)] wit_snapshot_wf(5) by blast

text \<open>C33: whatever bytes a snapshot has, if it reads to its end then every header hashes to the hash it
  carries and lies at or below the convert point, each header follows its predecessor by number and names
  its hash as parent, history objects ascend and each starts from the root the previous one left, code hashes
  to its key, sections come in order, and the final check accepts exactly when the last history object ends
  at the manifest's block and root.\<close>

theorem snapshot_sound:
  assumes "read_snapshot keccak bs = Inr (m, rs, s)"
  shows "(\<forall>(n, h, rlp) \<in> set (header_records rs). keccak rlp = h \<and> n \<le> mf_block m)
    \<and> successively builds_on (header_records rs)
    \<and> (\<forall>ob \<in> set (history_records rs). ho_block ob \<le> mf_block m)
    \<and> successively continues (history_records rs)
    \<and> (\<forall>h code. RCode h code \<in> set rs \<longrightarrow> keccak code = h)
    \<and> sorted (map record_section rs)
    \<and> (check_history_meets_state s = Inr () \<longleftrightarrow> history_records rs \<noteq> []
         \<and> ho_block (last (history_records rs)) = mf_block m \<and> ho_post_root (last (history_records rs)) = mf_root m)"
proof -
  note c = read_snapshot_checked [OF assms]
  show ?thesis
    using checked_headers [OF c(1)] checked_histories [OF c(1)] checked_code [OF c(1)] c(2-4)
    by (auto simp: check_history_meets_state_def split: if_splits)
qed

theorem snapshot_sound_witness:
  "\<exists>s. read_snapshot wit_keccak (snapshot_bytes wit_keccak wit_manifest wit_blocks [RHistory wit_history] wit_state)
        = Inr (wit_manifest, wit_blocks @ [RHistory wit_history] @ wit_state, s)
     \<and> header_records (wit_blocks @ [RHistory wit_history] @ wit_state) = [(300, wit_hash, wit_header), (301, wit_hash, wit_header)]
     \<and> builds_on (300, wit_hash, wit_header) (301, wit_hash, wit_header)
     \<and> check_history_meets_state s = Inr ()"
proof -
  from read_snapshot_bytes [OF wit_snapshot_wf, of "[]"] obtain s where
    s: "read_snapshot wit_keccak (snapshot_bytes wit_keccak wit_manifest wit_blocks [RHistory wit_history] wit_state)
      = Inr (wit_manifest, wit_blocks @ [RHistory wit_history] @ wit_state, s)" by auto
  have hs: "header_records (wit_blocks @ [RHistory wit_history] @ wit_state) = [(300, wit_hash, wit_header), (301, wit_hash, wit_header)]"
    "history_records (wit_blocks @ [RHistory wit_history] @ wit_state) = [wit_history]"
    by (simp_all add: wit_blocks_def wit_state_def)
  have "ho_block wit_history = mf_block wit_manifest" "ho_post_root wit_history = mf_root wit_manifest"
    by (simp_all add: wit_history_def wit_manifest_def)
  with snapshot_sound [OF s] s hs show ?thesis by auto
qed

end
