(* ===== verification/Frontier.thy ===== *)
theory Frontier
  imports Prelude
begin

text \<open>Execution frontiers and transaction-log events: the bounded store of post-transaction states and the
  per-block producer of \<^verbatim>\<open>crates/arb-reth-engine/src/tx_log_stream.rs\<close>, and simulation against a stored
  frontier, \<^verbatim>\<open>crates/arb-reth-node/src/mev_frontier_rpc.rs\<close>. The EVM environment, cache, state deltas and
  ArbOS context are types of other packages and stay type parameters; what the simulation calls of them is a
  parameter. Every operation of the store holds its lock throughout, so operations are atomic steps.\<close>

section \<open>Data\<close>

definition TX_LOG_STREAM_CAPACITY :: nat where "TX_LOG_STREAM_CAPACITY = 1024"

definition EXECUTION_FRONTIER_CAPACITY :: nat where "EXECUTION_FRONTIER_CAPACITY = TX_LOG_STREAM_CAPACITY"

record ('env, 'cache) FrontierBlockBase =
  fb_parent_hash :: b256
  fb_evm_env :: 'env
  fb_pre_execution_state :: 'cache

text \<open>State deltas form a linked chain from the newest transaction back to the first one.\<close>

datatype 'u FrontierStateDelta = Delta (delta_previous: "'u FrontierStateDelta option") (delta_update: 'u)

record ('env, 'cache, 'u, 'ctx) ArbExecutionFrontier =
  af_frontier_id :: b256
  af_block_number :: u64
  af_transaction_index :: u64
  af_transaction_hash :: b256
  af_chain_context :: 'ctx
  af_base :: "('env, 'cache) FrontierBlockBase"
  af_tail :: "'u FrontierStateDelta"

fun delta_walk :: "'u FrontierStateDelta \<Rightarrow> 'u list" where
  "delta_walk (Delta None u) = [u]"
| "delta_walk (Delta (Some p) u) = u # delta_walk p"

definition state_updates :: "('env, 'cache, 'u, 'ctx) ArbExecutionFrontier \<Rightarrow> 'u list" where
  "state_updates f = rev (delta_walk (af_tail f))"

section \<open>The store\<close>

record 'f FrontierStore =
  fs_order :: "b256 list"
  fs_frontiers :: "b256 \<rightharpoonup> 'f"
  fs_capacity :: nat

type_synonym ('env, 'cache, 'u, 'ctx) store = "('env, 'cache, 'u, 'ctx) ArbExecutionFrontier FrontierStore"

definition FrontierStore_new :: "nat \<Rightarrow> 'f FrontierStore" where
  "FrontierStore_new capacity = \<lparr>fs_order = [], fs_frontiers = Map.empty, fs_capacity = max capacity 1\<rparr>"

definition FrontierStore_default :: "'f FrontierStore" where
  "FrontierStore_default = FrontierStore_new EXECUTION_FRONTIER_CAPACITY"

definition frontier_get :: "'f FrontierStore \<Rightarrow> b256 \<Rightarrow> 'f option" where
  "frontier_get s frontier_id = fs_frontiers s frontier_id"

text \<open>The loop that expires the oldest entries.\<close>

fun expire :: "nat \<Rightarrow> b256 list \<Rightarrow> (b256 \<rightharpoonup> 'f) \<Rightarrow> b256 list \<times> (b256 \<rightharpoonup> 'f)" where
  "expire capacity [] m = ([], m)"
| "expire capacity (k # ks) m =
     (if length (k # ks) > capacity then expire capacity ks (m(k := None)) else (k # ks, m))"

definition frontier_insert :: "('env, 'cache, 'u, 'ctx) ArbExecutionFrontier \<Rightarrow> ('env, 'cache, 'u, 'ctx) store
    \<Rightarrow> ('env, 'cache, 'u, 'ctx) store" where
  "frontier_insert frontier s =
     (let frontier_id = af_frontier_id frontier;
          order = (if fs_frontiers s frontier_id = None then fs_order s @ [frontier_id] else fs_order s);
          (order, frontiers) = expire (fs_capacity s) order ((fs_frontiers s)(frontier_id \<mapsto> frontier))
      in s\<lparr>fs_order := order, fs_frontiers := frontiers\<rparr>)"

section \<open>The producer of one block\<close>

record ('env, 'cache, 'u) FrontierBlock =
  fk_base :: "('env, 'cache) FrontierBlockBase"
  fk_tail :: "'u FrontierStateDelta option"

definition FrontierBlock_new :: "b256 \<Rightarrow> 'env \<Rightarrow> 'cache \<Rightarrow> ('env, 'cache, 'u) FrontierBlock" where
  "FrontierBlock_new parent_hash evm_env pre_execution_state =
     \<lparr>fk_base = \<lparr>fb_parent_hash = parent_hash, fb_evm_env = evm_env, fb_pre_execution_state = pre_execution_state\<rparr>,
      fk_tail = None\<rparr>"

definition frontier_identity :: "b256 \<Rightarrow> u64 \<Rightarrow> u64 \<Rightarrow> b256 \<Rightarrow> bytes" where
  "frontier_identity parent_hash block_number transaction_index transaction_hash =
     parent_hash @ u64_to_be block_number @ u64_to_be transaction_index @ transaction_hash"

text \<open>A transaction as the builder reports it: block number, index, hash, state delta, ArbOS context.\<close>

type_synonym ('u, 'ctx) tx_step = "u64 \<times> u64 \<times> b256 \<times> 'u \<times> 'ctx"

definition block_advance :: "(bytes \<Rightarrow> b256) \<Rightarrow> ('u, 'ctx) tx_step
    \<Rightarrow> ('env, 'cache, 'u) FrontierBlock \<times> ('env, 'cache, 'u, 'ctx) store
    \<Rightarrow> b256 \<times> ('env, 'cache, 'u) FrontierBlock \<times> ('env, 'cache, 'u, 'ctx) store" where
  "block_advance keccak step st = (case step of (block_number, transaction_index, transaction_hash, update, chain_context) \<Rightarrow>
     let (blk, store) = st;
         frontier_id = keccak (frontier_identity (fb_parent_hash (fk_base blk)) block_number transaction_index transaction_hash);
         tail = Delta (fk_tail blk) update
     in (frontier_id, blk\<lparr>fk_tail := Some tail\<rparr>,
         frontier_insert \<lparr>af_frontier_id = frontier_id, af_block_number = block_number,
           af_transaction_index = transaction_index, af_transaction_hash = transaction_hash,
           af_chain_context = chain_context, af_base = fk_base blk, af_tail = tail\<rparr> store))"

text \<open>A whole block: one advance per transaction.\<close>

fun advance_block :: "(bytes \<Rightarrow> b256) \<Rightarrow> ('u, 'ctx) tx_step list
    \<Rightarrow> ('env, 'cache, 'u) FrontierBlock \<times> ('env, 'cache, 'u, 'ctx) store
    \<Rightarrow> b256 list \<times> ('env, 'cache, 'u) FrontierBlock \<times> ('env, 'cache, 'u, 'ctx) store" where
  "advance_block keccak [] st = ([], st)"
| "advance_block keccak (step # steps) st =
     (let (fid, st) = block_advance keccak step st; (ids, st) = advance_block keccak steps st in (fid # ids, st))"

section \<open>The store refines a bounded list of entries\<close>

definition store_inv :: "('env, 'cache, 'u, 'ctx) store \<Rightarrow> bool" where
  "store_inv s \<longleftrightarrow> distinct (fs_order s) \<and> set (fs_order s) = dom (fs_frontiers s) \<and> length (fs_order s) \<le> fs_capacity s
     \<and> 0 < fs_capacity s \<and> (\<forall>k f. fs_frontiers s k = Some f \<longrightarrow> af_frontier_id f = k)"

text \<open>The abstract store: entries from the oldest to the newest. A new entry goes to the end and pushes out the
  oldest ones beyond the capacity; an entry for a key that is present replaces the old one in its place.\<close>

definition store_entries :: "'f FrontierStore \<Rightarrow> (b256 \<times> 'f) list" where
  "store_entries s = map (\<lambda>k. (k, the (fs_frontiers s k))) (fs_order s)"

definition put_entry :: "nat \<Rightarrow> 'k \<times> 'v \<Rightarrow> ('k \<times> 'v) list \<Rightarrow> ('k \<times> 'v) list" where
  "put_entry capacity e xs = (if fst e \<in> fst ` set xs then map (\<lambda>x. if fst x = fst e then e else x) xs
     else drop (Suc (length xs) - capacity) (xs @ [e]))"

lemma expire_eq:
  "expire c ks m = (drop (length ks - c) ks, m |` (- set (take (length ks - c) ks)))"
proof (induction c ks m rule: expire.induct)
  case (2 c k ks m)
  show ?case
  proof (cases "length (k # ks) > c")
    case True
    have "(m(k := None)) |` (- set xs) = m |` (- set (k # xs))" for xs by (rule ext) (simp add: restrict_map_def)
    from this [of "take (length ks - c) ks"] 2 [OF True] True show ?thesis
      by (simp add: Suc_diff_le fun_upd_def del: restrict_fun_upd)
  qed (simp add: restrict_map_def)
qed (simp add: restrict_map_def)

lemma store_inv_new [simp]: "store_inv (FrontierStore_new c)"
  by (simp add: store_inv_def FrontierStore_new_def)

lemma capacity_new [simp]: "fs_capacity (FrontierStore_new c) = max c 1"
  by (simp add: FrontierStore_new_def)

lemma insert_present:
  assumes "store_inv s" "fs_frontiers s (af_frontier_id f) \<noteq> None"
  shows "frontier_insert f s = s\<lparr>fs_frontiers := (fs_frontiers s)(af_frontier_id f \<mapsto> f)\<rparr>"
proof -
  have "expire (fs_capacity s) (fs_order s) m = (fs_order s, m)" for m :: "b256 \<rightharpoonup> ('a, 'b, 'c, 'd) ArbExecutionFrontier"
    using assms(1) by (simp add: expire_eq store_inv_def restrict_map_def)
  with assms(2) show ?thesis by (auto simp: frontier_insert_def Let_def)
qed

lemma insert_absent:
  assumes "store_inv s" "fs_frontiers s (af_frontier_id f) = None"
  defines "old \<equiv> take (Suc (length (fs_order s)) - fs_capacity s) (fs_order s)"
  shows "frontier_insert f s = s\<lparr>fs_order := drop (Suc (length (fs_order s)) - fs_capacity s) (fs_order s) @ [af_frontier_id f],
    fs_frontiers := ((fs_frontiers s) |` (- set old))(af_frontier_id f \<mapsto> f)\<rparr>"
proof -
  have c: "0 < fs_capacity s" "af_frontier_id f \<notin> set (fs_order s)" using assms by (auto simp: store_inv_def)
  then have new: "af_frontier_id f \<notin> set old" by (auto simp: old_def dest: in_set_takeD)
  have "((fs_frontiers s)(af_frontier_id f \<mapsto> f)) |` (- set old) = ((fs_frontiers s) |` (- set old))(af_frontier_id f \<mapsto> f)"
    by (rule ext) (simp add: restrict_map_def new)
  moreover have "expire (fs_capacity s) (fs_order s @ [af_frontier_id f]) ((fs_frontiers s)(af_frontier_id f \<mapsto> f))
      = (drop (Suc (length (fs_order s)) - fs_capacity s) (fs_order s) @ [af_frontier_id f],
         ((fs_frontiers s)(af_frontier_id f \<mapsto> f)) |` (- set old))"
    unfolding expire_eq old_def using c(1) by simp
  ultimately show ?thesis using assms(2) by (simp add: frontier_insert_def Let_def)
qed

lemma capacity_insert [simp]: "fs_capacity (frontier_insert f s) = fs_capacity s"
  by (simp add: frontier_insert_def Let_def split: prod.split)

lemma set_drop_distinct: "distinct xs \<Longrightarrow> set (drop n xs) = set xs - set (take n xs)"
  using set_take_disj_set_drop_if_distinct [of xs n n] set_append [of "take n xs" "drop n xs"] by auto

lemma store_inv_insert:
  assumes "store_inv s"
  shows "store_inv (frontier_insert f s)"
proof (cases "fs_frontiers s (af_frontier_id f)")
  case None
  have d: "distinct (fs_order s)" "set (fs_order s) = dom (fs_frontiers s)" "length (fs_order s) \<le> fs_capacity s"
    "0 < fs_capacity s" "\<And>k f. fs_frontiers s k = Some f \<Longrightarrow> af_frontier_id f = k"
    using assms by (simp_all add: store_inv_def)
  from None d(2) have "af_frontier_id f \<notin> set (fs_order s)" by auto
  then show ?thesis
    unfolding store_inv_def insert_absent [OF assms None]
    using d by (auto simp: set_drop_distinct restrict_map_def split: if_splits)
next
  case (Some g)
  with assms show ?thesis by (auto simp: insert_present store_inv_def)
qed

lemma store_get: "store_inv s \<Longrightarrow> frontier_get s k = map_of (store_entries s) k"
  by (auto simp: frontier_get_def store_entries_def store_inv_def map_of_map_keys split: option.split)

lemma keys_entries [simp]: "fst ` set (store_entries s) = set (fs_order s)"
  by (force simp: store_entries_def)

lemma entries_insert:
  assumes "store_inv s"
  shows "store_entries (frontier_insert f s) = put_entry (fs_capacity s) (af_frontier_id f, f) (store_entries s)"
proof (cases "fs_frontiers s (af_frontier_id f)")
  case None
  have ord: "distinct (fs_order s)" "af_frontier_id f \<notin> set (fs_order s)" "0 < fs_capacity s"
    using assms None by (auto simp: store_inv_def)
  define n where "n = Suc (length (fs_order s)) - fs_capacity s"
  have "k \<noteq> af_frontier_id f \<and> k \<notin> set (take n (fs_order s))" if "k \<in> set (drop n (fs_order s))" for k
    using that ord(1,2) by (auto simp: set_drop_distinct)
  then have "map (\<lambda>k. (k, the ((((fs_frontiers s) |` (- set (take n (fs_order s))))(af_frontier_id f \<mapsto> f)) k))) (drop n (fs_order s))
      = map (\<lambda>k. (k, the (fs_frontiers s k))) (drop n (fs_order s))"
    by (intro map_cong refl) (simp add: restrict_map_def)
  moreover have "n \<le> length (fs_order s)" using ord(3) by (simp add: n_def)
  ultimately show ?thesis
    using ord(2) by (simp add: insert_absent [OF assms None] put_entry_def store_entries_def n_def [symmetric] drop_map image_image)
next
  case (Some g)
  then have "af_frontier_id f \<in> set (fs_order s)" using assms by (auto simp: store_inv_def)
  then show ?thesis using assms Some by (auto simp: insert_present put_entry_def store_entries_def image_image)
qed

subsection \<open>The contract of a store that forgets\<close>

text \<open>A client of the store relies on three laws: a put keeps the invariant, a put entry is found, and a lookup
  of another key still gives what it gave or nothing. Then whatever is found is what was put last.\<close>

locale forgetful_store =
  fixes inv :: "'s \<Rightarrow> bool" and put :: "'v \<Rightarrow> 's \<Rightarrow> 's" and look :: "'s \<Rightarrow> 'k \<Rightarrow> 'v option" and key :: "'v \<Rightarrow> 'k"
  assumes inv_put: "inv s \<Longrightarrow> inv (put v s)"
    and look_put: "inv s \<Longrightarrow> look (put v s) (key v) = Some v"
    and look_other: "inv s \<Longrightarrow> k \<noteq> key v \<Longrightarrow> look (put v s) k = Some w \<Longrightarrow> look s k = Some w"
begin

lemma inv_puts: "inv s \<Longrightarrow> inv (fold put vs s)"
  by (induction vs arbitrary: s) (simp_all add: inv_put)

lemma look_puts:
  assumes "inv s" "look (fold put vs s) k = Some v"
  shows "(v \<in> set vs \<and> key v = k \<and> (\<exists>us ws. vs = us @ v # ws \<and> k \<notin> key ` set ws)) \<or> (look s k = Some v \<and> k \<notin> key ` set vs)"
  using assms
proof (induction vs rule: rev_induct)
  case (snoc u vs)
  have inv: "inv (fold put vs s)" by (rule inv_puts [OF snoc.prems(1)])
  show ?case
  proof (cases "k = key u")
    case True
    with look_put [OF inv, of u] snoc.prems(2) have "v = u" by simp
    with True show ?thesis by force
  next
    case False
    with look_other [OF inv False] snoc.prems(2) have "look (fold put vs s) k = Some v" by simp
    from snoc.IH [OF snoc.prems(1) this] False show ?thesis by (elim disjE) (force, simp)
  qed
qed simp

lemma look_puts_distinct:
  assumes "inv s" "look (fold put vs s) (key v) = Some w" "v \<in> set vs" "distinct (map key vs)"
  shows "w = v"
  using look_puts [OF assms(1,2)] assms(3,4) by (auto simp: distinct_map inj_on_def)

end

interpretation frontier_store: forgetful_store store_inv frontier_insert frontier_get af_frontier_id
proof
  fix s :: "('env, 'cache, 'u, 'ctx) store" and v w k
  assume inv: "store_inv s"
  show "store_inv (frontier_insert v s)" by (rule store_inv_insert [OF inv])
  show "frontier_get (frontier_insert v s) (af_frontier_id v) = Some v"
    using inv by (cases "fs_frontiers s (af_frontier_id v)") (simp_all add: insert_absent insert_present frontier_get_def)
  assume "k \<noteq> af_frontier_id v" "frontier_get (frontier_insert v s) k = Some w"
  then show "frontier_get s k = Some w"
    using inv by (cases "fs_frontiers s (af_frontier_id v)")
      (auto simp: insert_absent insert_present frontier_get_def restrict_map_def split: if_splits)
qed

section \<open>The frontiers of a block\<close>

definition step_id :: "(bytes \<Rightarrow> b256) \<Rightarrow> b256 \<Rightarrow> ('u, 'ctx) tx_step \<Rightarrow> b256" where
  "step_id keccak parent_hash step = (case step of (n, i, h, _) \<Rightarrow> keccak (frontier_identity parent_hash n i h))"

definition step_update :: "('u, 'ctx) tx_step \<Rightarrow> 'u" where
  "step_update step = (case step of (_, _, _, u, _) \<Rightarrow> u)"

text \<open>The delta chain after a list of updates.\<close>

definition extend_tail :: "'u FrontierStateDelta option \<Rightarrow> 'u list \<Rightarrow> 'u FrontierStateDelta option" where
  "extend_tail t us = fold (\<lambda>u t. Some (Delta t u)) us t"

definition step_frontier :: "(bytes \<Rightarrow> b256) \<Rightarrow> ('env, 'cache) FrontierBlockBase \<Rightarrow> 'u FrontierStateDelta option
    \<Rightarrow> ('u, 'ctx) tx_step \<Rightarrow> ('env, 'cache, 'u, 'ctx) ArbExecutionFrontier" where
  "step_frontier keccak base t step = (case step of (n, i, h, u, ctx) \<Rightarrow>
     \<lparr>af_frontier_id = step_id keccak (fb_parent_hash base) step, af_block_number = n, af_transaction_index = i,
      af_transaction_hash = h, af_chain_context = ctx, af_base = base, af_tail = Delta t u\<rparr>)"

fun block_frontiers :: "(bytes \<Rightarrow> b256) \<Rightarrow> ('env, 'cache) FrontierBlockBase \<Rightarrow> 'u FrontierStateDelta option
    \<Rightarrow> ('u, 'ctx) tx_step list \<Rightarrow> ('env, 'cache, 'u, 'ctx) ArbExecutionFrontier list" where
  "block_frontiers keccak base t [] = []"
| "block_frontiers keccak base t (step # steps) =
     step_frontier keccak base t step # block_frontiers keccak base (Some (Delta t (step_update step))) steps"

lemma advance_block_eq:
  "advance_block keccak steps (blk, s) =
     (map (step_id keccak (fb_parent_hash (fk_base blk))) steps,
      blk\<lparr>fk_tail := extend_tail (fk_tail blk) (map step_update steps)\<rparr>,
      fold frontier_insert (block_frontiers keccak (fk_base blk) (fk_tail blk) steps) s)"
proof (induction steps arbitrary: blk s)
  case (Cons step steps)
  obtain n i h u ctx where "step = (n, i, h, u, ctx)" by (cases step)
  then show ?case
    by (simp add: block_advance_def Cons.IH step_id_def step_update_def step_frontier_def extend_tail_def Let_def)
qed (simp add: extend_tail_def)

lemma length_block_frontiers [simp]: "length (block_frontiers keccak base t steps) = length steps"
  by (induction steps arbitrary: t) simp_all

lemma block_frontiers_nth:
  "i < length steps \<Longrightarrow> block_frontiers keccak base t steps ! i
     = step_frontier keccak base (extend_tail t (map step_update (take i steps))) (steps ! i)"
proof (induction steps arbitrary: t i)
  case (Cons step steps)
  then show ?case by (cases i) (simp_all add: extend_tail_def)
qed simp

lemma map_id_frontiers: "map af_frontier_id (block_frontiers keccak base t steps) = map (step_id keccak (fb_parent_hash base)) steps"
  by (induction steps arbitrary: t) (simp_all add: step_frontier_def split: prod.split)

lemma delta_walk_Delta: "delta_walk (Delta t u) = u # (case t of None \<Rightarrow> [] | Some d \<Rightarrow> delta_walk d)"
  by (cases t) simp_all

lemma extend_tail_snoc: "extend_tail t (us @ [u]) = Some (Delta (extend_tail t us) u)"
  by (simp add: extend_tail_def)

lemma delta_walk_extend: "(case extend_tail None us of None \<Rightarrow> [] | Some d \<Rightarrow> delta_walk d) = rev us"
  by (induction us rule: rev_induct) (simp_all add: extend_tail_snoc delta_walk_Delta, simp add: extend_tail_def)

lemma state_updates_step:
  assumes "i < length steps"
  shows "state_updates (step_frontier keccak base (extend_tail None (map step_update (take i steps))) (steps ! i))
    = map step_update (take (Suc i) steps)"
proof -
  obtain n j h u ctx where "steps ! i = (n, j, h, u, ctx)" by (cases "steps ! i")
  with assms show ?thesis
    by (simp add: state_updates_def step_frontier_def delta_walk_Delta delta_walk_extend take_Suc_conv_app_nth step_update_def)
qed

lemma put_entries_fresh:
  assumes "distinct (map fst es)" "fst ` set es \<inter> fst ` set xs = {}" "length xs \<le> c" "0 < c"
  shows "fold (put_entry c) es xs = drop (length xs + length es - c) (xs @ es)"
  using assms
proof (induction es arbitrary: xs)
  case (Cons e es)
  define ys where "ys = drop (Suc (length xs) - c) (xs @ [e])"
  have put: "put_entry c e xs = ys" using Cons.prems by (auto simp: put_entry_def ys_def)
  have "set ys \<subseteq> insert e (set xs)" by (auto simp: ys_def dest: in_set_dropD)
  then have "fst ` set es \<inter> fst ` set ys = {}" using Cons.prems by force
  with Cons.prems have "fold (put_entry c) es ys = drop (length ys + length es - c) (ys @ es)"
    by (intro Cons.IH) (auto simp: ys_def)
  also have "ys @ es = drop (Suc (length xs) - c) (xs @ e # es)" using Cons.prems(4) by (simp add: ys_def)
  also have "drop (length ys + length es - c) \<dots> = drop (length xs + length (e # es) - c) (xs @ e # es)"
    unfolding drop_drop using Cons.prems(3,4) by (intro arg_cong [where f = "\<lambda>n. drop n _"]) (auto simp: ys_def)
  finally show ?case by (simp add: put)
qed simp

lemma map_of_drop_fresh:
  assumes "distinct (map fst es)" "i < length es" "fst (es ! i) \<notin> fst ` set xs"
  shows "map_of (drop n (xs @ es)) (fst (es ! i)) = (if n - length xs \<le> i then Some (snd (es ! i)) else None)"
proof -
  let ?m = "n - length xs"
  have "map_of (drop n xs) (fst (es ! i)) = None"
    using assms(3) by (auto simp: map_of_eq_None_iff dest: in_set_dropD)
  then have "map_of (drop n (xs @ es)) (fst (es ! i)) = map_of (drop ?m es) (fst (es ! i))"
    by (simp add: map_add_def split: option.split)
  also have "\<dots> = (if ?m \<le> i then Some (snd (es ! i)) else None)"
  proof (cases "?m \<le> i")
    case True
    then have "es ! i = drop ?m es ! (i - ?m)" "i - ?m < length (drop ?m es)" using assms(2) by simp_all
    then have "(fst (es ! i), snd (es ! i)) \<in> set (drop ?m es)" by (metis nth_mem prod.collapse)
    moreover have "distinct (map fst (drop ?m es))" using assms(1) by (simp add: drop_map [symmetric])
    ultimately show ?thesis using True by (simp add: map_of_eq_Some_iff)
  next
    case False
    have "fst (es ! i) \<noteq> fst (drop ?m es ! j)" if "j < length (drop ?m es)" for j
      using nth_eq_iff_index_eq [OF assms(1), of i "?m + j"] assms(2) that False by simp
    then have "fst (es ! i) \<notin> fst ` set (drop ?m es)" by (metis (no_types) imageE in_set_conv_nth)
    then show ?thesis using False by (simp add: map_of_eq_None_iff)
  qed
  finally show ?thesis .
qed

lemma entries_fold:
  "store_inv s \<Longrightarrow> store_entries (fold frontier_insert fs s)
     = fold (put_entry (fs_capacity s)) (map (\<lambda>f. (af_frontier_id f, f)) fs) (store_entries s)"
  by (induction fs arbitrary: s) (simp_all add: entries_insert store_inv_insert)

lemma get_after_fresh_inserts:
  assumes "store_inv s" "distinct (map af_frontier_id fs)" "i < length fs"
    and "\<forall>f \<in> set fs. frontier_get s (af_frontier_id f) = None"
  shows "frontier_get (fold frontier_insert fs s) (af_frontier_id (fs ! i))
    = (if length fs \<le> i + fs_capacity s then Some (fs ! i) else None)"
proof -
  let ?es = "map (\<lambda>f. (af_frontier_id f, f)) fs" and ?xs = "store_entries s"
  have len: "length ?xs \<le> fs_capacity s" "0 < fs_capacity s" using assms(1) by (simp_all add: store_inv_def store_entries_def)
  have new: "af_frontier_id f \<notin> set (fs_order s)" if "f \<in> set fs" for f
    using assms(1,4) that by (auto simp: frontier_get_def store_inv_def)
  then have fresh: "fst ` set ?es \<inter> fst ` set ?xs = {}" by auto
  have "store_inv (fold frontier_insert fs s)" by (rule frontier_store.inv_puts [OF assms(1)])
  then have "frontier_get (fold frontier_insert fs s) (fst (?es ! i))
      = map_of (drop (length ?xs + length ?es - fs_capacity s) (?xs @ ?es)) (fst (?es ! i))"
    using put_entries_fresh [of ?es ?xs "fs_capacity s"] assms(1,2) fresh len
    by (simp add: store_get entries_fold comp_def)
  also have "\<dots> = (if length ?xs + length ?es - fs_capacity s - length ?xs \<le> i then Some (snd (?es ! i)) else None)"
    using assms(2,3) new by (intro map_of_drop_fresh) (simp_all add: comp_def)
  finally show ?thesis using assms(3) len(1) by auto
qed

section \<open>Simulation at a frontier\<close>

definition FRONTIER_UNAVAILABLE :: int where "FRONTIER_UNAVAILABLE = -32001"

text \<open>The fields of the EVM environment the simulation changes. All others are the record's extension, which every
  operation below hands on as it is.\<close>

record SimEnv =
  se_disable_eip3607 :: bool
  se_disable_block_gas_limit :: bool
  se_tx_gas_limit_cap :: "u64 option"
  se_disable_nonce_check :: bool
  se_disable_base_fee :: bool
  se_basefee :: u64

record 't SimRequest =
  sr_frontier_id :: b256
  sr_transaction :: 't
  sr_gas :: "u64 option"
  sr_validation :: bool

datatype SimError = SimError int

record 'r SimResult =
  sim_frontier_id :: b256
  sim_block_number :: u64
  sim_transaction_index :: u64
  sim_transaction_hash :: b256
  sim_outcome :: 'r

definition sim_env :: "u64 \<Rightarrow> bool \<Rightarrow> 'e SimEnv_scheme \<Rightarrow> 'e SimEnv_scheme" where
  "sim_env gas_cap validation env =
     (let env = env\<lparr>se_disable_eip3607 := True, se_disable_block_gas_limit := True,
            se_tx_gas_limit_cap := Some (if gas_cap = 0 then u64_max else gas_cap)\<rparr>
      in if validation then env
         else env\<lparr>se_disable_nonce_check := True, se_disable_base_fee := True, se_basefee := 0\<rparr>)"

definition sim_gas :: "u64 \<Rightarrow> u64 option \<Rightarrow> u64 option" where
  "sim_gas gas_cap gas = (if gas_cap \<noteq> 0 \<and> (case gas of None \<Rightarrow> True | Some g \<Rightarrow> g > gas_cap) then Some gas_cap else gas)"

text \<open>The state provider, committing a delta, building the transaction environment and executing it are the
  parameters: \<^term>\<open>state_at\<close> opens the parent state over the cached pre-state, \<^term>\<open>transact\<close> runs without
  committing.\<close>

definition simulate :: "(b256 \<Rightarrow> 'cache \<Rightarrow> 's option) \<Rightarrow> ('u \<Rightarrow> 's \<Rightarrow> 's) \<Rightarrow> ('t \<Rightarrow> u64 option \<Rightarrow> 'e SimEnv_scheme \<Rightarrow> 'x option)
    \<Rightarrow> ('e SimEnv_scheme \<Rightarrow> 'ctx \<Rightarrow> 's \<Rightarrow> 'x \<Rightarrow> 'r option) \<Rightarrow> u64 \<Rightarrow> ('e SimEnv_scheme, 'cache, 'u, 'ctx) ArbExecutionFrontier \<Rightarrow> 't SimRequest
    \<Rightarrow> SimError + 'r SimResult" where
  "simulate state_at commit tx_env transact gas_cap frontier request =
     rbind (ok_or (SimError FRONTIER_UNAVAILABLE)
         (state_at (fb_parent_hash (af_base frontier)) (fb_pre_execution_state (af_base frontier)))) (\<lambda>state.
     let state = fold commit (state_updates frontier) state;
         env = sim_env gas_cap (sr_validation request) (fb_evm_env (af_base frontier));
         gas = sim_gas gas_cap (sr_gas request)
     in rbind (ok_or (SimError (-32602)) (tx_env (sr_transaction request) gas env)) (\<lambda>tx.
        rbind (ok_or (SimError (-32000)) (transact env (af_chain_context frontier) state tx)) (\<lambda>r.
        Inr \<lparr>sim_frontier_id = af_frontier_id frontier, sim_block_number = af_block_number frontier,
             sim_transaction_index = af_transaction_index frontier, sim_transaction_hash = af_transaction_hash frontier,
             sim_outcome = r\<rparr>)))"

text \<open>The RPC method. The simulation runs in a task of its own, which may fail to be joined.\<close>

definition arb_simulateAtFrontier :: "(b256 \<Rightarrow> 'cache \<Rightarrow> 's option) \<Rightarrow> ('u \<Rightarrow> 's \<Rightarrow> 's) \<Rightarrow> ('t \<Rightarrow> u64 option \<Rightarrow> 'e SimEnv_scheme \<Rightarrow> 'x option)
    \<Rightarrow> ('e SimEnv_scheme \<Rightarrow> 'ctx \<Rightarrow> 's \<Rightarrow> 'x \<Rightarrow> 'r option) \<Rightarrow> u64 \<Rightarrow> ('e SimEnv_scheme, 'cache, 'u, 'ctx) store \<Rightarrow> bool \<Rightarrow> 't SimRequest option
    \<Rightarrow> SimError + 'r SimResult" where
  "arb_simulateAtFrontier state_at commit tx_env transact gas_cap store joined params =
     rbind (ok_or (SimError (-32602)) params) (\<lambda>request.
     rbind (ok_or (SimError FRONTIER_UNAVAILABLE) (frontier_get store (sr_frontier_id request))) (\<lambda>frontier.
     if joined then simulate state_at commit tx_env transact gas_cap frontier request else Inl (SimError (-32603))))"

section \<open>Properties\<close>

lemma simulate_Inr_iff:
  "simulate state_at commit tx_env transact gas_cap f request = Inr r \<longleftrightarrow>
     (\<exists>st tx. state_at (fb_parent_hash (af_base f)) (fb_pre_execution_state (af_base f)) = Some st
        \<and> tx_env (sr_transaction request) (sim_gas gas_cap (sr_gas request))
            (sim_env gas_cap (sr_validation request) (fb_evm_env (af_base f))) = Some tx
        \<and> transact (sim_env gas_cap (sr_validation request) (fb_evm_env (af_base f))) (af_chain_context f)
            (fold commit (state_updates f) st) tx = Some (sim_outcome r))
     \<and> sim_frontier_id r = af_frontier_id f \<and> sim_block_number r = af_block_number f
     \<and> sim_transaction_index r = af_transaction_index f \<and> sim_transaction_hash r = af_transaction_hash f"
  unfolding simulate_def by (cases r) (auto simp: result_simps Let_def)

lemma get_in_block:
  assumes "store_inv s" "advance_block keccak steps (FrontierBlock_new parent env pre, s) = (ids, blk, s')"
    and "distinct ids" "\<forall>fid \<in> set ids. frontier_get s fid = None" "i < length steps"
  shows "frontier_get s' (ids ! i) = (if length steps \<le> i + fs_capacity s
    then Some (step_frontier keccak \<lparr>fb_parent_hash = parent, fb_evm_env = env, fb_pre_execution_state = pre\<rparr>
      (extend_tail None (map step_update (take i steps))) (steps ! i)) else None)"
proof -
  define base where "base = \<lparr>fb_parent_hash = parent, fb_evm_env = env, fb_pre_execution_state = pre\<rparr>"
  let ?fs = "block_frontiers keccak base None steps"
  have ids: "map af_frontier_id ?fs = ids" and s': "s' = fold frontier_insert ?fs s"
    using assms(2) by (simp_all add: FrontierBlock_new_def advance_block_eq base_def map_id_frontiers)
  have "\<forall>f \<in> set ?fs. frontier_get s (af_frontier_id f) = None" using assms(4) unfolding ids [symmetric] by simp
  from get_after_fresh_inserts [OF assms(1) _ _ this, of i] assms(3,5) ids
  have "frontier_get s' (af_frontier_id (?fs ! i)) = (if length steps \<le> i + fs_capacity s then Some (?fs ! i) else None)"
    by (simp add: s')
  moreover have "ids ! i = af_frontier_id (?fs ! i)" using assms(5) unfolding ids [symmetric] by simp
  ultimately show ?thesis using assms(5) by (simp add: block_frontiers_nth base_def)
qed

text \<open>C29: the frontier store, a hash map with a queue of keys, implements a bounded list of entries in the order in
  which their keys were first inserted: its invariant is kept, every insertion acts on the entries as the abstract
  insertion does - a new key goes to the end and pushes out the earliest beyond the capacity - and a lookup is a lookup
  among the entries. Of keys that are all new and inserted once each, the most recent ones up to the capacity are kept.
  Inserting a key that is present replaces its entry but not its place in the queue, so such an entry can be pushed out
  before others that were inserted less recently.\<close>

theorem frontier_store_refines:
  fixes s :: "('env, 'cache, 'u, 'ctx) store"
  assumes "store_inv s"
  shows "store_inv (frontier_insert f s)
    \<and> store_entries (frontier_insert f s) = put_entry (fs_capacity s) (af_frontier_id f, f) (store_entries s)
    \<and> frontier_get s = map_of (store_entries s)
    \<and> length (store_entries s) \<le> fs_capacity s
    \<and> (frontier_get s (af_frontier_id f) \<noteq> None \<longrightarrow> map fst (store_entries (frontier_insert f s)) = map fst (store_entries s))
    \<and> (\<forall>fs. distinct (map af_frontier_id fs) \<longrightarrow> (\<forall>g \<in> set fs. frontier_get s (af_frontier_id g) = None) \<longrightarrow>
         (let es = store_entries s @ map (\<lambda>g. (af_frontier_id g, g)) fs
          in store_entries (fold frontier_insert fs s) = drop (length es - fs_capacity s) es))"
proof -
  have len: "length (store_entries s) \<le> fs_capacity s" "0 < fs_capacity s" using assms by (simp_all add: store_inv_def store_entries_def)
  have get: "frontier_get s = map_of (store_entries s)" using assms by (simp add: fun_eq_iff store_get)
  have "map fst (store_entries (frontier_insert f s)) = map fst (store_entries s)" if "frontier_get s (af_frontier_id f) \<noteq> None"
  proof -
    have "af_frontier_id f \<in> fst ` set (store_entries s)" using that unfolding get by (metis map_of_eq_None_iff)
    then show ?thesis unfolding entries_insert [OF assms] put_entry_def by (auto simp: comp_def)
  qed
  moreover have "store_entries (fold frontier_insert fs s) = drop (length (store_entries s) + length fs - fs_capacity s)
      (store_entries s @ map (\<lambda>g. (af_frontier_id g, g)) fs)"
    if "distinct (map af_frontier_id fs)" "\<forall>g \<in> set fs. frontier_get s (af_frontier_id g) = None" for fs
  proof -
    have "fst ` set (map (\<lambda>g. (af_frontier_id g, g)) fs) \<inter> fst ` set (store_entries s) = {}"
      using that(2) unfolding get by (auto simp: map_of_eq_None_iff)
    then show ?thesis using that(1) len by (simp add: entries_fold [OF assms] put_entries_fresh comp_def)
  qed
  ultimately show ?thesis using assms get len by (auto simp: store_inv_insert entries_insert Let_def)
qed

definition wit_frontier :: "byte \<Rightarrow> nat \<Rightarrow> (unit, unit, nat, unit) ArbExecutionFrontier" where
  "wit_frontier k u = \<lparr>af_frontier_id = [k], af_block_number = 7, af_transaction_index = 0, af_transaction_hash = [],
     af_chain_context = (), af_base = \<lparr>fb_parent_hash = [], fb_evm_env = (), fb_pre_execution_state = ()\<rparr>, af_tail = Delta None u\<rparr>"

theorem frontier_store_refines_witness:
  "let s = frontier_insert (wit_frontier 2 20) (frontier_insert (wit_frontier 1 10) (FrontierStore_new 2)) in
   store_inv s \<and> store_entries (frontier_insert (wit_frontier 3 30) s) = [([2], wit_frontier 2 20), ([3], wit_frontier 3 30)]
   \<and> frontier_get (frontier_insert (wit_frontier 3 30) s) [1] = None
   \<and> map fst (store_entries (frontier_insert (wit_frontier 1 11) s)) = [[1], [2]]"
proof -
  define s where "s = frontier_insert (wit_frontier 2 20) (frontier_insert (wit_frontier 1 10) (FrontierStore_new 2))"
  have inv: "store_inv s" unfolding s_def by (intro store_inv_insert) simp
  have "s = \<lparr>fs_order = [[1], [2]], fs_frontiers = [[1] \<mapsto> wit_frontier 1 10, [2] \<mapsto> wit_frontier 2 20], fs_capacity = 2\<rparr>"
    by (simp add: s_def frontier_insert_def FrontierStore_new_def wit_frontier_def Let_def)
  then have e: "store_entries s = [([1], wit_frontier 1 10), ([2], wit_frontier 2 20)]" "fs_capacity s = 2"
    "af_frontier_id (wit_frontier 3 30) = [3]"
    by (simp_all add: store_entries_def) (simp add: wit_frontier_def)
  have new: "store_entries (frontier_insert (wit_frontier 3 30) s) = [([2], wit_frontier 2 20), ([3], wit_frontier 3 30)]"
    using frontier_store_refines [OF inv, of "wit_frontier 3 30"] e by (simp add: put_entry_def)
  then have "frontier_get (frontier_insert (wit_frontier 3 30) s) [1] = None"
    using frontier_store_refines [OF store_inv_insert [OF inv, of "wit_frontier 3 30"]] by simp
  moreover have "map fst (store_entries (frontier_insert (wit_frontier 1 11) s)) = [[1], [2]]"
    using frontier_store_refines [OF inv, of "wit_frontier 1 11"] e by (simp add: put_entry_def) (simp add: wit_frontier_def)
  ultimately show ?thesis using inv new by (simp add: s_def [symmetric] Let_def)
qed

text \<open>C30: after a block has been executed, a simulation at the frontier of its i-th transaction runs on the parent
  state with exactly the deltas of the transactions up to and including the i-th committed in order, in the block's
  environment and the ArbOS context after that transaction, under the node's gas cap, and reports that transaction;
  once as many newer transactions as the store holds have followed, it fails with -32001 and runs nothing. The
  identifiers of the block's transactions are different from each other and new to the store.\<close>

theorem simulation_exact:
  assumes "store_inv s" "advance_block keccak steps (FrontierBlock_new parent env pre, s) = (ids, blk, s')"
    and "distinct ids" "\<forall>fid \<in> set ids. frontier_get s fid = None"
    and "i < length steps" "steps ! i = (n, j, h, u, ctx)" "sr_frontier_id request = ids ! i"
  shows "(arb_simulateAtFrontier state_at commit tx_env transact gas_cap s' joined (Some request) = Inr r \<longleftrightarrow>
      joined \<and> length steps \<le> i + fs_capacity s
      \<and> (\<exists>st tx. state_at parent pre = Some st
           \<and> tx_env (sr_transaction request) (sim_gas gas_cap (sr_gas request)) (sim_env gas_cap (sr_validation request) env) = Some tx
           \<and> transact (sim_env gas_cap (sr_validation request) env) ctx
               (fold commit (map step_update (take (Suc i) steps)) st) tx = Some (sim_outcome r))
      \<and> sim_frontier_id r = ids ! i \<and> sim_block_number r = n \<and> sim_transaction_index r = j \<and> sim_transaction_hash r = h)
    \<and> (i + fs_capacity s < length steps \<longrightarrow>
      arb_simulateAtFrontier state_at commit tx_env transact gas_cap s' joined (Some request) = Inl (SimError FRONTIER_UNAVAILABLE))"
proof -
  define base where "base = \<lparr>fb_parent_hash = parent, fb_evm_env = env, fb_pre_execution_state = pre\<rparr>"
  define F where "F = step_frontier keccak base (extend_tail None (map step_update (take i steps))) (steps ! i)"
  have "ids ! i = step_id keccak parent (steps ! i)"
    using assms(2,5) by (auto simp: advance_block_eq FrontierBlock_new_def)
  then have F: "state_updates F = map step_update (take (Suc i) steps)" "af_frontier_id F = ids ! i" "af_block_number F = n"
    "af_transaction_index F = j" "af_transaction_hash F = h" "af_chain_context F = ctx" "af_base F = base"
    using state_updates_step [OF assms(5), of keccak base] assms(6) by (simp_all add: F_def step_frontier_def base_def)
  have get: "frontier_get s' (ids ! i) = (if length steps \<le> i + fs_capacity s then Some F else None)"
    using get_in_block [OF assms(1-5)] by (simp add: F_def base_def)
  show ?thesis
    using get F assms(7) by (auto simp: arb_simulateAtFrontier_def simulate_Inr_iff base_def)
qed

definition wit_sim_env :: SimEnv where
  "wit_sim_env = \<lparr>se_disable_eip3607 = False, se_disable_block_gas_limit = False, se_tx_gas_limit_cap = None,
     se_disable_nonce_check = False, se_disable_base_fee = False, se_basefee = 100\<rparr>"

definition wit_steps :: "(nat, unit) tx_step list" where
  "wit_steps = [(9, 0, [1], 10, ()), (9, 1, [2], 20, ()), (9, 2, [3], 30, ())]"

definition wit_request :: "b256 \<Rightarrow> unit SimRequest" where
  "wit_request fid = \<lparr>sr_frontier_id = fid, sr_transaction = (), sr_gas = None, sr_validation = False\<rparr>"

theorem simulation_exact_witness:
  "case advance_block (\<lambda>bs. bs) wit_steps (FrontierBlock_new [5] wit_sim_env (), FrontierStore_new 2) of (ids, blk, s') \<Rightarrow>
     arb_simulateAtFrontier (\<lambda>_ _. Some []) (\<lambda>u st. st @ [u]) (\<lambda>_ gas _. gas) (\<lambda>_ _ st gas. Some (st, gas)) 50000000 s' True
       (Some (wit_request (ids ! 1)))
       = Inr \<lparr>sim_frontier_id = ids ! 1, sim_block_number = 9, sim_transaction_index = 1, sim_transaction_hash = [2],
           sim_outcome = ([10, 20], 50000000)\<rparr>
     \<and> arb_simulateAtFrontier (\<lambda>_ _. Some []) (\<lambda>u st. st @ [u]) (\<lambda>_ gas _. gas) (\<lambda>_ _ st gas. Some (st, gas)) 50000000 s' True
       (Some (wit_request (ids ! 0))) = Inl (SimError FRONTIER_UNAVAILABLE)"
proof -
  obtain ids blk s' where run: "advance_block (\<lambda>bs. bs) wit_steps (FrontierBlock_new [5] wit_sim_env (), FrontierStore_new 2) = (ids, blk, s')"
    by (metis prod_cases3)
  then have ids: "ids = map (step_id (\<lambda>bs. bs) [5]) wit_steps" by (simp add: advance_block_eq FrontierBlock_new_def)
  have d: "distinct ids" by (simp add: ids wit_steps_def step_id_def frontier_identity_def)
  have n: "\<forall>fid \<in> set ids. frontier_get (FrontierStore_new 2) fid = None"
    by (simp add: frontier_get_def FrontierStore_new_def)
  note at = simulation_exact [OF store_inv_new run d n, where state_at = "\<lambda>_ _. Some []" and commit = "\<lambda>u st. st @ [u]"
    and tx_env = "\<lambda>_ gas _. gas" and transact = "\<lambda>_ _ st gas. Some (st, gas)" and gas_cap = 50000000 and joined = True]
  have "wit_steps ! 1 = (9, 1, [2], 20, ())" "wit_steps ! 0 = (9, 0, [1], 10, ())" "length wit_steps = 3"
    "map step_update (take (Suc 1) wit_steps) = [10, 20]"
    by (simp_all add: wit_steps_def step_update_def)
  with at [of 1 9 1 "[2]" 20 "()" "wit_request (ids ! 1)" "\<lparr>sim_frontier_id = ids ! 1, sim_block_number = 9,
        sim_transaction_index = 1, sim_transaction_hash = [2], sim_outcome = ([10, 20], 50000000)\<rparr>"]
    at [of 0 9 0 "[1]" 10 "()" "wit_request (ids ! 0)"] run
  show ?thesis by (simp add: wit_request_def sim_gas_def)
qed

end
