(* ===== verification/Tx_Log_Ipc.thy ===== *)
theory Tx_Log_Ipc
  imports Prelude
begin

text \<open>The transaction-log socket, \<^verbatim>\<open>crates/arb-reth-node/src/mev_tx_logs.rs\<close>: the event of
  \<^verbatim>\<open>crates/arb-reth-engine/src/tx_log_stream.rs\<close>, its binary frame, the task that streams events to one client
  and the treatment of a stale socket file. The broadcast channel and the socket belong to other packages: what they
  return is an argument, one entry per call. The consumer the frame format is documented for
  (\<^verbatim>\<open>docs/mev-tx-log-ipc.md\<close>) is the reference the encoder is checked against.\<close>

section \<open>Events\<close>

datatype ArbTxExecutionKind = StartBlock | User | ScheduledRetry

record Log =
  log_address :: address
  log_topics :: "b256 list"
  log_data :: bytes

record ArbTxLogEvent =
  ev_block_number :: u64
  ev_transaction_index :: u64
  ev_transaction_hash :: b256
  ev_frontier_id :: b256
  ev_kind :: ArbTxExecutionKind
  ev_success :: bool
  ev_gas_used :: u64
  ev_logs :: "Log list"

section \<open>The frame\<close>

definition FRAME_VERSION :: byte where "FRAME_VERSION = 2"
definition FIXED_BODY_LEN :: nat where "FIXED_BODY_LEN = 96"
definition MAX_LOG_TOPICS :: nat where "MAX_LOG_TOPICS = 4"

datatype EncodeError = TooManyLogs | TooManyTopics | DataTooLong | LengthOverflow | FrameTooLong

definition u32_try_from :: "EncodeError \<Rightarrow> nat \<Rightarrow> EncodeError + nat" where
  "u32_try_from e n = (if n < 2 ^ 32 then Inr n else Inl e)"

text \<open>The length of the frame body, with every check.\<close>

fun body_len_loop :: "Log list \<Rightarrow> nat \<Rightarrow> EncodeError + nat" where
  "body_len_loop [] body_len = Inr body_len"
| "body_len_loop (log # logs) body_len =
     (if length (log_topics log) > MAX_LOG_TOPICS then Inl TooManyTopics
      else rbind (u32_try_from DataTooLong (length (log_data log))) (\<lambda>data_len.
        let body_len = body_len + (25 + length (log_topics log) * 32 + data_len) in
        if body_len < 2 ^ 64 then body_len_loop logs body_len else Inl LengthOverflow))"

definition encode_kind :: "ArbTxExecutionKind \<Rightarrow> byte" where
  "encode_kind k = (case k of StartBlock \<Rightarrow> 0 | User \<Rightarrow> 1 | ScheduledRetry \<Rightarrow> 2)"

definition encode_log :: "Log \<Rightarrow> bytes" where
  "encode_log log = log_address log @ [word_of_nat (length (log_topics log))] @ nat_be 4 (length (log_data log))
     @ concat (log_topics log) @ log_data log"

definition encode_event :: "ArbTxLogEvent \<Rightarrow> EncodeError + bytes" where
  "encode_event event =
     rbind (u32_try_from TooManyLogs (length (ev_logs event))) (\<lambda>log_count.
     rbind (body_len_loop (ev_logs event) FIXED_BODY_LEN) (\<lambda>body_len.
     rbind (u32_try_from FrameTooLong body_len) (\<lambda>frame_len.
     Inr (nat_be 4 frame_len @ [FRAME_VERSION, encode_kind (ev_kind event), of_bool (ev_success event), 0]
       @ u64_to_be (ev_block_number event) @ u64_to_be (ev_transaction_index event) @ u64_to_be (ev_gas_used event)
       @ ev_transaction_hash event @ ev_frontier_id event @ nat_be 4 log_count @ concat (map encode_log (ev_logs event))))))"

section \<open>The client task\<close>

text \<open>What the channel returns to a receiver, and what a write to the socket does: all of it is written, or it
  fails after some bytes.\<close>

datatype RecvResult = Received ArbTxLogEvent | Lagged u64 | Closed

datatype WriteResult = Written | WriteFailed nat

fun stream_client :: "RecvResult list \<Rightarrow> WriteResult list \<Rightarrow> bytes" where
  "stream_client [] writes = []"
| "stream_client (Lagged n # rs) writes = []"
| "stream_client (Closed # rs) writes = []"
| "stream_client (Received event # rs) writes = (case encode_event event of
       Inl e \<Rightarrow> stream_client rs writes
     | Inr encoded \<Rightarrow> (case writes of
           [] \<Rightarrow> []
         | Written # ws \<Rightarrow> encoded @ stream_client rs ws
         | WriteFailed n # ws \<Rightarrow> take n encoded))"

section \<open>A stale socket\<close>

datatype SocketError = InspectFailed | NotASocket | RemoveFailed

text \<open>The metadata of the path is missing, unreadable, or says whether it is a socket.\<close>

datatype PathMetadata = PathMissing | PathUnreadable | PathIs bool

definition remove_stale_socket :: "PathMetadata \<Rightarrow> bool \<Rightarrow> SocketError + bool" where
  "remove_stale_socket metadata removal_succeeds = (case metadata of
       PathMissing \<Rightarrow> Inr False
     | PathUnreadable \<Rightarrow> Inl InspectFailed
     | PathIs is_socket \<Rightarrow>
         if \<not> is_socket then Inl NotASocket
         else if removal_succeeds then Inr True else Inl RemoveFailed)"

section \<open>The documented consumer\<close>

definition split_at :: "nat \<Rightarrow> bytes \<Rightarrow> (bytes \<times> bytes) option" where
  "split_at n bs = (if n \<le> length bs then Some (take n bs, drop n bs) else None)"

fun decode_many :: "nat \<Rightarrow> (bytes \<Rightarrow> ('a \<times> bytes) option) \<Rightarrow> bytes \<Rightarrow> ('a list \<times> bytes) option" where
  "decode_many 0 p bs = Some ([], bs)"
| "decode_many (Suc n) p bs = Option.bind (p bs) (\<lambda>(x, bs). Option.bind (decode_many n p bs) (\<lambda>(xs, bs). Some (x # xs, bs)))"

definition decode_log :: "bytes \<Rightarrow> (Log \<times> bytes) option" where
  "decode_log bs =
     Option.bind (split_at 20 bs) (\<lambda>(a, bs).
     Option.bind (split_at 1 bs) (\<lambda>(topic_count, bs).
     if unat (hd topic_count) > 4 then None
     else Option.bind (split_at 4 bs) (\<lambda>(data_length, bs).
     Option.bind (decode_many (unat (hd topic_count)) (split_at 32) bs) (\<lambda>(topics, bs).
     Option.bind (split_at (be_nat data_length) bs) (\<lambda>(data, bs).
     Some (\<lparr>log_address = a, log_topics = topics, log_data = data\<rparr>, bs))))))"

definition decode_kind :: "byte \<Rightarrow> ArbTxExecutionKind option" where
  "decode_kind b = (if b = 0 then Some StartBlock else if b = 1 then Some User else if b = 2 then Some ScheduledRetry else None)"

definition decode_body :: "bytes \<Rightarrow> ArbTxLogEvent option" where
  "decode_body bs =
     Option.bind (split_at 4 bs) (\<lambda>(head, bs).
     Option.bind (decode_kind (head ! 1)) (\<lambda>kind.
     if head ! 0 \<noteq> FRAME_VERSION \<or> head ! 2 \<notin> {0, 1} \<or> head ! 3 \<noteq> 0 then None
     else Option.bind (split_at 8 bs) (\<lambda>(block_number, bs).
     Option.bind (split_at 8 bs) (\<lambda>(transaction_index, bs).
     Option.bind (split_at 8 bs) (\<lambda>(gas_used, bs).
     Option.bind (split_at 32 bs) (\<lambda>(transaction_hash, bs).
     Option.bind (split_at 32 bs) (\<lambda>(frontier_id, bs).
     Option.bind (split_at 4 bs) (\<lambda>(log_count, bs).
     Option.bind (decode_many (be_nat log_count) decode_log bs) (\<lambda>(logs, bs).
     if bs \<noteq> [] then None
     else Some \<lparr>ev_block_number = u64_of_be block_number, ev_transaction_index = u64_of_be transaction_index,
            ev_transaction_hash = transaction_hash, ev_frontier_id = frontier_id, ev_kind = kind,
            ev_success = (head ! 2 = 1), ev_gas_used = u64_of_be gas_used, ev_logs = logs\<rparr>)))))))))"

text \<open>Reading frames from what has arrived: a frame that is not complete yet waits, a malformed one ends the
  connection.\<close>

function decode_frames :: "bytes \<Rightarrow> ArbTxLogEvent list" where
  "decode_frames bs = (case split_at 4 bs of
       None \<Rightarrow> []
     | Some (frame_length, rest) \<Rightarrow> (case split_at (be_nat frame_length) rest of
           None \<Rightarrow> []
         | Some (body, rest) \<Rightarrow> (case decode_body body of
               None \<Rightarrow> []
             | Some event \<Rightarrow> event # decode_frames rest)))"
  by pat_completeness auto

termination decode_frames
  by (relation "measure length") (auto simp: split_at_def split: if_splits)

declare decode_frames.simps [simp del]

section \<open>Frames decode to the events they were made from\<close>

definition log_wf :: "Log \<Rightarrow> bool" where
  "log_wf log \<longleftrightarrow> length (log_address log) = 20 \<and> (\<forall>t \<in> set (log_topics log). length t = 32)"

definition event_wf :: "ArbTxLogEvent \<Rightarrow> bool" where
  "event_wf event \<longleftrightarrow> length (ev_transaction_hash event) = 32 \<and> length (ev_frontier_id event) = 32
     \<and> (\<forall>log \<in> set (ev_logs event). log_wf log)"

lemma split_at_append [simp]: "length xs = n \<Longrightarrow> split_at n (xs @ ys) = Some (xs, ys)"
  by (simp add: split_at_def)

lemma split_at_one [simp]: "split_at (Suc 0) (x # ys) = Some ([x], ys)"
  by (simp add: split_at_def)

lemma decode_many_concat:
  "(\<And>x rest. x \<in> set xs \<Longrightarrow> p (enc x @ rest) = Some (x, rest)) \<Longrightarrow>
   decode_many (length xs) p (concat (map enc xs) @ rest) = Some (xs, rest)"
  by (induction xs arbitrary: rest) simp_all

lemma decode_log_encode:
  assumes "log_wf log" "length (log_topics log) \<le> 4" "length (log_data log) < 2 ^ 32"
  shows "decode_log (encode_log log @ rest) = Some (log, rest)"
proof -
  have n: "unat (word_of_nat (length (log_topics log)) :: byte) = length (log_topics log)"
    using assms(2) by (simp add: unat_byte_of_nat)
  have "decode_many (length (log_topics log)) (split_at 32) (concat (map (\<lambda>t. t) (log_topics log)) @ ys)
      = Some (log_topics log, ys)" for ys
    using assms(1) by (intro decode_many_concat) (simp add: log_wf_def)
  moreover have "be_nat (nat_be 4 (length (log_data log))) = length (log_data log)"
    using assms(3) by (simp add: be_simps)
  ultimately show ?thesis
    using assms n by (simp add: decode_log_def encode_log_def log_wf_def)
qed

lemma body_len_loop_Inr:
  assumes "body_len_loop logs b = Inr n" "\<forall>log \<in> set logs. log_wf log"
  shows "n = b + length (concat (map encode_log logs))
    \<and> (\<forall>log \<in> set logs. length (log_topics log) \<le> 4 \<and> length (log_data log) < 2 ^ 32)"
  using assms
proof (induction logs arbitrary: b)
  case (Cons log logs)
  have "length (concat (log_topics log)) = length (log_topics log) * 32"
    using Cons.prems(2) by (intro length_concat_const) (simp add: log_wf_def)
  then have "length (encode_log log) = 25 + length (log_topics log) * 32 + length (log_data log)"
    using Cons.prems(2) by (simp add: encode_log_def log_wf_def)
  with Cons.prems Cons.IH show ?case
    by (fastforce simp: MAX_LOG_TOPICS_def u32_try_from_def result_simps Let_def split: if_splits)
qed simp

lemma decode_kind_encode [simp]: "decode_kind (encode_kind k) = Some k"
  by (cases k) (simp_all add: decode_kind_def encode_kind_def)

lemma encode_event_Inr:
  assumes "encode_event event = Inr bs" "event_wf event"
  obtains body where "bs = nat_be 4 (length body) @ body" "length body < 2 ^ 32" "decode_body body = Some event"
proof -
  from assms(1) obtain n where len: "length (ev_logs event) < 2 ^ 32" "body_len_loop (ev_logs event) FIXED_BODY_LEN = Inr n"
      "n < 2 ^ 32"
    and bs: "bs = nat_be 4 n @ [FRAME_VERSION, encode_kind (ev_kind event), of_bool (ev_success event), 0]
       @ u64_to_be (ev_block_number event) @ u64_to_be (ev_transaction_index event) @ u64_to_be (ev_gas_used event)
       @ ev_transaction_hash event @ ev_frontier_id event @ nat_be 4 (length (ev_logs event)) @ concat (map encode_log (ev_logs event))"
      (is "bs = nat_be 4 n @ ?head @ ?body")
    by (auto simp: encode_event_def u32_try_from_def result_simps split: if_splits)
  from body_len_loop_Inr [OF len(2)] assms(2)
  have n: "n = 96 + length (concat (map encode_log (ev_logs event)))"
    and logs: "\<forall>log \<in> set (ev_logs event). length (log_topics log) \<le> 4 \<and> length (log_data log) < 2 ^ 32"
    by (simp_all add: event_wf_def FIXED_BODY_LEN_def)
  have count: "be_nat (nat_be 4 (length (ev_logs event))) = length (ev_logs event)" using len(1) by (simp add: be_simps)
  have "decode_many (length (ev_logs event)) decode_log (concat (map encode_log (ev_logs event)) @ [])
      = Some (ev_logs event, [])"
    using logs assms(2) by (intro decode_many_concat decode_log_encode) (simp_all add: event_wf_def)
  moreover have "split_at 4 (?head @ ys) = Some (?head, ys)" for ys by (rule split_at_append) simp
  ultimately have "decode_body (?head @ ?body) = Some event"
    using assms(2) count by (simp add: decode_body_def event_wf_def)
  moreover have "length (?head @ ?body) = n" using assms(2) by (simp add: n event_wf_def)
  ultimately show thesis using that [of "?head @ ?body"] bs len(3) by simp
qed

lemma decode_frames_Nil [simp]: "decode_frames [] = []"
  by (simp add: decode_frames.simps [of "[]"] split_at_def)

lemma decode_frames_frame:
  assumes "encode_event event = Inr bs" "event_wf event"
  shows "decode_frames (bs @ rest) = event # decode_frames rest"
proof -
  from assms obtain body where b: "bs = nat_be 4 (length body) @ body" "length body < 2 ^ 32" "decode_body body = Some event"
    by (rule encode_event_Inr)
  have "be_nat (nat_be 4 (length body)) = length body" using b(2) by (simp add: be_simps)
  with b show ?thesis by (subst decode_frames.simps) simp
qed

lemma decode_frames_partial:
  assumes "encode_event event = Inr bs" "event_wf event" "n < length bs"
  shows "decode_frames (take n bs) = []"
proof -
  from assms(1,2) obtain body where b: "bs = nat_be 4 (length body) @ body" "length body < 2 ^ 32"
    by (rule encode_event_Inr)
  have len: "be_nat (nat_be 4 (length body)) = length body" using b(2) by (simp add: be_simps)
  show ?thesis
  proof (cases "n < 4")
    case True
    with assms(3) show ?thesis by (simp add: decode_frames.simps [of "take n bs"] split_at_def)
  next
    case False
    then have "take n bs = nat_be 4 (length body) @ take (n - 4) body" by (simp add: b(1))
    moreover have "split_at (length body) (take (n - 4) body) = None"
      using assms(3) False by (simp add: b(1) split_at_def)
    ultimately show ?thesis using len by (subst decode_frames.simps) simp
  qed
qed

text \<open>The events a client is owed: those received before it lags or the channel closes and that fit a frame.\<close>

fun received :: "RecvResult list \<Rightarrow> ArbTxLogEvent list" where
  "received (Received event # rs) = event # received rs"
| "received _ = []"

definition encodable :: "ArbTxLogEvent \<Rightarrow> bool" where
  "encodable event \<longleftrightarrow> (case encode_event event of Inl _ \<Rightarrow> False | Inr _ \<Rightarrow> True)"

lemma received_Received: "received (r # rs) = (case r of Received event \<Rightarrow> event # received rs | _ \<Rightarrow> [])"
  by (cases r) simp_all

text \<open>C31: what the client task writes to the socket reads back, frame by frame, as the events it received, in
  order and without a gap: all that fit a frame up to the point where a write fails, at least one event for every
  write that succeeded, and nothing for a write that broke off inside a frame.\<close>

theorem stream_client_events:
  assumes "\<forall>event \<in> set (received rs). event_wf event"
  shows "\<exists>k. decode_frames (stream_client rs writes) = take k (filter encodable (received rs))
    \<and> length (takeWhile (\<lambda>w. w = Written) writes) \<le> k"
  using assms
proof (induction rs writes rule: stream_client.induct)
  case (4 event rs writes)
  show ?case
  proof (cases "encode_event event")
    case (Inl e)
    then show ?thesis using 4 by (simp add: encodable_def)
  next
    case enc: (Inr bs)
    note wf = "4.prems" [simplified, THEN conjunct1]
    have e: "encodable event" by (simp add: encodable_def enc)
    consider "writes = []" | ws where "writes = Written # ws" | n ws where "writes = WriteFailed n # ws"
      by (cases writes; cases "hd writes") auto
    then show ?thesis
    proof cases
      case 1
      then show ?thesis using enc by (intro exI [of _ 0]) simp
    next
      case 2
      with "4.IH"(2) [OF enc 2 refl] "4.prems" obtain k where "decode_frames (stream_client rs ws) = take k (filter encodable (received rs))"
        "length (takeWhile (\<lambda>w. w = Written) ws) \<le> k" by auto
      then show ?thesis
        using 2 enc wf by (intro exI [of _ "Suc k"]) (simp add: decode_frames_frame e)
    next
      case 3
      have "decode_frames (take n bs) = take (of_bool (length bs \<le> n)) (event # filter encodable (received rs))"
        using decode_frames_frame [OF enc wf, of "[]"] decode_frames_partial [OF enc wf] by (cases "n < length bs") simp_all
      then show ?thesis
        using 3 enc by (intro exI [of _ "of_bool (length bs \<le> n)"]) (simp add: encodable_def)
    qed
  qed
qed auto

definition wit_ipc_event :: ArbTxLogEvent where
  "wit_ipc_event = \<lparr>ev_block_number = 42, ev_transaction_index = 3, ev_transaction_hash = replicate 32 0xaa,
     ev_frontier_id = replicate 32 0xcc, ev_kind = User, ev_success = True, ev_gas_used = 21000,
     ev_logs = [\<lparr>log_address = replicate 20 0x11, log_topics = [replicate 32 0xbb], log_data = [0x12, 0x34]\<rparr>]\<rparr>"

theorem stream_client_events_witness:
  "decode_frames (stream_client [Received wit_ipc_event, Lagged 3] [Written]) = [wit_ipc_event]"
proof -
  have e: "encodable wit_ipc_event" "event_wf wit_ipc_event"
    by (simp_all add: encodable_def wit_ipc_event_def encode_event_def u32_try_from_def MAX_LOG_TOPICS_def FIXED_BODY_LEN_def
        event_wf_def log_wf_def)
  from stream_client_events [of "[Received wit_ipc_event, Lagged 3]" "[Written]"] e
  obtain k where "decode_frames (stream_client [Received wit_ipc_event, Lagged 3] [Written]) = take k [wit_ipc_event]" "1 \<le> k" by auto
  then show ?thesis by simp
qed

end
