(* ===== verification/Feed.thy ===== *)
theory Feed
  imports BTree_Map "HOL-Library.Sublist"
begin

text \<open>Sequencer feed ingestion, \<^verbatim>\<open>crates/arb-reth-node/src/feed.rs\<close>: declared sources and their expansion into
  raced connections, the first-wins race with its reconnect cursor, the coordinator that forwards winners to the
  engine, and the reconnecting source task with its delays. URL and address parsing, DNS, the WebSocket library and
  JSON belong to other packages or to the outside: they are parameters, and what a connection yields is an argument.
  Durations are milliseconds; metrics and logging have no effect on what is modelled.\<close>

section \<open>Sources\<close>

definition MAX_FEED_SOURCES :: nat where "MAX_FEED_SOURCES = 64"
definition MAX_RECENT_SEQUENCES :: nat where "MAX_RECENT_SEQUENCES = 16384"
definition INITIAL_RECONNECT_DELAY :: nat where "INITIAL_RECONNECT_DELAY = 250"
definition MAX_RECONNECT_DELAY :: nat where "MAX_RECONNECT_DELAY = 8000"
definition INITIAL_RATE_LIMIT_DELAY :: nat where "INITIAL_RATE_LIMIT_DELAY = 30000"
definition MAX_RATE_LIMIT_DELAY :: nat where "MAX_RATE_LIMIT_DELAY = 300000"

datatype IpAddr = V4 u32 | V6 "128 word"

fun is_ipv4 :: "IpAddr \<Rightarrow> bool" where
  "is_ipv4 (V4 _) = True"
| "is_ipv4 (V6 _) = False"

record FeedSourceSpec =
  fss_local_ip :: IpAddr
  fss_connections :: nat

datatype SpecError = ExpectedIpCount | InvalidSourceIp | InvalidCount | ZeroCount

text \<open>The split at the last \<^verbatim>\<open>=\<close>, and \<^verbatim>\<open>usize\<close> parsing: an optional plus sign, then decimal digits, below 2^64.\<close>

definition rsplit_once :: "char \<Rightarrow> string \<Rightarrow> (string \<times> string) option" where
  "rsplit_once c s = (if c \<in> set s
     then Some (rev (tl (dropWhile (\<lambda>x. x \<noteq> c) (rev s))), rev (takeWhile (\<lambda>x. x \<noteq> c) (rev s))) else None)"

definition digit :: "char \<Rightarrow> nat option" where
  "digit c = (let n = of_char c :: nat in if 48 \<le> n \<and> n \<le> 57 then Some (n - 48) else None)"

fun parse_digits :: "string \<Rightarrow> nat \<Rightarrow> nat option" where
  "parse_digits [] n = Some n"
| "parse_digits (c # cs) n = (case digit c of
     None \<Rightarrow> None
   | Some d \<Rightarrow> if n * 10 + d < 2 ^ 64 then parse_digits cs (n * 10 + d) else None)"

definition parse_usize :: "string \<Rightarrow> nat option" where
  "parse_usize s = (let ds = (case s of [] \<Rightarrow> [] | c # cs \<Rightarrow> if c = CHR ''+'' then cs else s)
     in if ds = [] then None else parse_digits ds 0)"

definition FeedSourceSpec_from_str :: "(string \<Rightarrow> IpAddr option) \<Rightarrow> string \<Rightarrow> SpecError + FeedSourceSpec" where
  "FeedSourceSpec_from_str parse_ip raw =
     rbind (ok_or ExpectedIpCount (rsplit_once CHR ''='' raw)) (\<lambda>(ip, cnt).
     rbind (ok_or InvalidSourceIp (parse_ip ip)) (\<lambda>local_ip.
     rbind (ok_or InvalidCount (parse_usize cnt)) (\<lambda>connections.
     if connections = 0 then Inl ZeroCount
     else Inr \<lparr>fss_local_ip = local_ip, fss_connections = connections\<rparr>)))"

record FeedSource =
  src_ordinal :: nat
  src_endpoint :: nat
  src_connection :: nat
  src_url :: string
  src_display_endpoint :: string
  src_local_ip :: "IpAddr option"

record ParsedUrl =
  pu_scheme :: string
  pu_host :: "string option"
  pu_port :: "nat option"

datatype FeedConfigError =
    SourcesWithoutUrl
  | DuplicateSource IpAddr
  | CountOverflow
  | NoConnections
  | TooManyConnections nat
  | InvalidUrl nat
  | NotWebSocketUrl nat

definition checked_usize :: "nat \<Rightarrow> FeedConfigError + nat" where
  "checked_usize n = (if n < 2 ^ 64 then Inr n else Inl CountOverflow)"

fun count_bound :: "FeedSourceSpec list \<Rightarrow> IpAddr list \<Rightarrow> nat \<Rightarrow> FeedConfigError + nat" where
  "count_bound [] declared_ips bound_connections = Inr bound_connections"
| "count_bound (spec # specs) declared_ips bound_connections =
     (if fss_local_ip spec \<in> set declared_ips then Inl (DuplicateSource (fss_local_ip spec))
      else rbind (checked_usize (bound_connections + fss_connections spec))
        (\<lambda>b. count_bound specs (fss_local_ip spec # declared_ips) b))"

definition display_endpoint :: "ParsedUrl \<Rightarrow> string \<Rightarrow> string" where
  "display_endpoint parsed host = (case pu_port parsed of
       Some port \<Rightarrow> pu_scheme parsed @ ''://'' @ host @ '':'' @ dec port
     | None \<Rightarrow> pu_scheme parsed @ ''://'' @ host)"

text \<open>The local addresses of one endpoint's connections, in the order the two loops push them.\<close>

definition lanes :: "nat \<Rightarrow> FeedSourceSpec list \<Rightarrow> IpAddr option list" where
  "lanes unbound specs = replicate unbound None
     @ concat (map (\<lambda>spec. replicate (fss_connections spec) (Some (fss_local_ip spec))) specs)"

definition endpoint_sources :: "nat \<Rightarrow> nat \<Rightarrow> string \<Rightarrow> string \<Rightarrow> IpAddr option list \<Rightarrow> FeedSource list" where
  "endpoint_sources first endpoint url display ips = map (\<lambda>(connection, ip).
     \<lparr>src_ordinal = first + connection, src_endpoint = endpoint, src_connection = connection, src_url = url,
      src_display_endpoint = display, src_local_ip = ip\<rparr>) (enumerate 0 ips)"

fun expand_urls :: "(string \<Rightarrow> ParsedUrl option) \<Rightarrow> nat \<Rightarrow> FeedSourceSpec list \<Rightarrow> nat \<Rightarrow> string list \<Rightarrow> FeedSource list
    \<Rightarrow> FeedConfigError + FeedSource list" where
  "expand_urls parse_url unbound specs endpoint [] sources = Inr sources"
| "expand_urls parse_url unbound specs endpoint (raw_url # urls) sources =
     rbind (ok_or (InvalidUrl endpoint) (parse_url raw_url)) (\<lambda>parsed.
     case pu_host parsed of
       None \<Rightarrow> Inl (NotWebSocketUrl endpoint)
     | Some host \<Rightarrow>
         if pu_scheme parsed \<notin> {''ws'', ''wss''} then Inl (NotWebSocketUrl endpoint)
         else expand_urls parse_url unbound specs (Suc endpoint) urls
           (sources @ endpoint_sources (length sources) endpoint raw_url (display_endpoint parsed host) (lanes unbound specs)))"

definition expand_feed_sources :: "(string \<Rightarrow> ParsedUrl option) \<Rightarrow> string list \<Rightarrow> nat option \<Rightarrow> FeedSourceSpec list
    \<Rightarrow> FeedConfigError + FeedSource list" where
  "expand_feed_sources parse_url urls unbound_connections_per_endpoint source_specs =
     (if urls = [] \<and> \<not> (unbound_connections_per_endpoint = None \<and> source_specs = []) then Inl SourcesWithoutUrl
      else if urls = [] then Inr []
      else
        let unbound = (case unbound_connections_per_endpoint of Some n \<Rightarrow> n | None \<Rightarrow> of_bool (source_specs = [])) in
        rbind (count_bound source_specs [] 0) (\<lambda>bound_connections.
        rbind (checked_usize (unbound + bound_connections)) (\<lambda>per_endpoint.
        if per_endpoint = 0 then Inl NoConnections
        else rbind (checked_usize (length urls * per_endpoint)) (\<lambda>total.
        if total > MAX_FEED_SOURCES then Inl (TooManyConnections total)
        else expand_urls parse_url unbound source_specs 0 urls []))))"

section \<open>The race\<close>

record SequenceRace =
  race_next_resume :: u64
  race_recent :: "(u64, nat) btree"

datatype Observation = First | Duplicate "nat option" | Stale

definition SequenceRace_new :: "u64 \<Rightarrow> SequenceRace" where
  "SequenceRace_new next_resume = \<lparr>race_next_resume = next_resume, race_recent = []\<rparr>"

text \<open>The cursor moves over every sequence that has been seen, up to the largest \<^verbatim>\<open>u64\<close>.\<close>

function advance_cursor :: "(u64, nat) btree \<Rightarrow> u64 \<Rightarrow> u64" where
  "advance_cursor recent next_resume =
     (if bt_contains next_resume recent
      then (case checked_add64 next_resume 1 of None \<Rightarrow> next_resume | Some n \<Rightarrow> advance_cursor recent n)
      else next_resume)"
  by pat_completeness auto

termination advance_cursor
proof (relation "measure (\<lambda>(recent, n). 2 ^ 64 - unat n)", simp, goal_cases)
  case (1 recent next_resume n)
  then have "unat n = unat next_resume + 1" by (simp add: checked_add64_Some)
  then show ?case using unat_bound [of n] by simp
qed

function trim_recent :: "(u64, nat) btree \<Rightarrow> (u64, nat) btree" where
  "trim_recent recent = (if length recent > MAX_RECENT_SEQUENCES then trim_recent (bt_pop_first recent) else recent)"
  by pat_completeness auto

termination trim_recent
  by (relation "measure length") (auto simp: bt_pop_first_def)

declare advance_cursor.simps [simp del] trim_recent.simps [simp del]

definition observe :: "u64 \<Rightarrow> nat \<Rightarrow> SequenceRace \<Rightarrow> Observation \<times> SequenceRace" where
  "observe sequence ready_at race = (case bt_get sequence (race_recent race) of
       Some first \<Rightarrow> (Duplicate (Some first), race)
     | None \<Rightarrow>
         if sequence < race_next_resume race then (Stale, race)
         else
           let recent = bt_insert sequence ready_at (race_recent race);
               next_resume = advance_cursor recent (race_next_resume race)
           in (First, race\<lparr>race_next_resume := next_resume, race_recent := trim_recent recent\<rparr>))"

section \<open>The coordinator\<close>

record 'm FeedIngress =
  in_sequence :: u64
  in_message :: 'm
  in_ready_for_channel_at :: nat

text \<open>One entry of \<^term>\<open>sends\<close> per send to the engine: accepted, or refused because the engine's end is closed.
  The result is what was forwarded, the race and the published cursor.\<close>

fun coordinate :: "'m FeedIngress list \<Rightarrow> bool list \<Rightarrow> SequenceRace \<Rightarrow> u64 \<Rightarrow> 'm FeedIngress list \<times> SequenceRace \<times> u64" where
  "coordinate [] sends race resume_sequence = ([], race, resume_sequence)"
| "coordinate (item # items) sends race resume_sequence =
     (case observe (in_sequence item) (in_ready_for_channel_at item) race of
        (First, race) \<Rightarrow> (case sends of
            [] \<Rightarrow> ([], race, race_next_resume race)
          | False # sends \<Rightarrow> ([], race, race_next_resume race)
          | True # sends \<Rightarrow> let (out, rest) = coordinate items sends race (race_next_resume race) in (item # out, rest))
      | (Duplicate winner, race) \<Rightarrow> coordinate items sends race resume_sequence
      | (Stale, race) \<Rightarrow> coordinate items sends race resume_sequence)"

definition coordinator :: "u64 \<Rightarrow> 'm FeedIngress list \<Rightarrow> bool list \<Rightarrow> 'm FeedIngress list \<times> SequenceRace \<times> u64" where
  "coordinator resume_sequence items sends = coordinate items sends (SequenceRace_new resume_sequence) resume_sequence"

section \<open>One source\<close>

datatype IoErrorKind = InvalidInput | AddrNotAvailable | OtherIo nat

datatype WebSocketError = WsHttp nat | WsIo IoErrorKind | WsOther

definition is_rate_limited :: "WebSocketError \<Rightarrow> bool" where
  "is_rate_limited err = (case err of WsHttp status \<Rightarrow> status = 429 | _ \<Rightarrow> False)"

definition initial_connect_delay :: "nat \<Rightarrow> nat" where
  "initial_connect_delay ordinal = min ordinal 10 * 1000"

definition reconnect_delay :: "nat \<Rightarrow> nat \<Rightarrow> bool \<Rightarrow> nat" where
  "reconnect_delay failures ordinal rate_limited =
     (let exponent = min (failures - 1) 5;
          (initial, maximum) = (if rate_limited then (INITIAL_RATE_LIMIT_DELAY, MAX_RATE_LIMIT_DELAY)
             else (INITIAL_RECONNECT_DELAY, MAX_RECONNECT_DELAY));
          base = min (initial * 2 ^ exponent) maximum;
          jitter_ms = ((ordinal * 73) mod 2 ^ 64) mod 1000
      in min (base + jitter_ms) maximum)"

definition FEED_CLIENT_VERSION_HEADER :: string where "FEED_CLIENT_VERSION_HEADER = ''arbitrum-feed-client-version''"
definition REQUESTED_SEQUENCE_HEADER :: string where "REQUESTED_SEQUENCE_HEADER = ''arbitrum-requested-sequence-number''"
definition FEED_CLIENT_VERSION :: string where "FEED_CLIENT_VERSION = ''2''"

definition feed_request :: "(string \<Rightarrow> (string \<rightharpoonup> string) option) \<Rightarrow> string \<Rightarrow> u64 \<Rightarrow> (string \<rightharpoonup> string) option" where
  "feed_request into_client_request url requested_sequence =
     map_option (\<lambda>headers. headers(FEED_CLIENT_VERSION_HEADER \<mapsto> FEED_CLIENT_VERSION,
       REQUESTED_SEQUENCE_HEADER \<mapsto> dec (unat requested_sequence))) (into_client_request url)"

text \<open>Connecting a bound lane: every address of the wanted family in turn.\<close>

record 'st Remote =
  rm_is_ipv4 :: bool
  rm_socket :: "IoErrorKind + unit"
  rm_bind :: "IoErrorKind + unit"
  rm_connect :: "IoErrorKind + 'st"
  rm_nodelay :: "IoErrorKind + unit"

fun try_remotes :: "'st Remote list \<Rightarrow> IoErrorKind option \<Rightarrow> WebSocketError + 'st" where
  "try_remotes [] last_error = Inl (WsIo (case last_error of Some e \<Rightarrow> e | None \<Rightarrow> AddrNotAvailable))"
| "try_remotes (remote # remotes) last_error =
     rbind (map_err WsIo (rm_socket remote)) (\<lambda>_.
     rbind (map_err WsIo (rm_bind remote)) (\<lambda>_.
     case rm_connect remote of
       Inr connected \<Rightarrow> rbind (map_err WsIo (rm_nodelay remote)) (\<lambda>_. Inr connected)
     | Inl err \<Rightarrow> try_remotes remotes (Some err)))"

definition connect_source :: "(string \<Rightarrow> ParsedUrl option) \<Rightarrow> (ParsedUrl \<Rightarrow> nat option)
    \<Rightarrow> (string \<Rightarrow> nat \<Rightarrow> IoErrorKind + 'st Remote list) \<Rightarrow> (WebSocketError + 'ws) \<Rightarrow> ('st \<Rightarrow> WebSocketError + 'ws)
    \<Rightarrow> FeedSource \<Rightarrow> WebSocketError + 'ws" where
  "connect_source parse_url known_port lookup_host connect_async handshake source = (case src_local_ip source of
       None \<Rightarrow> connect_async
     | Some local_ip \<Rightarrow>
         rbind (ok_or (WsIo InvalidInput) (parse_url (src_url source))) (\<lambda>parsed.
         rbind (ok_or (WsIo InvalidInput) (pu_host parsed)) (\<lambda>host.
         rbind (ok_or (WsIo InvalidInput) (known_port parsed)) (\<lambda>port.
         rbind (map_err WsIo (lookup_host host port)) (\<lambda>remotes.
         rbind (try_remotes (filter (\<lambda>r. rm_is_ipv4 r = is_ipv4 local_ip) remotes) None) handshake)))))"

text \<open>A connected session: frames until the stream ends, closes or fails. \<^term>\<open>room\<close> counts the sends the
  coordinator's channel still accepts before it is closed; the flag says that it was found closed.\<close>

datatype Frame = TextFrame string | BinaryFrame bytes | CloseFrame | OtherFrame | FrameError

fun frame_text :: "(bytes \<Rightarrow> string option) \<Rightarrow> Frame \<Rightarrow> string option" where
  "frame_text from_utf8 (TextFrame text) = Some text"
| "frame_text from_utf8 (BinaryFrame bs) = from_utf8 bs"
| "frame_text from_utf8 _ = None"

definition frame_messages :: "(bytes \<Rightarrow> string option) \<Rightarrow> (string \<Rightarrow> 'm list option) \<Rightarrow> Frame \<Rightarrow> 'm list" where
  "frame_messages from_utf8 parse_root frame = (case frame_text from_utf8 frame of
       None \<Rightarrow> []
     | Some text \<Rightarrow> (case parse_root text of None \<Rightarrow> [] | Some messages \<Rightarrow> messages))"

fun session :: "(bytes \<Rightarrow> string option) \<Rightarrow> (string \<Rightarrow> 'm list option) \<Rightarrow> Frame list \<Rightarrow> nat \<Rightarrow> 'm list \<times> nat \<times> bool" where
  "session from_utf8 parse_root [] room = ([], room, False)"
| "session from_utf8 parse_root (frame # frames) room =
     (if frame = CloseFrame \<or> frame = FrameError then ([], room, False)
      else
        let messages = frame_messages from_utf8 parse_root frame in
        if room < length messages then (take room messages, 0, True)
        else let (pushed, rest) = session from_utf8 parse_root frames (room - length messages) in (messages @ pushed, rest))"

datatype 'm FollowEvent = Slept nat | Requested u64 | Pushed 'm

text \<open>One round of the loop: the cursor it reads, whether the request can be built, and what connecting gives.\<close>

record Attempt =
  at_cursor :: u64
  at_request_ok :: bool
  at_connection :: "WebSocketError + Frame list"

fun follow_loop :: "(bytes \<Rightarrow> string option) \<Rightarrow> (string \<Rightarrow> 'm list option) \<Rightarrow> nat \<Rightarrow> Attempt list \<Rightarrow> nat \<Rightarrow> nat
    \<Rightarrow> 'm FollowEvent list" where
  "follow_loop from_utf8 parse_root ordinal [] failures room = []"
| "follow_loop from_utf8 parse_root ordinal (attempt # attempts) failures room =
     (if \<not> at_request_ok attempt then []
      else
        let (pushed, room, closed, rate_limited) = (case at_connection attempt of
              Inl err \<Rightarrow> ([], room, False, is_rate_limited err)
            | Inr frames \<Rightarrow> (let (pushed, room, closed) = session from_utf8 parse_root frames room in (pushed, room, closed, False)));
            failures = (if pushed = [] then min (failures + 1) (2 ^ 32 - 1) else 0)
        in Requested (at_cursor attempt) # map Pushed pushed
           @ (if closed then []
              else Slept (reconnect_delay failures ordinal rate_limited) # follow_loop from_utf8 parse_root ordinal attempts failures room))"

definition follow :: "(bytes \<Rightarrow> string option) \<Rightarrow> (string \<Rightarrow> 'm list option) \<Rightarrow> nat \<Rightarrow> Attempt list \<Rightarrow> nat \<Rightarrow> 'm FollowEvent list" where
  "follow from_utf8 parse_root ordinal attempts room =
     Slept (initial_connect_delay ordinal) # follow_loop from_utf8 parse_root ordinal attempts 0 room"

section \<open>The cursor\<close>

lemma bt_contains_iff: "bt_contains k m \<longleftrightarrow> k \<in> fst ` set m"
  by (auto simp: bt_contains_def bt_get_def map_of_eq_None_iff)

lemma checked_succ: "checked_add64 n 1 = (if n = u64_max then None else Some (n + 1))"
proof (cases "n = u64_max")
  case False
  then have "n < u64_max" by (simp add: order_less_le)
  then have "unat (n + 1) = unat n + unat (1 :: u64)" by (simp add: unat_Suc_less)
  then have "checked_add64 n 1 = Some (n + 1)" by (simp only: checked_add64_Some)
  with False show ?thesis by simp
qed (simp add: checked_add64_def unat_u64_max)

text \<open>The cursor passes only sequences that were seen, and stops at the first one that was not, or at the end of
  the range.\<close>

lemma advance_cursor_spec:
  "n \<le> advance_cursor recent n \<and> {n..<advance_cursor recent n} \<subseteq> fst ` set recent
    \<and> (advance_cursor recent n \<in> fst ` set recent \<longrightarrow> advance_cursor recent n = u64_max)"
proof (induction recent n rule: advance_cursor.induct)
  case (1 recent n)
  show ?case
  proof (cases "bt_contains n recent \<and> n \<noteq> u64_max")
    case True
    then have step: "advance_cursor recent n = advance_cursor recent (n + 1)"
      by (simp add: advance_cursor.simps [of recent n] checked_succ)
    have IH: "n + 1 \<le> advance_cursor recent (n + 1)" "{n + 1..<advance_cursor recent (n + 1)} \<subseteq> fst ` set recent"
      "advance_cursor recent (n + 1) \<in> fst ` set recent \<longrightarrow> advance_cursor recent (n + 1) = u64_max"
      using 1 [of "n + 1"] True by (simp_all add: checked_succ)
    have "n < u64_max" using True by (simp add: order_less_le)
    then have less: "n < n + 1" by (simp add: word_less_nat_alt unat_Suc_less)
    have "{n..<advance_cursor recent (n + 1)} \<subseteq> insert n {n + 1..<advance_cursor recent (n + 1)}"
      using less_imp_Suc_le by (auto simp: order_le_less)
    with True IH less show ?thesis unfolding step by (auto simp: bt_contains_iff intro: order_trans [OF less_imp_le])
  next
    case False
    then have "advance_cursor recent n = n" by (auto simp: advance_cursor.simps [of recent n] checked_succ)
    with False show ?thesis by (auto simp: bt_contains_iff)
  qed
qed

section \<open>First wins\<close>

definition race_wf :: "SequenceRace \<Rightarrow> bool" where
  "race_wf race \<longleftrightarrow> bt_wf (race_recent race) \<and> length (race_recent race) \<le> MAX_RECENT_SEQUENCES"

lemma trim_recent_spec:
  "trim_recent m = drop (length m - MAX_RECENT_SEQUENCES) m"
proof (induction m rule: trim_recent.induct)
  case (1 m)
  show ?case
  proof (cases "length m > MAX_RECENT_SEQUENCES")
    case True
    with 1 have "trim_recent m = drop (length (tl m) - MAX_RECENT_SEQUENCES) (tl m)"
      by (simp add: trim_recent.simps [of m] bt_pop_first_def)
    also have "\<dots> = drop (Suc (length (tl m) - MAX_RECENT_SEQUENCES)) m" by (simp only: drop_Suc)
    also have "Suc (length (tl m) - MAX_RECENT_SEQUENCES) = length m - MAX_RECENT_SEQUENCES" using True by simp
    finally show ?thesis .
  qed (simp add: trim_recent.simps [of m])
qed

lemma bt_wf_drop: "bt_wf m \<Longrightarrow> bt_wf (drop n m)"
  by (simp add: bt_wf_def drop_map [symmetric] sorted_wrt_drop)

lemma observe_wf: "race_wf race \<Longrightarrow> observe sequence ready race = (ob, race') \<Longrightarrow> race_wf race'"
  by (auto simp: observe_def race_wf_def trim_recent_spec bt_wf_drop bt_wf_insert Let_def split: option.splits if_splits)

text \<open>The race against the set of sequences that have won so far: everything remembered has won, and so has
  everything between the start and the cursor.\<close>

definition race_inv :: "u64 \<Rightarrow> u64 set \<Rightarrow> SequenceRace \<Rightarrow> bool" where
  "race_inv start won race \<longleftrightarrow> race_wf race \<and> start \<le> race_next_resume race \<and> fst ` set (race_recent race) \<subseteq> won
     \<and> {start..<race_next_resume race} \<subseteq> won \<and> (\<forall>s \<in> won. start \<le> s)"

lemma race_inv_new: "race_inv start {} (SequenceRace_new start)"
  by (simp add: race_inv_def race_wf_def SequenceRace_new_def)

lemma observe_cases:
  assumes "observe sequence ready race = (ob, race')"
  obtains (dup) r where "ob = Duplicate (Some r)" "race' = race" "sequence \<in> fst ` set (race_recent race)"
  | (stale) "ob = Stale" "race' = race" "sequence < race_next_resume race"
  | (first) "ob = First" "race_next_resume race \<le> sequence" "sequence \<notin> fst ` set (race_recent race)"
      "race' = race\<lparr>race_next_resume := advance_cursor (bt_insert sequence ready (race_recent race)) (race_next_resume race),
         race_recent := trim_recent (bt_insert sequence ready (race_recent race))\<rparr>"
proof (cases "bt_get sequence (race_recent race)")
  case None
  then have "sequence \<notin> fst ` set (race_recent race)" by (simp add: bt_get_def map_of_eq_None_iff)
  with None assms stale first show thesis by (auto simp: observe_def Let_def not_less split: if_splits)
next
  case (Some r)
  then have "sequence \<in> fst ` set (race_recent race)" by (auto simp: bt_get_def dest: map_of_SomeD intro: rev_image_eqI)
  moreover have "ob = Duplicate (Some r)" "race' = race" using Some assms by (simp_all add: observe_def)
  ultimately show thesis using dup by blast
qed

lemma race_inv_observe:
  assumes "race_inv start won race" "observe sequence ready race = (ob, race')"
  shows "race_inv start (if ob = First then insert sequence won else won) race'
    \<and> (sequence \<notin> won \<longrightarrow> start \<le> sequence \<longrightarrow> ob = First)
    \<and> race_next_resume race \<le> race_next_resume race'"
  using assms(2)
proof (cases rule: observe_cases)
  case first
  let ?m = "bt_insert sequence ready (race_recent race)"
  have inv: "race_wf race'" "start \<le> race_next_resume race" "fst ` set (race_recent race) \<subseteq> won"
    "{start..<race_next_resume race} \<subseteq> won" "\<forall>s \<in> won. start \<le> s"
    using assms observe_wf unfolding race_inv_def by blast+
  note cur = advance_cursor_spec [of "race_next_resume race" ?m]
  have "fst ` set (trim_recent ?m) \<subseteq> fst ` set ?m" by (simp add: trim_recent_spec image_mono set_drop_subset)
  then have sub: "fst ` set (trim_recent ?m) \<subseteq> insert sequence won" using inv(3) by (auto simp: set_bt_insert_keys)
  have "{start..<advance_cursor ?m (race_next_resume race)}
      \<subseteq> {start..<race_next_resume race} \<union> {race_next_resume race..<advance_cursor ?m (race_next_resume race)}" by auto
  then have "{start..<advance_cursor ?m (race_next_resume race)} \<subseteq> insert sequence won"
    using inv(3,4) cur unfolding set_bt_insert_keys by blast
  moreover have "start \<le> advance_cursor ?m (race_next_resume race)" using inv(2) cur by (blast intro: order_trans)
  moreover have "start \<le> sequence" using inv(2) first(2) by (rule order_trans)
  ultimately show ?thesis using inv sub first cur by (simp add: race_inv_def)
next
  case stale
  then have "start \<le> sequence \<Longrightarrow> sequence \<in> won" using assms(1) by (auto simp: race_inv_def)
  with stale assms(1) show ?thesis by auto
next
  case dup
  with assms(1) show ?thesis by (auto simp: race_inv_def)
qed

text \<open>Sequences never more than the memory of the race ahead of its cursor are remembered until the cursor has
  passed them: what is forgotten is stale.\<close>

definition race_tight :: "u64 set \<Rightarrow> SequenceRace \<Rightarrow> bool" where
  "race_tight won race \<longleftrightarrow> (\<forall>s \<in> won. s < race_next_resume race \<or> s \<in> fst ` set (race_recent race))
     \<and> (\<forall>s \<in> fst ` set (race_recent race). unat s \<le> unat (race_next_resume race) + MAX_RECENT_SEQUENCES)"

lemma bt_take_less:
  assumes "bt_wf m" "k \<in> fst ` set (take j m)" "k' \<in> fst ` set (drop j m)"
  shows "k < k'"
  using assms sorted_wrt_append [of "(<)" "map fst (take j m)" "map fst (drop j m)"]
  by (auto simp: bt_wf_def simp flip: map_append)

lemma trim_forgets_stale:
  assumes "bt_wf m" "\<forall>s \<in> fst ` set m. unat s \<le> unat n + MAX_RECENT_SEQUENCES" "n \<in> fst ` set m \<longrightarrow> n = u64_max"
    and "s \<in> fst ` set m" "n \<le> s"
  shows "s \<in> fst ` set (trim_recent m)"
proof (rule ccontr)
  define j where "j = length m - MAX_RECENT_SEQUENCES"
  assume "s \<notin> fst ` set (trim_recent m)"
  then have no: "s \<notin> fst ` set (drop j m)" by (simp add: trim_recent_spec j_def)
  have "m = take j m @ drop j m" by simp
  with no assms(4) have s: "s \<in> fst ` set (take j m)" by (metis Un_iff image_Un set_append)
  then have j: "0 < j" by (cases j) simp_all
  have gt: "s < k" if "k \<in> fst ` set (drop j m)" for k by (rule bt_take_less [OF assms(1) s that])
  have dist: "distinct (map fst (drop j m))" using bt_wf_drop [OF assms(1)] by (simp add: bt_wf_def strict_sorted_iff)
  have len: "length (drop j m) = MAX_RECENT_SEQUENCES" using j by (simp add: j_def)
  have above: "unat n < unat k \<and> unat k \<le> unat n + MAX_RECENT_SEQUENCES" if "k \<in> insert s (fst ` set (drop j m))" for k
  proof -
    have k: "k \<in> fst ` set m" using that assms(4) by (auto dest: in_set_dropD)
    have "n \<noteq> k"
    proof
      assume "n = k"
      with k assms(3) have max: "n = u64_max" by simp
      then have "k \<le> s" for k using word_order.extremum [of k] assms(5) by (auto intro: order_trans)
      then have "fst ` set (drop j m) = {}" using gt by (meson equals0I leD)
      with len show False by (simp add: MAX_RECENT_SEQUENCES_def)
    qed
    moreover have "n \<le> k" using that assms(5) gt by (auto intro: order_trans less_imp_le)
    ultimately have "unat n < unat k" unfolding word_less_nat_alt [symmetric] by (rule le_neq_trans [rotated])
    then show ?thesis using k assms(2) by blast
  qed
  have "card (unat ` insert s (fst ` set (drop j m))) = Suc MAX_RECENT_SEQUENCES"
  proof -
    have "inj_on unat (insert s (fst ` set (drop j m)))" by (rule inj_onI) (simp add: word_unat_eq_iff)
    with len no distinct_card [OF dist] show ?thesis by (simp add: card_image)
  qed
  moreover have "unat ` insert s (fst ` set (drop j m)) \<subseteq> {unat n<..unat n + MAX_RECENT_SEQUENCES}"
    using above by (intro image_subsetI) (simp only: greaterThanAtMost_iff)
  then have "card (unat ` insert s (fst ` set (drop j m))) \<le> MAX_RECENT_SEQUENCES"
    using card_mono [of "{unat n<..unat n + MAX_RECENT_SEQUENCES}"] by simp
  ultimately show False by simp
qed

lemma race_tight_observe:
  assumes "race_inv start won race" "race_tight won race" "observe sequence ready race = (ob, race')"
    and "unat sequence \<le> unat (race_next_resume race) + MAX_RECENT_SEQUENCES"
  shows "race_tight (if ob = First then insert sequence won else won) race' \<and> (ob = First \<longrightarrow> sequence \<notin> won)"
  using assms(3)
proof (cases rule: observe_cases)
  case first
  let ?m = "bt_insert sequence ready (race_recent race)" and ?n = "race_next_resume race"
  let ?n' = "advance_cursor ?m ?n"
  have wf: "bt_wf ?m" using assms(1) by (simp add: race_inv_def race_wf_def bt_wf_insert)
  note cur = advance_cursor_spec [of ?n ?m]
  have keys: "fst ` set ?m = insert sequence (fst ` set (race_recent race))" by (rule set_bt_insert_keys)
  have le: "unat ?n \<le> unat ?n'" using cur by (simp add: word_le_nat_alt)
  have bound: "\<forall>s \<in> fst ` set ?m. unat s \<le> unat ?n' + MAX_RECENT_SEQUENCES"
    using assms(2,4) le unfolding keys race_tight_def by fastforce
  have "s < ?n' \<or> s \<in> fst ` set (trim_recent ?m)" if "s \<in> insert sequence won" for s
  proof (cases "s < ?n'")
    case False
    have "s \<in> fst ` set ?m"
      using that assms(2) False cur unfolding keys race_tight_def by (auto intro: order_less_le_trans)
    from trim_forgets_stale [OF wf bound _ this] cur False show ?thesis by (auto simp: not_less)
  qed simp
  moreover have "fst ` set (trim_recent ?m) \<subseteq> fst ` set ?m" by (simp add: trim_recent_spec image_mono set_drop_subset)
  then have "\<forall>s \<in> fst ` set (trim_recent ?m). unat s \<le> unat ?n' + MAX_RECENT_SEQUENCES" using bound by blast
  moreover have "sequence \<notin> won" using assms(2) first(2,3) by (auto simp: race_tight_def)
  ultimately show ?thesis using first by (simp add: race_tight_def)
qed (use assms in auto)

subsection \<open>What the coordinator forwards\<close>

text \<open>The reference: of every sequence at or after the start the first copy, in order of arrival.\<close>

fun first_copies :: "u64 \<Rightarrow> u64 set \<Rightarrow> 'm FeedIngress list \<Rightarrow> 'm FeedIngress list" where
  "first_copies start won [] = []"
| "first_copies start won (item # items) =
     (if start \<le> in_sequence item \<and> in_sequence item \<notin> won
      then item # first_copies start (insert (in_sequence item) won) items
      else first_copies start won items)"

text \<open>Items that arrive no further ahead of the cursor than the race remembers.\<close>

fun in_window :: "SequenceRace \<Rightarrow> 'm FeedIngress list \<Rightarrow> bool" where
  "in_window race [] \<longleftrightarrow> True"
| "in_window race (item # items) \<longleftrightarrow> unat (in_sequence item) \<le> unat (race_next_resume race) + MAX_RECENT_SEQUENCES
     \<and> in_window (snd (observe (in_sequence item) (in_ready_for_channel_at item) race)) items"

lemma coordinate_step:
  assumes "observe (in_sequence item) (in_ready_for_channel_at item) race = (ob, race')" "length items < length sends" "list_all (\<lambda>b. b) sends"
  shows "coordinate (item # items) sends race resume = (if ob = First
    then (let (out, rest) = coordinate items (tl sends) race' (race_next_resume race') in (item # out, rest))
    else coordinate items sends race' resume)"
  using assms by (cases ob; cases sends) auto

text \<open>Whatever becomes of the sends: the coordinator ends at the first one that fails, with at most that one message
  observed and not forwarded.\<close>

lemma coordinate_inv:
  assumes "race_inv start won race" "resume = race_next_resume race" "coordinate items sends race resume = (out, race', resume')"
  shows "\<exists>lost. length lost \<le> 1 \<and> (lost \<noteq> [] \<longrightarrow> \<not> (length out < length sends \<and> sends ! length out))
    \<and> resume' = race_next_resume race' \<and> race_inv start (won \<union> in_sequence ` set (out @ lost)) race' \<and> subseq (out @ lost) items
    \<and> (lost = [] \<longrightarrow> {s \<in> in_sequence ` set items. start \<le> s} \<subseteq> won \<union> in_sequence ` set out)"
  using assms
proof (induction items arbitrary: won race sends resume out)
  case (Cons item items)
  obtain ob race1 where ob: "observe (in_sequence item) (in_ready_for_channel_at item) race = (ob, race1)"
    by (cases "observe (in_sequence item) (in_ready_for_channel_at item) race")
  note inv = race_inv_observe [OF Cons.prems(1) ob]
  show ?case
  proof (cases "ob = First")
    case first: True
    show ?thesis
    proof (cases "\<exists>rest. sends = True # rest")
      case True
      then obtain rest where sends: "sends = True # rest" by blast
      with first Cons.prems(3) ob obtain out' where
        o: "coordinate items rest race1 (race_next_resume race1) = (out', race', resume')" "out = item # out'" by (auto split: prod.splits)
      have "race_inv start (insert (in_sequence item) won) race1" using inv first by simp
      from Cons.IH [OF this refl o(1)] show ?thesis by (elim exE, intro exI) (auto simp: o(2) sends)
    next
      case False
      then have "out = [] \<and> race' = race1 \<and> resume' = race_next_resume race1 \<and> \<not> (0 < length sends \<and> sends ! 0)"
        using first Cons.prems(3) ob by (auto split: list.splits bool.splits)
      then show ?thesis using inv first by (intro exI [of _ "[item]"]) auto
    qed
  next
    case False
    then have c: "coordinate items sends race1 resume = (out, race', resume')" using Cons.prems(3) ob by (cases ob) simp_all
    from ob have "race1 = race" by (cases rule: observe_cases) (use False in auto)
    then have "race_inv start won race1" "resume = race_next_resume race1" using Cons.prems(1,2) by simp_all
    from Cons.IH [OF this c] inv False show ?thesis by (elim exE, intro exI) auto
  qed
qed (rule exI [of _ "[]"], simp)

lemma coordinate_first_copies:
  assumes "race_inv start won race" "race_tight won race" "in_window race items"
    and "length items \<le> length sends" "list_all (\<lambda>b. b) sends"
  shows "fst (coordinate items sends race resume) = first_copies start won items"
  using assms
proof (induction items arbitrary: won race sends resume)
  case (Cons item items)
  obtain ob race1 where ob: "observe (in_sequence item) (in_ready_for_channel_at item) race = (ob, race1)"
    by (cases "observe (in_sequence item) (in_ready_for_channel_at item) race")
  note inv = race_inv_observe [OF Cons.prems(1) ob]
  note tight = race_tight_observe [OF Cons.prems(1,2) ob]
  note step = coordinate_step [OF ob, of items sends resume] Cons.prems(3-5)
  have first: "ob = First \<longleftrightarrow> start \<le> in_sequence item \<and> in_sequence item \<notin> won"
    using inv tight Cons.prems(3) by (auto simp: race_inv_def split: if_splits)
  show ?case
  proof (cases "ob = First")
    case True
    with Cons.IH [of "insert (in_sequence item) won" race1 "tl sends" "race_next_resume race1"] inv tight step first ob
    show ?thesis by (cases sends) (auto split: prod.splits)
  next
    case False
    with Cons.IH [of won race1 sends resume] inv tight step first ob show ?thesis by (auto split: prod.splits)
  qed
qed simp

lemma set_first_copies: "in_sequence ` set (first_copies start won items) \<inter> won = {}"
  by (induction items arbitrary: won) auto

lemma distinct_first_copies: "distinct (map in_sequence (first_copies start won items))"
proof (induction items arbitrary: won)
  case (Cons item items)
  have "in_sequence item \<notin> in_sequence ` set (first_copies start (insert (in_sequence item) won) items)"
    using set_first_copies [of start "insert (in_sequence item) won" items] by blast
  with Cons show ?case by simp
qed simp

section \<open>What a source delivers\<close>

definition session_messages :: "(bytes \<Rightarrow> string option) \<Rightarrow> (string \<Rightarrow> 'm list option) \<Rightarrow> Frame list \<Rightarrow> 'm list" where
  "session_messages from_utf8 parse_root frames =
     concat (map (frame_messages from_utf8 parse_root) (takeWhile (\<lambda>f. f \<noteq> CloseFrame \<and> f \<noteq> FrameError) frames))"

definition attempt_messages :: "(bytes \<Rightarrow> string option) \<Rightarrow> (string \<Rightarrow> 'm list option) \<Rightarrow> Attempt \<Rightarrow> 'm list" where
  "attempt_messages from_utf8 parse_root attempt = (case at_connection attempt of
     Inl _ \<Rightarrow> [] | Inr frames \<Rightarrow> session_messages from_utf8 parse_root frames)"

lemma session_eq:
  "session from_utf8 parse_root frames room = (let ms = session_messages from_utf8 parse_root frames
     in (take room ms, room - length ms, room < length ms))"
proof (induction frames arbitrary: room)
  case (Cons frame frames)
  show ?case
  proof (cases "frame = CloseFrame \<or> frame = FrameError")
    case True
    then show ?thesis by (auto simp: session_messages_def)
  next
    case False
    then have "session_messages from_utf8 parse_root (frame # frames)
        = frame_messages from_utf8 parse_root frame @ session_messages from_utf8 parse_root frames"
      by (simp add: session_messages_def)
    with False Cons.IH show ?thesis by (auto simp: Let_def not_less)
  qed
qed (simp add: session_messages_def)

lemma reconnect_delay_bounds:
  "(if rate_limited then INITIAL_RATE_LIMIT_DELAY else INITIAL_RECONNECT_DELAY) \<le> reconnect_delay failures ordinal rate_limited"
  "reconnect_delay failures ordinal rate_limited \<le> (if rate_limited then MAX_RATE_LIMIT_DELAY else MAX_RECONNECT_DELAY)"
proof -
  have "(1 :: nat) \<le> 2 ^ e" for e by simp
  then have "i \<le> i * 2 ^ e" for i e :: nat by simp
  then show "(if rate_limited then INITIAL_RATE_LIMIT_DELAY else INITIAL_RECONNECT_DELAY) \<le> reconnect_delay failures ordinal rate_limited"
    by (auto simp: reconnect_delay_def Let_def INITIAL_RATE_LIMIT_DELAY_def INITIAL_RECONNECT_DELAY_def
        MAX_RATE_LIMIT_DELAY_def MAX_RECONNECT_DELAY_def intro: trans_le_add1)
qed (auto simp: reconnect_delay_def Let_def)

fun pushed_of :: "'m FollowEvent list \<Rightarrow> 'm list" where
  "pushed_of [] = []"
| "pushed_of (Pushed m # es) = m # pushed_of es"
| "pushed_of (_ # es) = pushed_of es"

lemma pushed_of_append [simp]: "pushed_of (es @ fs) = pushed_of es @ pushed_of fs"
  by (induction es rule: pushed_of.induct) simp_all

lemma pushed_of_map [simp]: "pushed_of (map Pushed ms) = ms"
  by (induction ms) simp_all

lemma follow_loop_pushed:
  "pushed_of (follow_loop from_utf8 parse_root ordinal attempts failures room)
     = take room (concat (map (attempt_messages from_utf8 parse_root) (takeWhile at_request_ok attempts)))"
proof (induction attempts arbitrary: failures room)
  case (Cons attempt attempts)
  show ?case
  proof (cases "at_connection attempt")
    case (Inl err)
    then show ?thesis using Cons by (simp add: Let_def attempt_messages_def)
  next
    case (Inr frames)
    let ?ms = "session_messages from_utf8 parse_root frames"
    show ?thesis using Cons Inr by (cases "room < length ?ms") (simp_all add: Let_def attempt_messages_def session_eq)
  qed
qed simp

lemma follow_loop_slept:
  "Slept d \<in> set (follow_loop from_utf8 parse_root ordinal attempts failures room) \<Longrightarrow>
     INITIAL_RECONNECT_DELAY \<le> d \<and> d \<le> MAX_RATE_LIMIT_DELAY"
proof (induction attempts arbitrary: failures room)
  case (Cons attempt attempts)
  have "INITIAL_RECONNECT_DELAY \<le> reconnect_delay n ordinal b \<and> reconnect_delay n ordinal b \<le> MAX_RATE_LIMIT_DELAY" for n b
    using reconnect_delay_bounds [where rate_limited = b and failures = n and ordinal = ordinal]
    by (auto simp: INITIAL_RATE_LIMIT_DELAY_def INITIAL_RECONNECT_DELAY_def MAX_RATE_LIMIT_DELAY_def MAX_RECONNECT_DELAY_def split: if_splits)
  with Cons show ?case by (auto simp: Let_def split: sum.splits prod.splits if_splits)
qed simp

section \<open>The expansion of sources\<close>

lemma length_endpoint_sources [simp]: "length (endpoint_sources n e u d ips) = length ips"
  by (simp add: endpoint_sources_def)

lemma endpoint_sources_fields:
  "map src_ordinal (endpoint_sources n e u d ips) = [n..<n + length ips]"
  "map src_connection (endpoint_sources n e u d ips) = [0..<length ips]"
  "map src_local_ip (endpoint_sources n e u d ips) = ips"
  "\<forall>s \<in> set (endpoint_sources n e u d ips). src_endpoint s = e \<and> src_url s = u"
  by (auto simp: endpoint_sources_def comp_def case_prod_beta enumerate_eq_zip intro!: nth_equalityI)

lemma count_bound_sum:
  "count_bound specs ips b = Inr n \<Longrightarrow> n = b + sum_list (map fss_connections specs)
     \<and> distinct (map fss_local_ip specs) \<and> set (map fss_local_ip specs) \<inter> set ips = {}"
proof (induction specs arbitrary: ips b)
  case (Cons spec specs)
  then have "fss_local_ip spec \<notin> set ips" "count_bound specs (fss_local_ip spec # ips) (b + fss_connections spec) = Inr n"
    by (auto simp: result_simps checked_usize_def split: if_splits)
  with Cons.IH [OF this(2)] show ?case by auto
qed simp

lemma length_lanes: "length (lanes unbound specs) = unbound + sum_list (map fss_connections specs)"
  by (simp add: lanes_def length_concat comp_def)

lemma expand_urls_grid:
  assumes "expand_urls parse_url unbound specs e urls sources = Inr out"
  shows "\<exists>ds. out = sources @ concat (map (\<lambda>k. endpoint_sources (length sources + k * length (lanes unbound specs)) (e + k)
    (urls ! k) (ds ! k) (lanes unbound specs)) [0..<length urls])"
  using assms
proof (induction urls arbitrary: e sources)
  case (Cons url urls)
  let ?L = "lanes unbound specs"
  from Cons.prems obtain d where
    "expand_urls parse_url unbound specs (Suc e) urls (sources @ endpoint_sources (length sources) e url d ?L) = Inr out"
    by (auto simp: result_simps split: option.splits if_splits)
  from Cons.IH [OF this] obtain ds where
    "out = (sources @ endpoint_sources (length sources) e url d ?L) @ concat (map (\<lambda>k. endpoint_sources
       (length sources + length ?L + k * length ?L) (Suc e + k) (urls ! k) (ds ! k) ?L) [0..<length urls])"
    by auto
  then have "out = sources @ concat (map (\<lambda>k. endpoint_sources (length sources + k * length ?L) (e + k)
      ((url # urls) ! k) ((d # ds) ! k) ?L) (0 # map Suc [0..<length urls]))"
    by (simp add: comp_def add.assoc)
  moreover have "0 # map Suc [0..<length urls] = [0..<length (url # urls)]"
    by (simp add: map_Suc_upt upt_conv_Cons del: upt_Suc)
  ultimately show ?case by (metis (no_types))
qed simp

lemma filter_concat_index:
  assumes "\<And>j s. j < n \<Longrightarrow> s \<in> set (f j) \<Longrightarrow> g s = j"
  shows "filter (\<lambda>s. g s = k) (concat (map f [0..<n])) = (if k < n then f k else [])"
  using assms
proof (induction n)
  case (Suc n)
  then have "filter (\<lambda>s. g s = k) (f n) = (if k = n then f n else [])" by (auto simp: filter_empty_conv)
  with Suc show ?case by auto
qed simp

lemma concat_upt_blocks: "concat (map (\<lambda>k. [k * l..<k * l + l]) [0..<n]) = [0..<n * l]"
  by (induction n) (simp_all add: upt_append add.commute)

lemma expand_feed_sources_grid:
  assumes "expand_feed_sources parse_url urls unbound specs = Inr sources" "urls \<noteq> []"
  obtains ds n where "n = (case unbound of Some n \<Rightarrow> n | None \<Rightarrow> of_bool (specs = []))"
    "sources = concat (map (\<lambda>k. endpoint_sources (k * length (lanes n specs)) k (urls ! k) (ds ! k) (lanes n specs)) [0..<length urls])"
    "0 < length (lanes n specs)" "length urls * length (lanes n specs) \<le> MAX_FEED_SOURCES" "distinct (map fss_local_ip specs)"
proof -
  define n where "n = (case unbound of Some n \<Rightarrow> n | None \<Rightarrow> of_bool (specs = []))"
  from assms obtain b where b: "count_bound specs [] 0 = Inr b" "n + b \<noteq> 0" "length urls * (n + b) \<le> MAX_FEED_SOURCES"
    "expand_urls parse_url n specs 0 urls [] = Inr sources"
    unfolding expand_feed_sources_def n_def [symmetric]
    by (auto simp: result_simps checked_usize_def Let_def not_less split: if_splits)
  from expand_urls_grid [OF b(4)] obtain ds where
    "sources = concat (map (\<lambda>k. endpoint_sources (k * length (lanes n specs)) k (urls ! k) (ds ! k) (lanes n specs)) [0..<length urls])"
    by auto
  with b count_bound_sum [OF b(1)] show thesis by (intro that [of n ds]) (auto simp: n_def [symmetric] length_lanes)
qed

section \<open>Properties\<close>

text \<open>C28: whatever arrives from the racing connections, in whatever order and however far apart, the coordinator
  forwards a subsequence of it and remembers a bounded number of sequences. While its sends succeed it forwards at least
  one copy of every sequence at or after its start, and the cursor from which connections ask the relay to resume never
  passes a sequence that was not forwarded. It publishes the cursor before it sends: when a send fails, because the
  engine's channel is closed, it ends, and the message of that send is the only one the cursor may have passed without its
  being forwarded.\<close>

theorem feed_cursor_safe:
  assumes "coordinator start items sends = (out, race, cursor)"
  shows "\<exists>lost. length lost \<le> 1 \<and> (lost \<noteq> [] \<longrightarrow> \<not> (length out < length sends \<and> sends ! length out))
    \<and> subseq (out @ lost) items \<and> start \<le> cursor \<and> {start..<cursor} \<subseteq> in_sequence ` set (out @ lost)
    \<and> (lost = [] \<longrightarrow> {s \<in> in_sequence ` set items. start \<le> s} \<subseteq> in_sequence ` set out)
    \<and> length (race_recent race) \<le> MAX_RECENT_SEQUENCES"
proof -
  have c: "coordinate items sends (SequenceRace_new start) start = (out, race, cursor)" using assms by (simp add: coordinator_def)
  have "start = race_next_resume (SequenceRace_new start)" by (simp add: SequenceRace_new_def)
  from coordinate_inv [OF race_inv_new this c] obtain lost where
    "length lost \<le> 1" "lost \<noteq> [] \<longrightarrow> \<not> (length out < length sends \<and> sends ! length out)" "cursor = race_next_resume race"
    "race_inv start ({} \<union> in_sequence ` set (out @ lost)) race" "subseq (out @ lost) items"
    "lost = [] \<longrightarrow> {s \<in> in_sequence ` set items. start \<le> s} \<subseteq> {} \<union> in_sequence ` set out" by blast
  then show ?thesis by (intro exI [of _ lost]) (simp add: race_inv_def race_wf_def)
qed

definition wit_items :: "nat FeedIngress list" where
  "wit_items = [\<lparr>in_sequence = 7, in_message = 1, in_ready_for_channel_at = 10\<rparr>, \<lparr>in_sequence = 9, in_message = 2, in_ready_for_channel_at = 11\<rparr>,
     \<lparr>in_sequence = 7, in_message = 3, in_ready_for_channel_at = 12\<rparr>, \<lparr>in_sequence = 8, in_message = 4, in_ready_for_channel_at = 13\<rparr>,
     \<lparr>in_sequence = 6, in_message = 5, in_ready_for_channel_at = 14\<rparr>]"

lemmas race_eval = coordinator_def observe_def SequenceRace_new_def bt_get_def bt_contains_def advance_cursor.simps
  trim_recent.simps MAX_RECENT_SEQUENCES_def checked_succ

lemma wit_coordinator:
  "coordinator 7 wit_items [True, True, True, True, True] = (map (\<lambda>i. wit_items ! i) [0, 1, 3],
     \<lparr>race_next_resume = 10, race_recent = [(7, 10), (8, 13), (9, 11)]\<rparr>, 10)"
  by (simp add: wit_items_def race_eval)

text \<open>The channel is closed when the first message is sent: the cursor is past it.\<close>

lemma wit_coordinator_closed:
  "coordinator 7 wit_items [False] = ([], \<lparr>race_next_resume = 8, race_recent = [(7, 10)]\<rparr>, 8)"
  by (simp add: wit_items_def race_eval)

theorem feed_cursor_safe_witness:
  "{7..<10} \<subseteq> in_sequence ` set (map (\<lambda>i. wit_items ! i) [0, 1, 3])
    \<and> snd (snd (coordinator 7 wit_items [False])) = 8 \<and> (\<exists>lost. length lost = 1 \<and> subseq lost wit_items \<and> {7..<8} \<subseteq> in_sequence ` set lost)"
proof -
  let ?out = "map (\<lambda>i. wit_items ! i) [0, 1, 3]"
  from feed_cursor_safe [OF wit_coordinator] obtain lost where
    l: "length lost \<le> 1" "lost \<noteq> [] \<longrightarrow> \<not> (length ?out < 5 \<and> [True, True, True, True, True] ! length ?out)"
    "{7..<10} \<subseteq> in_sequence ` set (?out @ lost)" by auto
  then have "lost = []" by (simp add: numeral_3_eq_3)
  moreover from feed_cursor_safe [OF wit_coordinator_closed] obtain lost' where
    l': "length lost' \<le> 1" "subseq lost' wit_items" "{7..<8} \<subseteq> in_sequence ` set lost'" by auto
  have "(7 :: u64) \<in> {7..<8}" by simp
  with l'(3) have "lost' \<noteq> []" by auto
  with l'(1) have "length lost' = 1" by (cases lost') auto
  ultimately show ?thesis using l(3) l' by (auto simp: wit_coordinator_closed)
qed

text \<open>As long as nothing arrives further ahead of the cursor than the race remembers, the coordinator forwards
  exactly the first copy of every sequence at or after its start, in order of arrival, no sequence twice.\<close>

theorem feed_first_wins:
  assumes "in_window (SequenceRace_new start) items" "length items \<le> length sends" "list_all (\<lambda>b. b) sends"
  shows "fst (coordinator start items sends) = first_copies start {} items
    \<and> distinct (map in_sequence (fst (coordinator start items sends)))"
proof -
  have "race_tight {} (SequenceRace_new start)" by (simp add: race_tight_def SequenceRace_new_def)
  from coordinate_first_copies [OF race_inv_new this assms] show ?thesis
    by (simp add: coordinator_def distinct_first_copies)
qed

theorem feed_first_wins_witness:
  "map in_message (fst (coordinator 7 wit_items [True, True, True, True, True])) = [1, 2, 4]"
proof -
  have "in_window (SequenceRace_new 7) wit_items" by (simp add: wit_items_def race_eval)
  from feed_first_wins [OF this, of "[True, True, True, True, True]"] show ?thesis by (simp add: wit_items_def)
qed

text \<open>a source pushes exactly the messages of the text and binary frames its connections carried, in order, up
  to the closing of each connection and of the coordinator's channel, and waits between two connections at least
  a quarter of a second and at most the rate-limit maximum.\<close>

theorem follow_delivers:
  "pushed_of (follow from_utf8 parse_root ordinal attempts room)
     = take room (concat (map (attempt_messages from_utf8 parse_root) (takeWhile at_request_ok attempts)))
   \<and> (\<forall>d. Slept d \<in> set (tl (follow from_utf8 parse_root ordinal attempts room))
        \<longrightarrow> INITIAL_RECONNECT_DELAY \<le> d \<and> d \<le> MAX_RATE_LIMIT_DELAY)"
  by (auto simp: follow_def follow_loop_pushed dest: follow_loop_slept)

theorem follow_delivers_witness:
  "let attempts = [\<lparr>at_cursor = 5, at_request_ok = True, at_connection = Inl (WsHttp 429)\<rparr>,
        \<lparr>at_cursor = 5, at_request_ok = True, at_connection = Inr [TextFrame ''x'', OtherFrame, TextFrame ''y'', CloseFrame, TextFrame ''z'']\<rparr>]
   in pushed_of (follow (\<lambda>_. None) (\<lambda>t. Some [t, t]) 3 attempts 10) = [''x'', ''x'', ''y'', ''y'']
      \<and> follow (\<lambda>_. None) (\<lambda>t. Some [t, t]) 3 attempts 10 ! 2 = Slept 30219"
  using follow_delivers [of "\<lambda>_. None" "\<lambda>t. Some [t, t]" 3 "[\<lparr>at_cursor = 5, at_request_ok = True, at_connection = Inl (WsHttp 429)\<rparr>,
        \<lparr>at_cursor = 5, at_request_ok = True, at_connection = Inr [TextFrame ''x'', OtherFrame, TextFrame ''y'', CloseFrame, TextFrame ''z'']\<rparr>]" 10]
  by (simp add: attempt_messages_def session_messages_def frame_messages_def follow_def reconnect_delay_def is_rate_limited_def
      INITIAL_RATE_LIMIT_DELAY_def MAX_RATE_LIMIT_DELAY_def)

text \<open>a configuration that is accepted expands, for every endpoint, to one connection per unbound slot and per
  declared use of a local address, numbered from zero within the endpoint and by position over all endpoints, at
  least one per endpoint and at most 64 in all, with every local address declared once.\<close>

theorem expand_feed_sources_sound:
  assumes "expand_feed_sources parse_url urls unbound specs = Inr sources" "urls \<noteq> []" "k < length urls"
  defines "n \<equiv> (case unbound of Some n \<Rightarrow> n | None \<Rightarrow> of_bool (specs = []))"
  defines "own \<equiv> filter (\<lambda>s. src_endpoint s = k) sources"
  shows "map src_local_ip own = lanes n specs \<and> map src_connection own = [0..<length (lanes n specs)]
    \<and> (\<forall>s \<in> set own. src_url s = urls ! k) \<and> own \<noteq> []
    \<and> map src_ordinal sources = [0..<length sources] \<and> length sources \<le> MAX_FEED_SOURCES
    \<and> distinct (map fss_local_ip specs)"
proof -
  from assms(1,2) obtain ds m where m: "m = (case unbound of Some n \<Rightarrow> n | None \<Rightarrow> of_bool (specs = []))"
    and src': "sources = concat (map (\<lambda>k. endpoint_sources (k * length (lanes m specs)) k (urls ! k) (ds ! k) (lanes m specs)) [0..<length urls])"
    and len': "0 < length (lanes m specs)" "length urls * length (lanes m specs) \<le> MAX_FEED_SOURCES" "distinct (map fss_local_ip specs)"
    by (rule expand_feed_sources_grid)
  have "m = n" by (simp only: m n_def)
  note len = len' [unfolded this] and src = src' [unfolded this]
  let ?f = "\<lambda>k. endpoint_sources (k * length (lanes n specs)) k (urls ! k) (ds ! k) (lanes n specs)"
  have own: "own = ?f k"
    unfolding own_def src using assms(3) endpoint_sources_fields(4)
    by (subst filter_concat_index [where f = ?f]) auto
  have total: "length sources = length urls * length (lanes n specs)"
    unfolding src by (simp add: length_concat comp_def sum_list_triv)
  have ord: "map src_ordinal sources = [0..<length sources]"
    unfolding total unfolding src by (simp add: map_concat comp_def endpoint_sources_fields concat_upt_blocks)
  have "length own = length (lanes n specs)" by (simp add: own)
  with len(1) have "own \<noteq> []" by auto
  with own ord total len(2,3) endpoint_sources_fields show ?thesis by simp
qed

theorem expand_feed_sources_sound_witness:
  "\<exists>sources. expand_feed_sources (\<lambda>_. Some \<lparr>pu_scheme = ''wss'', pu_host = Some ''relay'', pu_port = None\<rparr>) [''a'', ''b''] (Some 1)
       [\<lparr>fss_local_ip = V4 5, fss_connections = 2\<rparr>] = Inr sources
     \<and> map src_local_ip (filter (\<lambda>s. src_endpoint s = 1) sources) = [None, Some (V4 5), Some (V4 5)]
     \<and> map src_ordinal sources = [0..<length sources]"
proof -
  let ?specs = "[\<lparr>fss_local_ip = V4 5, fss_connections = 2\<rparr>]"
  obtain sources where s: "expand_feed_sources (\<lambda>_. Some \<lparr>pu_scheme = ''wss'', pu_host = Some ''relay'', pu_port = None\<rparr>) [''a'', ''b''] (Some 1)
      ?specs = Inr sources"
    by (simp add: expand_feed_sources_def checked_usize_def MAX_FEED_SOURCES_def)
  have "lanes 1 ?specs = [None, Some (V4 5), Some (V4 5)]" by (simp add: lanes_def numeral_2_eq_2)
  with expand_feed_sources_sound [OF s, of 1] s show ?thesis by auto
qed

end
