(* ===== verification/Trusted_L2.thy ===== *)
theory Trusted_L2
  imports Disk
begin

text \<open>Divergence protection against a trusted L2 endpoint, \<^verbatim>\<open>crates/arb-reth-node/src/trusted_l2.rs\<close>, and the
  monitor task of \<^verbatim>\<open>crates/arb-reth-node/src/commands/node.rs\<close> that drives it: quantities and headers as the
  endpoint reports them, the choice of the next height to compare, the comparison, and the incident marker that is
  published without replacing an earlier one. The endpoint, the local block provider, the clock and JSON are
  parameters; files are those of the disk model.\<close>

section \<open>Headers and incidents\<close>

definition SCHEMA_VERSION :: nat where "SCHEMA_VERSION = 1"
definition INCIDENT_DIR :: string where "INCIDENT_DIR = ''arb-trusted-l2''"
definition ACTIVE_INCIDENT :: string where "ACTIVE_INCIDENT = ''active.json''"

record HeaderObservation =
  hd_number :: u64
  hd_hash :: b256
  hd_state_root :: b256

record Incident =
  inc_schema_version :: nat
  inc_effective_chain_id :: u64
  inc_l2_block_number :: u64
  inc_local_hash :: b256
  inc_canonical_hash :: b256
  inc_local_state_root :: b256
  inc_canonical_state_root :: b256
  inc_detected_at_unix_secs :: u64

datatype TrustedError =
    ReadIncident IoError
  | InvalidIncident
  | UnsupportedSchema nat
  | NotHexadecimal
  | BadDigits
  | WrongHeight
  | MalformedHash
  | MalformedStateRoot
  | InvalidRpcUrl
  | ChainIdRequestFailed
  | MalformedChainId
  | ChainIdMismatch u64 u64
  | RpcUnavailable
  | UnavailableBlock
  | DifferentHeights
  | HeightOverflow
  | ActiveIncident path
  | NoParentDir
  | ClockBeforeEpoch
  | Io IoError

text \<open>The file codec: serde's writer and its strict reader.\<close>

record incident_json =
  ij_to_vec :: "Incident \<Rightarrow> bytes"
  ij_from_slice :: "bytes \<Rightarrow> Incident option"

definition active_incident_path :: "path \<Rightarrow> path" where
  "active_incident_path data_dir = path_join (path_join data_dir INCIDENT_DIR) ACTIVE_INCIDENT"

definition load_active_incident :: "incident_json \<Rightarrow> path \<Rightarrow> disk \<Rightarrow> TrustedError + Incident" where
  "load_active_incident js data_dir dk =
     rbind (map_err ReadIncident (snd (read_file (active_incident_path data_dir) dk))) (\<lambda>bs.
     rbind (ok_or InvalidIncident (ij_from_slice js bs)) (\<lambda>incident.
     if inc_schema_version incident \<noteq> SCHEMA_VERSION then Inl (UnsupportedSchema (inc_schema_version incident))
     else Inr incident))"

section \<open>What the endpoint reports\<close>

definition hex_digit :: "char \<Rightarrow> nat option" where
  "hex_digit c = (let n = of_char c :: nat in
     if 48 \<le> n \<and> n \<le> 57 then Some (n - 48)
     else if 97 \<le> n \<and> n \<le> 102 then Some (n - 87)
     else if 65 \<le> n \<and> n \<le> 70 then Some (n - 55)
     else None)"

fun hex_digits :: "string \<Rightarrow> nat \<Rightarrow> nat option" where
  "hex_digits [] n = Some n"
| "hex_digits (c # cs) n = (case hex_digit c of
     None \<Rightarrow> None
   | Some d \<Rightarrow> if n * 16 + d < 2 ^ 64 then hex_digits cs (n * 16 + d) else None)"

text \<open>\<^verbatim>\<open>u64::from_str_radix(_, 16)\<close> after the prefix: an optional plus sign, at least one digit, no overflow.\<close>

definition parse_quantity :: "string \<Rightarrow> TrustedError + u64" where
  "parse_quantity v = (if take 2 v \<noteq> ''0x'' then Inl NotHexadecimal
     else let ds = (case drop 2 v of [] \<Rightarrow> [] | c # cs \<Rightarrow> if c = CHR ''+'' then cs else c # cs)
       in if ds = [] then Inl BadDigits else ok_or BadDigits (map_option word_of_nat (hex_digits ds 0)))"

record RemoteHeader =
  rh_number :: string
  rh_hash :: string
  rh_state_root :: string

definition into_observation :: "(string \<Rightarrow> b256 option) \<Rightarrow> RemoteHeader \<Rightarrow> u64 \<Rightarrow> TrustedError + HeaderObservation" where
  "into_observation parse_b256 header expected_number =
     rbind (parse_quantity (rh_number header)) (\<lambda>number.
     if number \<noteq> expected_number then Inl WrongHeight
     else rbind (ok_or MalformedHash (parse_b256 (rh_hash header))) (\<lambda>hash.
     rbind (ok_or MalformedStateRoot (parse_b256 (rh_state_root header))) (\<lambda>state_root.
     Inr \<lparr>hd_number = number, hd_hash = hash, hd_state_root = state_root\<rparr>)))"

definition validate_chain_id :: "u64 \<Rightarrow> u64 \<Rightarrow> TrustedError + unit" where
  "validate_chain_id expected actual = (if expected \<noteq> actual then Inl (ChainIdMismatch actual expected) else Inr ())"

definition canonical_header :: "(string \<Rightarrow> b256 option) \<Rightarrow> (u64 \<Rightarrow> RemoteHeader option option) \<Rightarrow> u64 \<Rightarrow> TrustedError + HeaderObservation option" where
  "canonical_header parse_b256 get_block number =
     rbind (ok_or RpcUnavailable (get_block number)) (\<lambda>response. case response of
       None \<Rightarrow> Inr None
     | Some header \<Rightarrow> map_err (\<lambda>_. UnavailableBlock) (rbind (into_observation parse_b256 header number) (\<lambda>h. Inr (Some h))))"

subsection \<open>The authority of a recovery\<close>

datatype RecoveryAuthorityError = Unavailable string | Malformed string | Mismatched u64 u64

datatype RpcFailure = ParseFailure | OtherFailure

definition CanonicalL2Client_connect :: "bool \<Rightarrow> (RpcFailure + string) \<Rightarrow> u64 \<Rightarrow> RecoveryAuthorityError + unit" where
  "CanonicalL2Client_connect url_ok chain_id_response expected_chain_id =
     (if \<not> url_ok then Inl (Malformed ''invalid --canonical-l2-rpc URL'')
      else rbind (map_err (\<lambda>_. Unavailable ''trusted L2 RPC chain-id request failed'') chain_id_response) (\<lambda>chain_id.
      rbind (map_err (\<lambda>_. Malformed ''trusted L2 RPC returned a malformed chain id'') (parse_quantity chain_id)) (\<lambda>actual.
      if expected_chain_id \<noteq> actual then Inl (Mismatched actual expected_chain_id) else Inr ())))"

definition CanonicalL2Client_header :: "(string \<Rightarrow> b256 option) \<Rightarrow> (u64 \<Rightarrow> RpcFailure + RemoteHeader option) \<Rightarrow> u64
    \<Rightarrow> RecoveryAuthorityError + HeaderObservation" where
  "CanonicalL2Client_header parse_b256 request number =
     rbind (map_err (\<lambda>e. case e of ParseFailure \<Rightarrow> Malformed ''trusted L2 RPC returned a malformed block''
              | OtherFailure \<Rightarrow> Unavailable ''trusted L2 RPC unavailable'') (request number)) (\<lambda>response.
     rbind (ok_or (Unavailable ''trusted L2 RPC has no requested block'') response) (\<lambda>header.
     map_err (\<lambda>_. Malformed ''trusted L2 RPC returned a malformed block'') (into_observation parse_b256 header number)))"

section \<open>The next height to compare\<close>

definition first_unchecked_height :: "HeaderObservation option \<Rightarrow> HeaderObservation \<Rightarrow> TrustedError + u64 option" where
  "first_unchecked_height last_checked tip = (case last_checked of
       None \<Rightarrow> Inr (Some (hd_number tip))
     | Some prev \<Rightarrow>
         if hd_number tip < hd_number prev \<or> hd_number tip = hd_number prev \<and> tip \<noteq> prev then Inr (Some (hd_number tip))
         else if hd_number tip = hd_number prev then Inr None
         else rbind (ok_or HeightOverflow (checked_add64 (hd_number prev) 1)) (\<lambda>n. Inr (Some n)))"

section \<open>The incident marker\<close>

definition exists_path :: "path \<Rightarrow> disk \<Rightarrow> bool" where
  "exists_path p dk \<longleftrightarrow> dk_names dk p \<noteq> None"

definition refuse_active_incident :: "path \<Rightarrow> disk \<Rightarrow> TrustedError + unit" where
  "refuse_active_incident p dk = (if exists_path p dk then Inl (ActiveIncident p) else Inr ())"

definition refuse_ordinary_startup :: "path \<Rightarrow> disk \<Rightarrow> TrustedError + unit" where
  "refuse_ordinary_startup data_dir dk = refuse_active_incident (active_incident_path data_dir) dk"

definition incident_tmp :: "path \<Rightarrow> string \<Rightarrow> string \<Rightarrow> path" where
  "incident_tmp directory pid unique_suffix = path_join directory (''.active-'' @ pid @ ''-'' @ unique_suffix @ ''.tmp'')"

text \<open>The closure of \<^verbatim>\<open>persist_incident\<close>: write and sync a temporary file, then link it under the marker's name,
  which fails when the name exists.\<close>

definition publish :: "bytes \<Rightarrow> path \<Rightarrow> path \<Rightarrow> path \<Rightarrow> bool io" where
  "publish json tmp p directory =
     io_bind (create_new tmp) (\<lambda>file.
     io_bind (write_all file json) (\<lambda>_.
     io_bind (write_all file [10]) (\<lambda>_.
     io_bind (sync_all file) (\<lambda>_ dk.
     case hard_link tmp p dk of
       (dk, Inr _) \<Rightarrow> io_bind (sync_dir directory) (\<lambda>_. io_return True) dk
     | (dk, Inl e) \<Rightarrow> if e = AlreadyExists then (dk, Inr False) else (dk, Inl e)))))"

definition persist_incident :: "incident_json \<Rightarrow> string \<Rightarrow> string \<Rightarrow> path \<Rightarrow> Incident \<Rightarrow> disk \<Rightarrow> disk \<times> (TrustedError + bool)" where
  "persist_incident js pid unique_suffix p incident dk = (case path_parent p of
       None \<Rightarrow> (dk, Inl NoParentDir)
     | Some directory \<Rightarrow> (case create_dir_all directory dk of
           (dk, Inl e) \<Rightarrow> (dk, Inl (Io e))
         | (dk, Inr _) \<Rightarrow>
             if exists_path p dk then (dk, Inr False)
             else let tmp = incident_tmp directory pid unique_suffix in
               map_prod id (map_err Io) (io_finally (io_finally (publish (ij_to_vec js incident) tmp p directory)
                 (remove_file tmp)) (sync_dir directory) dk)))"

section \<open>Comparison\<close>

datatype Comparison = Match | Mismatch

text \<open>A monitor's fixed data; the clock is read once per comparison and may lie before the epoch.\<close>

record Monitor =
  mon_chain_id :: u64
  mon_incident_path :: path
  mon_json :: incident_json

definition TrustedL2Monitor_start :: "incident_json \<Rightarrow> path \<Rightarrow> bool \<Rightarrow> string option \<Rightarrow> u64 \<Rightarrow> disk \<Rightarrow> TrustedError + Monitor" where
  "TrustedL2Monitor_start js data_dir url_ok chain_id_response chain_id dk =
     (let incident_path = active_incident_path data_dir in
      rbind (refuse_active_incident incident_path dk) (\<lambda>_.
      if \<not> url_ok then Inl InvalidRpcUrl
      else rbind (ok_or ChainIdRequestFailed chain_id_response) (\<lambda>remote_chain_id.
      rbind (map_err (\<lambda>_. MalformedChainId) (parse_quantity remote_chain_id)) (\<lambda>actual.
      rbind (validate_chain_id chain_id actual) (\<lambda>_.
      Inr \<lparr>mon_chain_id = chain_id, mon_incident_path = incident_path, mon_json = js\<rparr>)))))"

record clock_read =
  ck_now :: "u64 option"
  ck_pid :: string
  ck_suffix :: string

definition compare_and_record :: "Monitor \<Rightarrow> clock_read \<Rightarrow> HeaderObservation \<Rightarrow> HeaderObservation \<Rightarrow> disk
    \<Rightarrow> disk \<times> (TrustedError + Comparison)" where
  "compare_and_record m ck local canonical dk =
     (if hd_number local \<noteq> hd_number canonical then (dk, Inl DifferentHeights)
      else if hd_hash local = hd_hash canonical \<and> hd_state_root local = hd_state_root canonical then (dk, Inr Match)
      else case ck_now ck of
        None \<Rightarrow> (dk, Inl ClockBeforeEpoch)
      | Some now \<Rightarrow>
          (case persist_incident (mon_json m) (ck_pid ck) (ck_suffix ck) (mon_incident_path m)
             \<lparr>inc_schema_version = SCHEMA_VERSION, inc_effective_chain_id = mon_chain_id m,
              inc_l2_block_number = hd_number local, inc_local_hash = hd_hash local, inc_canonical_hash = hd_hash canonical,
              inc_local_state_root = hd_state_root local, inc_canonical_state_root = hd_state_root canonical,
              inc_detected_at_unix_secs = now\<rparr> dk of
             (dk, Inl e) \<Rightarrow> (dk, Inl e)
           | (dk, Inr _) \<Rightarrow> (dk, Inr Mismatch)))"

section \<open>The monitor task\<close>

text \<open>What one poll finds: the last durable block number and the headers the provider has, each possibly failing,
  the endpoint's answers and the clock. The provider may change between two reads, so the header at the tip, the header
  compared last and the headers of the loop, of which each is read once, are separate answers.\<close>

record poll =
  pl_last_block_number :: "u64 option"
  pl_tip_header :: "u64 \<Rightarrow> (b256 \<times> b256) option option"
  pl_prev_header :: "u64 \<Rightarrow> (b256 \<times> b256) option option"
  pl_sealed_header :: "u64 \<Rightarrow> (b256 \<times> b256) option option"
  pl_canonical :: "u64 \<Rightarrow> TrustedError + HeaderObservation option"
  pl_clock :: "u64 \<Rightarrow> clock_read"

datatype MonitorStop = ProviderFailed | Disappeared u64 | Divergence | CompareFailed TrustedError

definition durable_header_at :: "(u64 \<Rightarrow> (b256 \<times> b256) option option) \<Rightarrow> u64 \<Rightarrow> MonitorStop + HeaderObservation option" where
  "durable_header_at sealed_header number = rbind (ok_or ProviderFailed (sealed_header number)) (\<lambda>header.
     Inr (map_option (\<lambda>(hash, state_root). \<lparr>hd_number = number, hd_hash = hash, hd_state_root = state_root\<rparr>) header))"

definition durable_header :: "poll \<Rightarrow> MonitorStop + HeaderObservation option" where
  "durable_header pl = rbind (ok_or ProviderFailed (pl_last_block_number pl)) (durable_header_at (pl_tip_header pl))"

text \<open>The height a poll starts comparing from; nothing when the tip is the header compared last.\<close>

definition poll_start :: "poll \<Rightarrow> HeaderObservation option \<Rightarrow> HeaderObservation \<Rightarrow> MonitorStop + u64 option" where
  "poll_start pl last_checked tip = (case last_checked of
       Some prev \<Rightarrow>
         if hd_number tip > hd_number prev
         then rbind (durable_header_at (pl_prev_header pl) (hd_number prev)) (\<lambda>current.
           if current = Some prev then Inr (Some (hd_number prev + 1)) else Inr (Some (hd_number prev)))
         else map_err CompareFailed (first_unchecked_height last_checked tip)
     | None \<Rightarrow> map_err CompareFailed (first_unchecked_height last_checked tip))"

text \<open>Comparing a run of heights. The result has the headers that matched, in order.\<close>

fun compare_loop :: "Monitor \<Rightarrow> poll \<Rightarrow> HeaderObservation \<Rightarrow> u64 list \<Rightarrow> HeaderObservation option \<Rightarrow> disk
    \<Rightarrow> disk \<times> HeaderObservation option \<times> MonitorStop option \<times> HeaderObservation list" where
  "compare_loop m pl tip [] last_checked dk = (dk, last_checked, None, [])"
| "compare_loop m pl tip (number # numbers) last_checked dk =
     (case (if number = hd_number tip then Inr (Some tip) else durable_header_at (pl_sealed_header pl) number) of
        Inl e \<Rightarrow> (dk, last_checked, Some e, [])
      | Inr None \<Rightarrow> (dk, last_checked, Some (Disappeared number), [])
      | Inr (Some local) \<Rightarrow> (case pl_canonical pl number of
            Inl e \<Rightarrow> (dk, last_checked, None, [])
          | Inr None \<Rightarrow> (dk, last_checked, None, [])
          | Inr (Some canonical) \<Rightarrow> (case compare_and_record m (pl_clock pl number) local canonical dk of
                (dk, Inl e) \<Rightarrow> (dk, last_checked, Some (CompareFailed e), [])
              | (dk, Inr Mismatch) \<Rightarrow> (dk, last_checked, Some Divergence, [])
              | (dk, Inr Match) \<Rightarrow> (case compare_loop m pl tip numbers (Some local) dk of
                    (dk, last_checked, stop, matched) \<Rightarrow> (dk, last_checked, stop, local # matched)))))"

definition heights :: "u64 \<Rightarrow> u64 \<Rightarrow> u64 list" where
  "heights lo hi = map word_of_nat [unat lo..<Suc (unat hi)]"

definition monitor_poll :: "Monitor \<Rightarrow> poll \<Rightarrow> HeaderObservation option \<Rightarrow> disk
    \<Rightarrow> disk \<times> HeaderObservation option \<times> MonitorStop option \<times> HeaderObservation list" where
  "monitor_poll m pl last_checked dk = (case durable_header pl of
       Inl e \<Rightarrow> (dk, last_checked, Some e, [])
     | Inr None \<Rightarrow> (dk, last_checked, None, [])
     | Inr (Some tip) \<Rightarrow> (case poll_start pl last_checked tip of
           Inl e \<Rightarrow> (dk, last_checked, Some e, [])
         | Inr None \<Rightarrow> (dk, last_checked, None, [])
         | Inr (Some start) \<Rightarrow> compare_loop m pl tip (heights start (hd_number tip)) last_checked dk))"

fun monitor :: "Monitor \<Rightarrow> poll list \<Rightarrow> HeaderObservation option \<Rightarrow> disk
    \<Rightarrow> disk \<times> HeaderObservation option \<times> MonitorStop option \<times> HeaderObservation list" where
  "monitor m [] last_checked dk = (dk, last_checked, None, [])"
| "monitor m (pl # pls) last_checked dk = (case monitor_poll m pl last_checked dk of
       (dk, last_checked, Some e, matched) \<Rightarrow> (dk, last_checked, Some e, matched)
     | (dk, last_checked, None, matched) \<Rightarrow> (case monitor m pls last_checked dk of
           (dk, last_checked, stop, more_matched) \<Rightarrow> (dk, last_checked, stop, matched @ more_matched)))"

section \<open>Publishing the marker\<close>

lemma incident_tmp_neq: "path_parent (active_incident_path data_dir) = Some d \<Longrightarrow> incident_tmp d pid sfx \<noteq> active_incident_path data_dir"
  by (auto simp: incident_tmp_def active_incident_path_def path_join_def ACTIVE_INCIDENT_def)

text \<open>Linking to a name that is free can fail, but not because the name exists.\<close>

lemma hard_link_free:
  assumes "tmp \<noteq> p" "guarded {None} p dk" "tmp_holds tmp p i new dk" "dk_synced dk i" "hard_link tmp p dk = (dk', r)"
  shows "case r of Inl e \<Rightarrow> e \<noteq> AlreadyExists \<and> guarded {None} p dk' | Inr _ \<Rightarrow> guarded {None, Some new} p dk' \<and> placed new p dk'"
  using assms unfolding hard_link_def attempt_def
  by (auto simp: disk_defs split: option.splits list.splits outcome.splits if_splits)

lemma sync_dir_keeps:
  "guarded C p dk \<Longrightarrow> guarded C p (fst (sync_dir d dk))"
  "durably_placed new p dk \<Longrightarrow> durably_placed new p (fst (sync_dir d dk))"
  unfolding sync_dir_def attempt_def
  by (auto simp: disk_defs split: option.splits list.splits outcome.splits)

lemma meetsD: "meets P m Q E \<Longrightarrow> P dk \<Longrightarrow> case m dk of (dk', Inl e) \<Rightarrow> E dk' | (dk', Inr x) \<Rightarrow> Q x dk'"
  by (simp add: meets_def)

lemma meets_loosen: "meets P m Q (guarded C p) \<Longrightarrow> C \<subseteq> D \<Longrightarrow> meets P m Q (guarded D p)"
  by (erule meets_weaken) (auto intro: guarded_mono)

lemma publish_meets:
  assumes "tmp \<noteq> p" "path_parent p = Some d"
  shows "meets (guarded {None} p) (publish json tmp p d)
    (\<lambda>b dk. b \<and> durably_placed (json @ [10]) p dk) (guarded {None, Some (json @ [10])} p)"
proof -
  let ?new = "json @ [10]"
  let ?C = "{None, Some ?new}" and ?Q = "\<lambda>b dk. b \<and> durably_placed ?new p dk"
  have sync: "meets (\<lambda>dk. guarded ?C p dk \<and> placed ?new p dk) (io_bind (sync_dir d) (\<lambda>_. io_return True)) ?Q (guarded ?C p)"
    by (rule meets_bind [OF sync_dir_meets [OF assms(2)]]) (simp add: meets_def io_return_def)
  have link: "meets (\<lambda>dk. guarded {None} p dk \<and> tmp_holds tmp p i ?new dk \<and> dk_synced dk i)
      (\<lambda>dk. case hard_link tmp p dk of (dk, Inr _) \<Rightarrow> io_bind (sync_dir d) (\<lambda>_. io_return True) dk
         | (dk, Inl e) \<Rightarrow> if e = AlreadyExists then (dk, Inr False) else (dk, Inl e)) ?Q (guarded ?C p)" for i
    unfolding meets_def
  proof (intro allI impI)
    fix dk assume pre: "guarded {None} p dk \<and> tmp_holds tmp p i ?new dk \<and> dk_synced dk i"
    obtain dk' r where l: "hard_link tmp p dk = (dk', r)" by (cases "hard_link tmp p dk")
    with pre hard_link_free [OF assms(1), of dk i ?new dk' r] meetsD [OF sync, of dk']
    show "case (case hard_link tmp p dk of (dk, Inr _) \<Rightarrow> io_bind (sync_dir d) (\<lambda>_. io_return True) dk
         | (dk, Inl e) \<Rightarrow> if e = AlreadyExists then (dk, Inr False) else (dk, Inl e)) of
        (dk', Inl e) \<Rightarrow> guarded ?C p dk' | (dk', Inr b) \<Rightarrow> ?Q b dk'"
      by (cases r) (auto intro: guarded_mono)
  qed
  have sub: "{None} \<subseteq> ?C" by simp
  note create = meets_loosen [OF create_new_meets [OF assms(1), of "{None}"] sub]
  note wr = meets_loosen [OF write_all_meets [of "{None}" p tmp] sub]
  note synced = meets_loosen [OF sync_all_meets [of "{None}" p tmp] sub]
  show ?thesis
    unfolding publish_def
    by (rule meets_bind [OF create] meets_bind [OF wr [of _ "[]" json, simplified append_Nil]]
        meets_bind [OF wr [of _ json "[10]"]] meets_bind [OF synced] link)+
qed

text \<open>Creating directories changes no file, and makes none of the directories durable.\<close>

lemma create_dir_all_keeps:
  assumes "create_dir_all d dk = (dk', r)"
  shows "settled p dk' = settled p dk" "content dk' p = content dk p" "exists_path p dk' = exists_path p dk"
proof -
  obtain q sch where "dk' = add_dirs q (dk\<lparr>dk_sched := sch\<rparr>) \<or> dk' = dk\<lparr>dk_sched := sch\<rparr>"
    using assms unfolding create_dir_all_def attempt_def
    by (auto split: list.splits outcome.splits) (metis disk.surjective disk.update_convs(8))+
  then show "settled p dk' = settled p dk" "content dk' p = content dk p" "exists_path p dk' = exists_path p dk"
    by (auto simp: settled_def add_dirs_def content_def exists_path_def secure_def split: option.splits)
qed

lemma publish_keeps_secure:
  assumes "path_parent p = Some d"
  shows "keeps_secure p (publish json tmp p d)"
proof -
  have "keeps_secure p (\<lambda>dk. case hard_link tmp p dk of
      (dk, Inr _) \<Rightarrow> io_bind (sync_dir d) (\<lambda>_. io_return True) dk
    | (dk, Inl e) \<Rightarrow> if e = AlreadyExists then (dk, Inr False) else (dk, Inl e))"
    unfolding keeps_secure_def
  proof
    fix dk
    obtain dk' r where l: "hard_link tmp p dk = (dk', r)" by (cases "hard_link tmp p dk")
    have "keeps_secure p (io_bind (sync_dir d) (\<lambda>_. io_return True))" by (intro keeps_secure_intros assms)
    then show "secure p (fst (case hard_link tmp p dk of
        (dk, Inr _) \<Rightarrow> io_bind (sync_dir d) (\<lambda>_. io_return True) dk
      | (dk, Inl e) \<Rightarrow> if e = AlreadyExists then (dk, Inr False) else (dk, Inl e))) = secure p dk"
      using keeps_secureD [OF keeps_hard_link l] by (cases r) (simp_all add: l keeps_secure_def)
  qed
  then show ?thesis unfolding publish_def by (intro keeps_secure_intros)
qed

lemma settled_sched [simp]: "settled p (dk\<lparr>dk_sched := s\<rparr>) = settled p dk"
  by (simp add: settled_def split: option.split)

lemma content_sched [simp]: "content (dk\<lparr>dk_sched := s\<rparr>) p = content dk p"
  by (simp add: content_def)

lemma content_None: "content dk p = None \<longleftrightarrow> \<not> exists_path p dk"
  by (simp add: content_def exists_path_def)

text \<open>Every outcome of publishing: an earlier marker is untouched, a new one is whole or absent after a crash, and one is
  there when publishing has not failed. It also survives every crash exactly if its directory was on stable storage
  before: the directory is created without syncing the one it is in.\<close>

definition published :: "bytes \<Rightarrow> path \<Rightarrow> disk \<Rightarrow> disk \<Rightarrow> bool" where
  "published new p dk dk' \<longleftrightarrow> content dk' p = Some new
     \<and> (if secure p dk then \<forall>keep junk. content (crash keep junk dk') p = Some new
        else \<forall>junk. content (crash (\<lambda>_. False) junk dk') p = None)"

lemma published_durably:
  assumes "durably_placed new p dk'" "secure p dk' = secure p dk"
  shows "published new p dk dk'"
proof -
  have "content dk' p = Some new" using assms(1) by (auto simp: durably_placed_def placed_def content_def)
  then show ?thesis using assms crash_durable crash_lost by (auto simp: published_def)
qed

lemma persist_crash:
  assumes "settled p dk" "path_parent p = Some d" "incident_tmp d pid sfx \<noteq> p"
    and run: "persist_incident js pid sfx p incident dk = (dk', r)"
  shows "(content dk p \<noteq> None \<longrightarrow> settled p dk' \<and> content dk' p = content dk p \<and> r \<noteq> Inr True)
    \<and> (content dk p = None \<longrightarrow> content (crash keep junk dk') p \<in> {None, Some (ij_to_vec js incident @ [10])}
        \<and> (\<forall>b. r = Inr b \<longrightarrow> b \<and> published (ij_to_vec js incident @ [10]) p dk dk'))"
proof -
  let ?new = "ij_to_vec js incident @ [10]" and ?tmp = "incident_tmp d pid sfx"
  obtain dk1 c where c: "create_dir_all d dk = (dk1, c)" by (cases "create_dir_all d dk")
  note same = create_dir_all_keeps [OF c, of p]
  show ?thesis
  proof (cases "(\<exists>e. c = Inl e) \<or> exists_path p dk")
    case True
    then have "dk' = dk1" "r \<noteq> Inr True" "\<not> exists_path p dk \<longrightarrow> (\<exists>e. r = Inl e)"
      using run assms(2) c same by (auto simp: persist_incident_def split: sum.splits)
    then show ?thesis using assms(1) same by (auto simp: crash_settled content_None)
  next
    case False
    let ?m = "io_finally (io_finally (publish (ij_to_vec js incident) ?tmp p d) (remove_file ?tmp)) (sync_dir d)"
    from False obtain u where "c = Inr u" by (cases c) auto
    then have "map_prod id (map_err Io) (?m dk1) = (dk', r)"
      using run assms(2) c same False by (simp add: persist_incident_def Let_def)
    then obtain r0 where r0: "?m dk1 = (dk', r0)" "r = map_err Io r0" by (cases "?m dk1") auto
    have none: "content dk p = None" using False by (simp add: content_None)
    let ?C = "{None, Some ?new}" and ?Q = "\<lambda>b dk. b \<and> durably_placed ?new p dk"
    have "meets (guarded {None} p) (io_finally (publish (ij_to_vec js incident) ?tmp p d) (remove_file ?tmp)) ?Q (guarded ?C p)"
      by (rule meets_finally [OF publish_meets [OF assms(3,2)]]) (simp_all add: remove_file_keeps [OF assms(3)])
    then have m: "meets (guarded {None} p) ?m ?Q (guarded ?C p)"
      by (rule meets_finally) (simp_all add: sync_dir_keeps)
    have "guarded {None} p dk1" using assms(1) none same by (intro guarded_start) simp_all
    from meetsD [OF m this] r0(1) have q: "case r0 of Inl e \<Rightarrow> guarded ?C p dk' | Inr b \<Rightarrow> ?Q b dk'" by (cases r0) simp_all
    have m_keeps: "keeps_secure p ?m" by (intro keeps_secure_intros publish_keeps_secure assms(2))
    have sec: "secure p dk' = secure p dk"
      using keeps_secureD [OF m_keeps r0(1)] keeps_secureD [OF keeps_create_dir_all c] by blast
    have "guarded ?C p dk'" using q by (cases r0) (auto simp: disk_defs)
    then have "content (crash keep junk dk') p \<in> ?C" by (rule crash_guarded)
    moreover have "b \<and> published ?new p dk dk'" if "r = Inr b" for b
      using q that r0(2) published_durably [OF _ sec] by (cases r0) simp_all
    ultimately show ?thesis using none by auto
  qed
qed

section \<open>What the monitor compares\<close>

definition follows_on :: "HeaderObservation \<Rightarrow> HeaderObservation \<Rightarrow> bool" where
  "follows_on a b \<longleftrightarrow> unat (hd_number b) \<le> Suc (unat (hd_number a))"

definition since :: "HeaderObservation option \<Rightarrow> HeaderObservation list \<Rightarrow> HeaderObservation list" where
  "since last_checked matched = (case last_checked of None \<Rightarrow> [] | Some h \<Rightarrow> [h]) @ matched"

definition confirmed :: "poll \<Rightarrow> HeaderObservation \<Rightarrow> bool" where
  "confirmed pl h \<longleftrightarrow> (\<exists>c. pl_canonical pl (hd_number h) = Inr (Some c) \<and> hd_number c = hd_number h
     \<and> hd_hash c = hd_hash h \<and> hd_state_root c = hd_state_root h)"

text \<open>A pair of headers that a poll compared: its local header, of the tip or of the loop, and the endpoint's.\<close>

definition compared :: "poll \<Rightarrow> HeaderObservation \<Rightarrow> HeaderObservation \<Rightarrow> bool" where
  "compared pl local canonical \<longleftrightarrow> pl_canonical pl (hd_number local) = Inr (Some canonical)
     \<and> (durable_header pl = Inr (Some local) \<or> durable_header_at (pl_sealed_header pl) (hd_number local) = Inr (Some local))"

lemma durable_header_at_number: "durable_header_at sealed_header n = Inr (Some h) \<Longrightarrow> hd_number h = n"
  by (auto simp: durable_header_at_def result_simps)

lemma compare_match: "compare_and_record m ck local canonical dk = (dk', Inr Match) \<Longrightarrow>
   dk' = dk \<and> hd_number local = hd_number canonical \<and> hd_hash local = hd_hash canonical \<and> hd_state_root local = hd_state_root canonical"
  by (auto simp: compare_and_record_def split: if_splits option.splits prod.splits sum.splits)

lemma compare_loop_spec:
  assumes "durable_header pl = Inr (Some tip)" "compare_loop m pl tip ns last_checked dk = (dk', last', stop, matched)"
  shows "map hd_number matched = take (length matched) ns \<and> (\<forall>h \<in> set matched. confirmed pl h)
    \<and> last' = (if matched = [] then last_checked else Some (last matched))
    \<and> (stop = None \<longrightarrow> dk' = dk)
    \<and> (stop = Some Divergence \<longrightarrow> (\<exists>ck local canonical. compared pl local canonical
          \<and> compare_and_record m ck local canonical dk = (dk', Inr Mismatch)))"
  using assms(2)
proof (induction ns arbitrary: last_checked matched)
  case (Cons n ns)
  let ?local = "if n = hd_number tip then Inr (Some tip) else durable_header_at (pl_sealed_header pl) n"
  show ?case
  proof (cases "\<exists>local canonical. ?local = Inr (Some local) \<and> pl_canonical pl n = Inr (Some canonical)
      \<and> compare_and_record m (pl_clock pl n) local canonical dk = (dk, Inr Match)")
    case True
    then obtain local canonical where l: "?local = Inr (Some local)" and c: "pl_canonical pl n = Inr (Some canonical)"
      and cmp: "compare_and_record m (pl_clock pl n) local canonical dk = (dk, Inr Match)" by blast
    have n: "hd_number local = n" using l durable_header_at_number by (auto split: if_splits)
    from Cons.prems l c cmp obtain matched' where
      rec: "compare_loop m pl tip ns (Some local) dk = (dk', last', stop, matched')" and m: "matched = local # matched'"
      by (auto split: prod.splits)
    have "confirmed pl local" using compare_match [OF cmp] c n by (simp add: confirmed_def)
    with Cons.IH [OF rec] n m show ?thesis by auto
  next
    case False
    with Cons.prems have "matched = [] \<and> last' = last_checked \<and> (stop = None \<longrightarrow> dk' = dk)
        \<and> (stop = Some Divergence \<longrightarrow> (\<exists>local canonical. ?local = Inr (Some local) \<and> pl_canonical pl n = Inr (Some canonical)
              \<and> compare_and_record m (pl_clock pl n) local canonical dk = (dk', Inr Mismatch)))"
      by (auto simp: durable_header_at_def ok_or_def rbind_def split: sum.splits option.splits prod.splits Comparison.splits if_splits dest: compare_match)
    moreover have "compared pl local canonical" if "?local = Inr (Some local)" "pl_canonical pl n = Inr (Some canonical)" for local canonical
      using that assms(1) durable_header_at_number by (auto simp: compared_def split: if_splits)
    ultimately show ?thesis by (metis list.size(3) list.simps(8) take_0 empty_iff empty_set)
  qed
qed simp

lemma poll_start_follows:
  assumes "poll_start pl (Some prev) tip = Inr (Some start)"
  shows "unat start \<le> Suc (unat (hd_number prev)) \<and> start \<le> hd_number tip"
proof (cases "hd_number prev < hd_number tip")
  case True
  then have "start = hd_number prev + 1 \<or> start = hd_number prev"
    using assms by (auto simp: poll_start_def result_simps split: if_splits)
  moreover note unat_Suc_less [OF True] less_imp_Suc_le [OF True]
  ultimately show ?thesis using True by auto
next
  case False
  then have le: "hd_number tip \<le> hd_number prev" by simp
  with assms False have "start = hd_number tip"
    by (auto simp: poll_start_def first_unchecked_height_def result_simps order.order_iff_strict split: if_splits)
  with le show ?thesis by (simp add: word_le_nat_alt)
qed

lemma heights_numbers: "map unat (heights lo hi) = [unat lo..<Suc (unat hi)]"
proof -
  have "unat (word_of_nat n :: u64) = n" if "n \<in> set [unat lo..<Suc (unat hi)]" for n
    using that unat_bound [of hi] by (auto simp: unat_of_nat)
  then show ?thesis unfolding heights_def map_map comp_def by (rule map_idI)
qed

lemma successively_upt: "successively (\<lambda>a b. b \<le> Suc a) (take k [i..<j])"
  by (auto simp: successively_conv_nth)

lemma successively_heights:
  assumes "map hd_number hs = take (length hs) (heights lo hi)"
  shows "successively follows_on hs" "hs \<noteq> [] \<Longrightarrow> hd_number (hd hs) = lo"
proof -
  have nums: "map (\<lambda>h. unat (hd_number h)) hs = take (length hs) [unat lo..<Suc (unat hi)]"
    using arg_cong [OF assms, of "map unat"] by (simp add: comp_def take_map [symmetric] heights_numbers)
  have "successively (\<lambda>a b. b \<le> Suc a) (map (\<lambda>h. unat (hd_number h)) hs)" unfolding nums by (rule successively_upt)
  then show "successively follows_on hs" by (simp add: successively_map follows_on_def)
  assume hs: "hs \<noteq> []"
  have "length hs \<le> Suc (unat hi) - unat lo" using arg_cong [OF nums, of length] by (simp del: upt_Suc)
  with hs have "unat lo < Suc (unat hi)" by (cases hs) simp_all
  then have "hd (take (length hs) [unat lo..<Suc (unat hi)]) = unat lo" using hs by (simp add: hd_take del: upt_Suc)
  moreover have "unat (hd_number (hd hs)) = hd (map (\<lambda>h. unat (hd_number h)) hs)" using hs by (simp add: hd_map)
  ultimately have "unat (hd_number (hd hs)) = unat lo" by (simp only: nums)
  then show "hd_number (hd hs) = lo" by (simp add: word_unat_eq_iff)
qed

lemma monitor_poll_spec:
  assumes "monitor_poll m pl last_checked dk = (dk', last', stop, matched)"
  shows "successively follows_on (since last_checked matched) \<and> (\<forall>h \<in> set matched. confirmed pl h)
    \<and> last' = (if matched = [] then last_checked else Some (last matched)) \<and> (stop = None \<longrightarrow> dk' = dk)
    \<and> (stop = Some Divergence \<longrightarrow> (\<exists>ck local canonical. compared pl local canonical
          \<and> compare_and_record m ck local canonical dk = (dk', Inr Mismatch)))"
proof (cases "\<exists>tip start. durable_header pl = Inr (Some tip) \<and> poll_start pl last_checked tip = Inr (Some start)")
  case True
  then obtain tip start where t: "durable_header pl = Inr (Some tip)" "poll_start pl last_checked tip = Inr (Some start)" by blast
  with assms have loop: "compare_loop m pl tip (heights start (hd_number tip)) last_checked dk = (dk', last', stop, matched)"
    by (simp add: monitor_poll_def)
  note spec = compare_loop_spec [OF t(1) loop]
  note hs = successively_heights [OF spec [THEN conjunct1]]
  have "successively follows_on (since last_checked matched)"
  proof (cases last_checked)
    case (Some prev)
    then show ?thesis
      using hs t(2) poll_start_follows [of pl prev tip start] by (cases matched) (auto simp: since_def follows_on_def)
  qed (simp add: since_def hs(1))
  with spec show ?thesis by blast
next
  case False
  with assms have "matched = []" "last' = last_checked" "stop = None \<longrightarrow> dk' = dk" "stop \<noteq> Some Divergence"
    by (auto simp: monitor_poll_def durable_header_def durable_header_at_def poll_start_def ok_or_def rbind_def map_err_def
        split: sum.splits option.splits if_splits)
  then show ?thesis by (simp add: since_def split: option.split)
qed

lemma monitor_spec:
  assumes "monitor m pls last_checked dk = (dk', last', stop, matched)"
  shows "successively follows_on (since last_checked matched) \<and> (\<forall>h \<in> set matched. \<exists>pl \<in> set pls. confirmed pl h)
    \<and> last' = (if matched = [] then last_checked else Some (last matched)) \<and> (stop = None \<longrightarrow> dk' = dk)
    \<and> (stop = Some Divergence \<longrightarrow> (\<exists>pl \<in> set pls. \<exists>ck local canonical. compared pl local canonical
          \<and> compare_and_record m ck local canonical dk = (dk', Inr Mismatch)))"
  using assms
proof (induction pls arbitrary: last_checked dk matched)
  case Nil
  then show ?case by (simp add: since_def split: option.split)
next
  case (Cons pl pls)
  obtain dk1 last1 stop1 matched1 where p: "monitor_poll m pl last_checked dk = (dk1, last1, stop1, matched1)"
    by (metis prod_cases4)
  note P = monitor_poll_spec [OF p]
  show ?case
  proof (cases stop1)
    case (Some e)
    with Cons.prems p have "dk' = dk1 \<and> last' = last1 \<and> stop = stop1 \<and> matched = matched1" by simp
    with P show ?thesis by auto
  next
    case None
    with Cons.prems p obtain matched2 where rec: "monitor m pls last1 dk1 = (dk', last', stop, matched2)" "matched = matched1 @ matched2"
      by (auto split: prod.splits)
    have dk: "dk1 = dk" using P None by simp
    note IH = Cons.IH [OF rec(1) [unfolded dk]]
    have "successively follows_on (since last_checked (matched1 @ matched2))"
    proof (cases "matched1 = []")
      case False
      then have "last1 = Some (last matched1)" using P by simp
      with P IH False show ?thesis by (cases matched2) (auto simp: since_def successively_append_iff split: option.splits)
    qed (use P IH in simp)
    with P IH rec(2) dk show ?thesis by auto
  qed
qed

section \<open>Properties\<close>

text \<open>C27: whatever the polls find - rewinds, replaced headers, missing endpoint answers - the monitor never jumps over
  a height: every header it accepts was confirmed by the endpoint by number, hash and state root, the next one is
  at most one above it, the last one accepted is where it goes on, and it writes nothing until it stops.\<close>

theorem monitor_skips_no_height:
  assumes "monitor m pls None dk = (dk', last', stop, matched)"
  shows "successively follows_on matched \<and> (\<forall>h \<in> set matched. \<exists>pl \<in> set pls. confirmed pl h)
    \<and> last' = (if matched = [] then None else Some (last matched)) \<and> (stop = None \<longrightarrow> dk' = dk)"
  using monitor_spec [OF assms] by (simp add: since_def)

subsection \<open>Concrete runs\<close>

definition blank_disk :: disk where
  "blank_disk = \<lparr>dk_names = Map.empty, dk_durable = Map.empty, dk_data = \<lambda>_. [], dk_synced = \<lambda>_. True, dk_next = 0,
     dk_dirs = \<lambda>_. False, dk_durable_dirs = \<lambda>_. False, dk_sched = []\<rparr>"

text \<open>A codec: every byte string behind a unary length.\<close>

definition enc_bytes :: "bytes \<Rightarrow> bytes" where
  "enc_bytes l = replicate (length l) 1 @ 0 # l"

definition dec_bytes :: "bytes \<Rightarrow> bytes \<times> bytes" where
  "dec_bytes bs = (let n = length (takeWhile (\<lambda>b. b = 1) bs) in (take n (drop (Suc n) bs), drop (Suc n + n) bs))"

lemma dec_enc_bytes [simp]: "dec_bytes (enc_bytes l @ rest) = (l, rest)"
proof -
  have "takeWhile (\<lambda>b. b = 1) (replicate n 1 @ 0 # l @ rest) = replicate n (1 :: byte)" for n
    by (induction n) simp_all
  then show ?thesis by (simp add: dec_bytes_def enc_bytes_def Let_def)
qed

definition wit_ij :: incident_json where
  "wit_ij = \<lparr>ij_to_vec = \<lambda>i. enc_bytes (replicate (inc_schema_version i) 0) @ enc_bytes (u64_to_be (inc_effective_chain_id i))
       @ enc_bytes (u64_to_be (inc_l2_block_number i)) @ enc_bytes (inc_local_hash i) @ enc_bytes (inc_canonical_hash i)
       @ enc_bytes (inc_local_state_root i) @ enc_bytes (inc_canonical_state_root i) @ enc_bytes (u64_to_be (inc_detected_at_unix_secs i)),
     ij_from_slice = \<lambda>bs. let (v, bs) = dec_bytes bs; (c, bs) = dec_bytes bs; (n, bs) = dec_bytes bs; (lh, bs) = dec_bytes bs;
         (ch, bs) = dec_bytes bs; (ls, bs) = dec_bytes bs; (cs, bs) = dec_bytes bs; (t, bs) = dec_bytes bs
       in Some \<lparr>inc_schema_version = length v, inc_effective_chain_id = u64_of_be c, inc_l2_block_number = u64_of_be n,
           inc_local_hash = lh, inc_canonical_hash = ch, inc_local_state_root = ls, inc_canonical_state_root = cs,
           inc_detected_at_unix_secs = u64_of_be t\<rparr>\<rparr>"

lemma wit_ij_ok: "ij_from_slice wit_ij (ij_to_vec wit_ij incident @ [10]) = Some incident"
  by (simp add: wit_ij_def)

definition wit_monitor :: Monitor where
  "wit_monitor = \<lparr>mon_chain_id = 42161, mon_incident_path = active_incident_path [], mon_json = wit_ij\<rparr>"

definition wit_clock :: clock_read where
  "wit_clock = \<lparr>ck_now = Some 1700000000, ck_pid = ''1'', ck_suffix = ''2''\<rparr>"

definition wit_head :: "u64 \<Rightarrow> byte \<Rightarrow> HeaderObservation" where
  "wit_head n h = \<lparr>hd_number = n, hd_hash = [h], hd_state_root = [h]\<rparr>"

definition wit_poll :: "u64 \<Rightarrow> poll" where
  "wit_poll n = \<lparr>pl_last_block_number = Some n, pl_tip_header = (\<lambda>_. Some (Some ([3], [3]))),
     pl_prev_header = (\<lambda>_. Some (Some ([3], [3]))), pl_sealed_header = (\<lambda>_. Some (Some ([3], [3]))),
     pl_canonical = (\<lambda>k. Inr (Some (wit_head k 3))), pl_clock = (\<lambda>_. wit_clock)\<rparr>"

theorem monitor_skips_no_height_witness:
  "\<exists>last' stop. monitor wit_monitor [wit_poll 5, wit_poll 7] None blank_disk
      = (blank_disk, last', stop, [wit_head 5 3, wit_head 6 3, wit_head 7 3])
    \<and> successively follows_on [wit_head 5 3, wit_head 6 3, wit_head 7 3] \<and> last' = Some (wit_head 7 3)"
proof -
  have run: "monitor wit_monitor [wit_poll 5, wit_poll 7] None blank_disk
      = (blank_disk, Some (wit_head 7 3), None, [wit_head 5 3, wit_head 6 3, wit_head 7 3])"
    by (simp add: monitor_poll_def durable_header_def durable_header_at_def poll_start_def first_unchecked_height_def wit_poll_def
        heights_def compare_and_record_def wit_head_def)
  from monitor_skips_no_height [OF run] run show ?thesis by auto
qed

subsection \<open>A divergence\<close>

definition incident_of :: "Monitor \<Rightarrow> HeaderObservation \<Rightarrow> HeaderObservation \<Rightarrow> u64 \<Rightarrow> Incident" where
  "incident_of m local canonical now = \<lparr>inc_schema_version = SCHEMA_VERSION, inc_effective_chain_id = mon_chain_id m,
     inc_l2_block_number = hd_number local, inc_local_hash = hd_hash local, inc_canonical_hash = hd_hash canonical,
     inc_local_state_root = hd_state_root local, inc_canonical_state_root = hd_state_root canonical,
     inc_detected_at_unix_secs = now\<rparr>"

lemma compare_mismatch:
  assumes "compare_and_record m ck local canonical dk = (dk', Inr Mismatch)"
  obtains now b where "persist_incident (mon_json m) (ck_pid ck) (ck_suffix ck) (mon_incident_path m) (incident_of m local canonical now) dk
      = (dk', Inr b)"
    "hd_number local = hd_number canonical" "hd_hash local \<noteq> hd_hash canonical \<or> hd_state_root local \<noteq> hd_state_root canonical"
  using assms by (auto simp: compare_and_record_def incident_of_def split: if_splits option.splits prod.splits sum.splits)

lemma refused_iff: "refuse_ordinary_startup dir dk = (if content dk (active_incident_path dir) = None then Inr ()
    else Inl (ActiveIncident (active_incident_path dir)))"
  by (auto simp: refuse_ordinary_startup_def refuse_active_incident_def content_None)

lemma load_content:
  assumes "dk_sched dk = []" "content dk (active_incident_path dir) = Some (ij_to_vec js incident @ [10])"
    and "ij_from_slice js (ij_to_vec js incident @ [10]) = Some incident" "inc_schema_version incident = SCHEMA_VERSION"
  shows "load_active_incident js dir dk = Inr incident"
proof -
  have "snd (read_file (active_incident_path dir) dk) = Inr (ij_to_vec js incident @ [10])"
    using assms(1,2) by (auto simp: read_file_def attempt_def content_def split: option.splits)
  then show ?thesis using assms(3,4) by (simp add: load_active_incident_def)
qed

text \<open>C26: the monitor stops with a divergence only after comparing a local header with the endpoint's header at the same
  height and finding another hash or state root, and from then on an ordinary start is refused. A marker that was there
  before is left as it was and survives every power loss. Otherwise recovery loads exactly the incident with the two
  hashes, the two state roots and the height; if the marker's directory was on stable storage before, this too survives
  every power loss. If it was not, as when the directory is created for this first incident, there is a power loss after
  which the start is not refused: the directory it is created in is never synced.\<close>

theorem divergence_stops_startup:
  assumes "settled (active_incident_path dir) dk" and "mon_incident_path m = active_incident_path dir"
    and "monitor m pls last_checked dk = (dk', last_checked', Some Divergence, matched)"
    and "\<And>incident. ij_from_slice (mon_json m) (ij_to_vec (mon_json m) incident @ [10]) = Some incident"
  shows "\<exists>pl \<in> set pls. \<exists>local canonical now. compared pl local canonical \<and> hd_number local = hd_number canonical
    \<and> (hd_hash local \<noteq> hd_hash canonical \<or> hd_state_root local \<noteq> hd_state_root canonical)
    \<and> refuse_ordinary_startup dir dk' = Inl (ActiveIncident (active_incident_path dir))
    \<and> (if exists_path (active_incident_path dir) dk
       then refuse_ordinary_startup dir (crash keep junk dk') = Inl (ActiveIncident (active_incident_path dir))
         \<and> content (crash keep junk dk') (active_incident_path dir) = content dk (active_incident_path dir)
       else load_active_incident (mon_json m) dir (dk'\<lparr>dk_sched := []\<rparr>) = Inr (incident_of m local canonical now)
         \<and> (if secure (active_incident_path dir) dk
            then refuse_ordinary_startup dir (crash keep junk dk') = Inl (ActiveIncident (active_incident_path dir))
              \<and> load_active_incident (mon_json m) dir (crash keep junk dk') = Inr (incident_of m local canonical now)
            else refuse_ordinary_startup dir (crash (\<lambda>_. False) junk dk') = Inr ()))"
proof -
  let ?p = "active_incident_path dir"
  from monitor_spec [OF assms(3)] obtain pl ck local canonical where pl: "pl \<in> set pls" "compared pl local canonical"
      "compare_and_record m ck local canonical dk = (dk', Inr Mismatch)" by auto
  from pl(3) obtain now b where
    run: "persist_incident (mon_json m) (ck_pid ck) (ck_suffix ck) ?p (incident_of m local canonical now) dk = (dk', Inr b)"
    and differ: "hd_number local = hd_number canonical" "hd_hash local \<noteq> hd_hash canonical \<or> hd_state_root local \<noteq> hd_state_root canonical"
    by (rule compare_mismatch) (simp add: assms(2))
  let ?inc = "incident_of m local canonical now"
  obtain d where d: "path_parent ?p = Some d" by (simp add: path_parent_def active_incident_path_def path_join_def)
  note c = persist_crash [OF assms(1) d incident_tmp_neq [OF d] run]
  have load: "load_active_incident (mon_json m) dir x = Inr ?inc"
    if "dk_sched x = []" "content x ?p = Some (ij_to_vec (mon_json m) ?inc @ [10])" for x
    by (rule load_content [OF that assms(4)]) (simp add: incident_of_def)
  have sched: "dk_sched (crash keep junk dk') = []" by (simp add: crash_def)
  show ?thesis
  proof (cases "exists_path ?p dk")
    case True
    then have old: "content dk ?p \<noteq> None" by (simp add: content_None)
    then have "settled ?p dk'" "content dk' ?p = content dk ?p" using c by auto
    then have "content (crash keep junk dk') ?p = content dk ?p" by (simp add: crash_settled)
    with old \<open>content dk' ?p = content dk ?p\<close> True pl(1,2) differ show ?thesis by (auto simp: refused_iff)
  next
    case False
    then have "content dk ?p = None" by (simp add: content_None)
    then have new: "published (ij_to_vec (mon_json m) ?inc @ [10]) ?p dk dk'" using c by blast
    then have "load_active_incident (mon_json m) dir (dk'\<lparr>dk_sched := []\<rparr>) = Inr ?inc"
      by (intro load) (simp_all add: published_def)
    moreover have "load_active_incident (mon_json m) dir (crash keep junk dk') = Inr ?inc" if "secure ?p dk"
      using new that by (intro load [OF sched]) (simp add: published_def)
    ultimately show ?thesis using False new pl(1,2) differ
      by (intro bexI [OF _ pl(1)] exI [of _ local] exI [of _ canonical] exI [of _ now]) (auto simp: refused_iff published_def)
  qed
qed

text \<open>The endpoint disagrees at height 9: once with the marker's directory in place, once without.\<close>

definition wit_diverged :: poll where
  "wit_diverged = (wit_poll 9)\<lparr>pl_canonical := (\<lambda>k. Inr (Some (wit_head k 4)))\<rparr>"

definition dir_disk :: disk where
  "dir_disk = blank_disk\<lparr>dk_dirs := (\<lambda>q. q = [INCIDENT_DIR]), dk_durable_dirs := (\<lambda>q. q = [INCIDENT_DIR])\<rparr>"

lemma wit_diverges:
  assumes "dk \<in> {blank_disk, dir_disk}"
  obtains dk' last_checked where "monitor wit_monitor [wit_diverged] None dk = (dk', last_checked, Some Divergence, [])"
    "settled (active_incident_path []) dk" "\<not> exists_path (active_incident_path []) dk"
proof -
  have run: "snd (snd (monitor wit_monitor [wit_diverged] None dk)) = (Some Divergence, [])"
    using assms by (auto simp: monitor_poll_def durable_header_def durable_header_at_def poll_start_def first_unchecked_height_def wit_diverged_def
      wit_poll_def heights_def compare_and_record_def persist_incident_def path_parent_def active_incident_path_def path_join_def io_bind_def
      create_dir_all_def attempt_def blank_disk_def dir_disk_def io_return_def Let_def io_finally_def publish_def incident_tmp_def create_new_def
      write_all_def put_bytes_def sync_all_def hard_link_def remove_file_def sync_dir_def wit_head_def wit_clock_def wit_monitor_def exists_path_def
      add_dirs_def dir_exists_def ACTIVE_INCIDENT_def)
  obtain dk' last_checked stop matched where m: "monitor wit_monitor [wit_diverged] None dk = (dk', last_checked, stop, matched)"
    by (metis prod_cases4)
  show thesis
    by (rule that [of dk' last_checked])
      (use m run assms in \<open>auto simp: settled_def blank_disk_def dir_disk_def exists_path_def\<close>)
qed

theorem divergence_stops_startup_witness:
  "(\<exists>dk' last_checked. monitor wit_monitor [wit_diverged] None dir_disk = (dk', last_checked, Some Divergence, [])
     \<and> refuse_ordinary_startup [] (crash (\<lambda>_. False) (\<lambda>_. []) dk') = Inl (ActiveIncident (active_incident_path []))
     \<and> (\<exists>i. load_active_incident wit_ij [] (crash (\<lambda>_. False) (\<lambda>_. []) dk') = Inr i \<and> inc_local_hash i = [3] \<and> inc_canonical_hash i = [4]))
   \<and> (\<exists>dk' last_checked. monitor wit_monitor [wit_diverged] None blank_disk = (dk', last_checked, Some Divergence, [])
     \<and> refuse_ordinary_startup [] dk' = Inl (ActiveIncident (active_incident_path []))
     \<and> refuse_ordinary_startup [] (crash (\<lambda>_. False) (\<lambda>_. []) dk') = Inr ())"
proof -
  have m: "mon_incident_path wit_monitor = active_incident_path []" "mon_json wit_monitor = wit_ij" by (simp_all add: wit_monitor_def)
  have sec: "secure (active_incident_path []) dir_disk" "\<not> secure (active_incident_path []) blank_disk"
    by (simp_all add: secure_def active_incident_path_def path_join_def dir_disk_def blank_disk_def)
  note stops = divergence_stops_startup [OF _ m(1), unfolded m(2), OF _ _ wit_ij_ok, where keep = "\<lambda>_. False" and junk = "\<lambda>_. []"]
  obtain dk1 l1 where 1: "monitor wit_monitor [wit_diverged] None dir_disk = (dk1, l1, Some Divergence, [])"
    "settled (active_incident_path []) dir_disk" "\<not> exists_path (active_incident_path []) dir_disk"
    using wit_diverges [of dir_disk] by blast
  obtain dk2 l2 where 2: "monitor wit_monitor [wit_diverged] None blank_disk = (dk2, l2, Some Divergence, [])"
    "settled (active_incident_path []) blank_disk" "\<not> exists_path (active_incident_path []) blank_disk"
    using wit_diverges [of blank_disk] by blast
  have "inc_local_hash (incident_of wit_monitor local canonical now) = [3] \<and> inc_canonical_hash (incident_of wit_monitor local canonical now) = [4]"
    if "compared wit_diverged local canonical" for local canonical now
    using that by (cases local) (auto simp: incident_of_def compared_def wit_diverged_def wit_poll_def wit_head_def durable_header_def durable_header_at_def)
  then have "refuse_ordinary_startup [] (crash (\<lambda>_. False) (\<lambda>_. []) dk1) = Inl (ActiveIncident (active_incident_path []))
      \<and> (\<exists>i. load_active_incident wit_ij [] (crash (\<lambda>_. False) (\<lambda>_. []) dk1) = Inr i \<and> inc_local_hash i = [3] \<and> inc_canonical_hash i = [4])"
    using stops [OF 1(2,1)] 1(3) sec(1) by auto
  moreover have "refuse_ordinary_startup [] dk2 = Inl (ActiveIncident (active_incident_path []))
      \<and> refuse_ordinary_startup [] (crash (\<lambda>_. False) (\<lambda>_. []) dk2) = Inr ()"
    using stops [OF 2(2,1)] 2(3) sec(2) by auto
  ultimately show ?thesis using 1(1) 2(1) by blast
qed

end
