(* ===== verification/Engine_Driver.thy ===== *)
theory Engine_Driver
  imports BTree_Map "HOL-Library.Sublist"
begin

text \<open>The engine driver, \<^verbatim>\<open>crates/arb-reth-engine/src/engine.rs\<close>: reconciling messages from the feed and from L1 by
  sequence number, building a block per message on the current tip, handing it to the engine tree and settling its
  forkchoice update, and shutting the engine down. The engine tree, the payload builder and the providers belong to
  other packages: what they answer is an argument, and what the driver sends them is recorded. The payload builder's
  result is a function of the parent hash and the attributes. Timings are left out.\<close>

section \<open>Data\<close>

record 'c FeedMessage =
  fm_sequence_number :: u64
  fm_l1_timestamp :: u64
  fm_content :: 'c

record SealedHeader =
  sh_number :: u64
  sh_hash :: b256
  sh_timestamp :: u64

record 'c PayloadAttributes =
  pa_timestamp :: u64
  pa_message :: "'c FeedMessage"

record PendingAppliedBlock =
  pb_sequence_number :: u64
  pb_header :: SealedHeader

datatype 'c EngineRequest =
    AttributesFcu b256 "'c PayloadAttributes"
  | InsertExecutedBlock SealedHeader
  | HeadFcu b256

text \<open>How a forkchoice request ends: its task panicked, the response channel closed, the tree failed, the update was
  refused, or it was accepted with the id of the payload job it started, if any.\<close>

datatype FcuReply = FcuTaskPanicked | FcuChannelClosed | FcuRethError | FcuRejected | FcuAccepted "bytes option"

text \<open>How the payload builder resolves a job: it no longer knows it, the job failed, or the payload with the executed
  block it carries, if any.\<close>

datatype Resolved = JobDisappeared | JobFailed | Payload "SealedHeader option"

datatype DriverError =
    SendAttributesFailed
  | AttributesFcuFailed FcuReply
  | NoPayloadId
  | PayloadJobDisappeared
  | PayloadJobFailed
  | ExecutionOmitted
  | SendInsertFailed
  | SendFcuFailed
  | FinalFcuFailed FcuReply
  | NotCanonicalized

text \<open>One round of waiting for the head: what the provider and the canonical state say, the events already queued,
  and what the next wait returns - an event, the end of the channel or the deadline.\<close>

datatype WaitResult = WaitEvent u64 b256 | WaitEnded

record WaitRound =
  wr_block_hash :: "b256 option"
  wr_head :: "u64 \<times> b256"
  wr_events :: "(u64 \<times> b256) list"
  wr_deadline_passed :: bool
  wr_next :: WaitResult

text \<open>The answers of the outside to the driver, by sequence number of the message at work.\<close>

record 'c Env =
  en_send_attributes :: "u64 \<Rightarrow> bool"
  en_attributes_fcu :: "u64 \<Rightarrow> FcuReply"
  en_resolve :: "b256 \<Rightarrow> 'c PayloadAttributes \<Rightarrow> Resolved"
  en_send_insert :: "u64 \<Rightarrow> bool"
  en_send_fcu :: "u64 \<Rightarrow> bool"
  en_final_fcu :: "u64 \<Rightarrow> FcuReply"
  en_block_hash :: "u64 \<Rightarrow> b256 option"
  en_canonical_head :: "u64 \<Rightarrow> u64 \<times> b256"
  en_wait :: "u64 \<Rightarrow> WaitRound list"

text \<open>The driver. Beside its fields: the requests sent to the tree, the blocks that became the tip with their
  messages, and the sequence numbers reported to the caller.\<close>

record 'c Driver =
  dv_tip :: SealedHeader
  dv_pending_applied :: "PendingAppliedBlock option"
  dv_next_seq :: u64
  dv_pending :: "(u64, 'c FeedMessage) btree"
  dv_requests :: "'c EngineRequest list"
  dv_blocks :: "('c FeedMessage \<times> SealedHeader) list"
  dv_applied :: "u64 list"

definition MAX_PENDING :: nat where "MAX_PENDING = 50000"

definition Driver_new :: "SealedHeader \<Rightarrow> u64 \<Rightarrow> 'c Driver" where
  "Driver_new genesis_tip genesis_block = \<lparr>dv_tip = genesis_tip, dv_pending_applied = None,
     dv_next_seq = sat_sub (sh_number genesis_tip) genesis_block + 1, dv_pending = [], dv_requests = [],
     dv_blocks = [], dv_applied = []\<rparr>"

section \<open>Waiting for the head\<close>

fun wait_for_head :: "WaitRound list \<Rightarrow> u64 \<Rightarrow> b256 \<Rightarrow> bool" where
  "wait_for_head [] bn expected_hash = False"
| "wait_for_head (r # rs) bn expected_hash =
     (if wr_block_hash r = Some expected_hash then True
      else if wr_head r = (bn, expected_hash) then True
      else if (bn, expected_hash) \<in> set (wr_events r) then True
      else if wr_deadline_passed r then False
      else case wr_next r of
        WaitEnded \<Rightarrow> False
      | WaitEvent number hash \<Rightarrow> if number = bn \<and> hash = expected_hash then True else wait_for_head rs bn expected_hash)"

section \<open>Applying one message\<close>

definition settle_pending_applied :: "'c Env \<Rightarrow> 'c Driver \<Rightarrow> 'c Driver \<times> (DriverError + u64 option)" where
  "settle_pending_applied env d = (case dv_pending_applied d of
       None \<Rightarrow> (d, Inr None)
     | Some pending \<Rightarrow>
         let d = d\<lparr>dv_pending_applied := None\<rparr>; seq = pb_sequence_number pending; h = pb_header pending in
         (case en_final_fcu env seq of
            FcuAccepted _ \<Rightarrow>
              let was_observable = (en_block_hash env seq = Some (sh_hash h) \<or> en_canonical_head env seq = (sh_number h, sh_hash h)) in
              if was_observable \<or> wait_for_head (en_wait env seq) (sh_number h) (sh_hash h) then (d, Inr (Some seq))
              else (d, Inl NotCanonicalized)
          | failed \<Rightarrow> (d, Inl (FinalFcuFailed failed))))"

definition native_payload_attributes :: "'c Driver \<Rightarrow> 'c FeedMessage \<Rightarrow> 'c PayloadAttributes" where
  "native_payload_attributes d msg = \<lparr>pa_timestamp = max (fm_l1_timestamp msg) (sh_timestamp (dv_tip d)), pa_message = msg\<rparr>"

definition send :: "'c EngineRequest \<Rightarrow> 'c Driver \<Rightarrow> 'c Driver" where
  "send r d = d\<lparr>dv_requests := dv_requests d @ [r]\<rparr>"

definition queue_applied_block :: "'c Env \<Rightarrow> u64 \<Rightarrow> 'c FeedMessage \<Rightarrow> SealedHeader \<Rightarrow> 'c Driver \<Rightarrow> 'c Driver \<times> (DriverError + b256)" where
  "queue_applied_block env sequence_number msg built d =
     (if \<not> en_send_insert env sequence_number then (d, Inl SendInsertFailed)
      else
        let d = send (InsertExecutedBlock built) d in
        if \<not> en_send_fcu env sequence_number then (d, Inl SendFcuFailed)
        else
          let d = send (HeadFcu (sh_hash built)) d in
          (d\<lparr>dv_tip := built, dv_pending_applied := Some \<lparr>pb_sequence_number = sequence_number, pb_header = built\<rparr>,
             dv_blocks := dv_blocks d @ [(msg, built)]\<rparr>, Inr (sh_hash built)))"

text \<open>From the reply to the attributes to the executed block.\<close>

definition await_payload :: "'c Env \<Rightarrow> u64 \<Rightarrow> b256 \<Rightarrow> 'c PayloadAttributes \<Rightarrow> DriverError + SealedHeader" where
  "await_payload env sequence_number parent attributes = (case en_attributes_fcu env sequence_number of
       FcuAccepted None \<Rightarrow> Inl NoPayloadId
     | FcuAccepted (Some _) \<Rightarrow> (case en_resolve env parent attributes of
           JobDisappeared \<Rightarrow> Inl PayloadJobDisappeared
         | JobFailed \<Rightarrow> Inl PayloadJobFailed
         | Payload None \<Rightarrow> Inl ExecutionOmitted
         | Payload (Some built) \<Rightarrow> Inr built)
     | failed \<Rightarrow> Inl (AttributesFcuFailed failed))"

definition apply_one_native :: "'c Env \<Rightarrow> u64 \<Rightarrow> 'c FeedMessage \<Rightarrow> 'c Driver \<Rightarrow> 'c Driver \<times> (DriverError + b256 \<times> u64 option)" where
  "apply_one_native env sequence_number msg d =
     (let parent = sh_hash (dv_tip d); attributes = native_payload_attributes d msg in
      if \<not> en_send_attributes env sequence_number then (d, Inl SendAttributesFailed)
      else case settle_pending_applied env (send (AttributesFcu parent attributes) d) of
        (d, Inl e) \<Rightarrow> (d, Inl e)
      | (d, Inr completed_previous) \<Rightarrow> (case await_payload env sequence_number parent attributes of
            Inl e \<Rightarrow> (d, Inl e)
          | Inr built \<Rightarrow> (case queue_applied_block env sequence_number msg built d of
                (d, Inl e) \<Rightarrow> (d, Inl e)
              | (d, Inr new_hash) \<Rightarrow> (d, Inr (new_hash, completed_previous)))))"

text \<open>The caller's callback.\<close>

definition on_applied :: "u64 option \<Rightarrow> 'c Driver \<Rightarrow> 'c Driver" where
  "on_applied completed d = (case completed of None \<Rightarrow> d | Some s \<Rightarrow> d\<lparr>dv_applied := dv_applied d @ [s]\<rparr>)"

definition settle_and_report :: "'c Env \<Rightarrow> 'c Driver \<Rightarrow> 'c Driver \<times> (DriverError + unit)" where
  "settle_and_report env d = (case settle_pending_applied env d of
     (d, Inl e) \<Rightarrow> (d, Inl e) | (d, Inr completed) \<Rightarrow> (on_applied completed d, Inr ()))"

definition apply_and_report :: "'c Env \<Rightarrow> u64 \<Rightarrow> 'c FeedMessage \<Rightarrow> 'c Driver \<Rightarrow> 'c Driver \<times> (DriverError + b256)" where
  "apply_and_report env seq msg d = (case apply_one_native env seq msg d of
     (d, Inl e) \<Rightarrow> (d, Inl e)
   | (d, Inr (hash, completed)) \<Rightarrow> ((on_applied completed d)\<lparr>dv_next_seq := dv_next_seq d + 1\<rparr>, Inr hash))"

section \<open>Reconciling messages\<close>

lemma settle_pending: "settle_pending_applied env d = (d', r) \<Longrightarrow> dv_pending d' = dv_pending d"
  by (auto simp: settle_pending_applied_def Let_def split: option.splits if_splits FcuReply.splits)

lemma apply_and_report_pending: "apply_and_report env seq msg d = (d', r) \<Longrightarrow> dv_pending d' = dv_pending d"
  by (auto simp: apply_and_report_def apply_one_native_def queue_applied_block_def on_applied_def send_def Let_def
      dest!: settle_pending split: option.splits if_splits prod.splits sum.splits)

lemma length_bt_remove: "bt_get k m = Some v \<Longrightarrow> length (bt_remove k m) < length m"
  by (auto simp: bt_get_def bt_remove_def bt_retain_def dest!: map_of_SomeD intro!: length_filter_less)

function drain :: "'c Env \<Rightarrow> b256 \<Rightarrow> 'c Driver \<Rightarrow> 'c Driver \<times> (DriverError + b256)" where
  "drain env hash d = (case bt_get (dv_next_seq d) (dv_pending d) of
       None \<Rightarrow> (d, Inr hash)
     | Some buffered \<Rightarrow>
         (case apply_and_report env (dv_next_seq d) buffered (d\<lparr>dv_pending := bt_remove (dv_next_seq d) (dv_pending d)\<rparr>) of
            (d, Inl e) \<Rightarrow> (d, Inl e)
          | (d, Inr hash) \<Rightarrow> drain env hash d))"
  by pat_completeness auto

termination drain
  by (relation "measure (\<lambda>(env, hash, d). length (dv_pending d))")
    (auto dest!: apply_and_report_pending [OF sym] intro: length_bt_remove)

declare drain.simps [simp del]

definition advance_with_applied_inner :: "'c Env \<Rightarrow> 'c FeedMessage \<Rightarrow> bool \<Rightarrow> 'c Driver \<Rightarrow> 'c Driver \<times> (DriverError + b256)" where
  "advance_with_applied_inner env msg defer_tail d =
     (let seq = fm_sequence_number msg in
      if seq < dv_next_seq d then (case settle_and_report env d of
          (d, Inl e) \<Rightarrow> (d, Inl e) | (d, Inr _) \<Rightarrow> (d, Inr (sh_hash (dv_tip d))))
      else if seq > dv_next_seq d then
        let d = (if length (dv_pending d) < MAX_PENDING then d\<lparr>dv_pending := bt_insert seq msg (dv_pending d)\<rparr> else d) in
        (case settle_and_report env d of
          (d, Inl e) \<Rightarrow> (d, Inl e) | (d, Inr _) \<Rightarrow> (d, Inr (sh_hash (dv_tip d))))
      else case apply_and_report env seq msg d of
          (d, Inl e) \<Rightarrow> (d, Inl e)
        | (d, Inr hash) \<Rightarrow> (case drain env hash d of
              (d, Inl e) \<Rightarrow> (d, Inl e)
            | (d, Inr hash) \<Rightarrow> (case (if defer_tail then (d, Inr ()) else settle_and_report env d) of
                  (d, Inl e) \<Rightarrow> (d, Inl e)
                | (d, Inr _) \<Rightarrow> (d\<lparr>dv_pending := bt_retain (\<lambda>k. dv_next_seq d \<le> k) (dv_pending d)\<rparr>, Inr hash))))"

definition advance :: "'c Env \<Rightarrow> 'c FeedMessage \<Rightarrow> 'c Driver \<Rightarrow> 'c Driver \<times> (DriverError + b256)" where
  "advance env msg d = advance_with_applied_inner env msg False d"

text \<open>A run of the driver: messages in the order its callers pass them, until one fails.\<close>

fun run_driver :: "('c Env \<times> 'c FeedMessage \<times> bool) list \<Rightarrow> 'c Driver \<Rightarrow> 'c Driver \<times> DriverError option" where
  "run_driver [] d = (d, None)"
| "run_driver ((env, msg, defer_tail) # calls) d = (case advance_with_applied_inner env msg defer_tail d of
     (d, Inl e) \<Rightarrow> (d, Some e) | (d, Inr _) \<Rightarrow> run_driver calls d)"

section \<open>Shutdown\<close>

datatype ShutdownError =
    TerminationChannelClosed
  | TimedOut nat u64
  | PersistenceProxyThreadPanicked
  | PersistenceProxyJoinCancelled
  | EventDrainTaskPanicked
  | EventDrainTaskCancelled
  | PayloadServiceThreadPanicked
  | PayloadServiceJoinCancelled
  | Aggregate ShutdownError "ShutdownError list"

definition aggregate :: "ShutdownError list \<Rightarrow> ShutdownError + unit" where
  "aggregate errors = (case errors of
       [] \<Rightarrow> Inr ()
     | [e] \<Rightarrow> Inl e
     | primary # secondary \<Rightarrow> Inl (Aggregate primary secondary))"

text \<open>The guard that asks the tree to terminate at most once; the count is of requests sent.\<close>

record TerminationGuard =
  tg_requested :: bool
  tg_sent :: nat

definition guard_new :: TerminationGuard where
  "guard_new = \<lparr>tg_requested = False, tg_sent = 0\<rparr>"

definition guard_request :: "bool \<Rightarrow> TerminationGuard \<Rightarrow> TerminationGuard \<times> (ShutdownError + unit)" where
  "guard_request channel_open g =
     (if tg_requested g then (g, Inl TerminationChannelClosed)
      else let g = g\<lparr>tg_requested := True\<rparr> in
        if channel_open then (g\<lparr>tg_sent := tg_sent g + 1\<rparr>, Inr ()) else (g, Inl TerminationChannelClosed))"

definition guard_drop :: "bool \<Rightarrow> TerminationGuard \<Rightarrow> TerminationGuard" where
  "guard_drop channel_open g = fst (guard_request channel_open g)"

datatype Ack = Acked | AckDropped | AckTimeout

definition shutdown_engine_tree :: "bool \<Rightarrow> Ack \<Rightarrow> u64 \<Rightarrow> nat \<Rightarrow> TerminationGuard \<Rightarrow> TerminationGuard \<times> (ShutdownError + unit)" where
  "shutdown_engine_tree channel_open ack target_block timeout g = (case guard_request channel_open g of
       (g, Inl e) \<Rightarrow> (g, Inl e)
     | (g, Inr _) \<Rightarrow> (g, case ack of Acked \<Rightarrow> Inr () | AckDropped \<Rightarrow> Inl TerminationChannelClosed | AckTimeout \<Rightarrow> Inl (TimedOut timeout target_block)))"

datatype JoinResult = Joined | Panicked | JoinCancelled

definition join_persistence :: "JoinResult option \<Rightarrow> ShutdownError list" where
  "join_persistence r = (case r of None \<Rightarrow> [] | Some Joined \<Rightarrow> [] | Some Panicked \<Rightarrow> [PersistenceProxyThreadPanicked] 
     | Some JoinCancelled \<Rightarrow> [PersistenceProxyJoinCancelled])"

definition join_event_drain :: "JoinResult option \<Rightarrow> ShutdownError list" where
  "join_event_drain r = (case r of None \<Rightarrow> [] | Some Joined \<Rightarrow> [] | Some Panicked \<Rightarrow> [EventDrainTaskPanicked] 
     | Some JoinCancelled \<Rightarrow> [EventDrainTaskCancelled])"

definition join_payload_service :: "JoinResult option \<Rightarrow> ShutdownError list" where
  "join_payload_service r = (case r of None \<Rightarrow> [] | Some Joined \<Rightarrow> [] | Some Panicked \<Rightarrow> [PayloadServiceThreadPanicked] 
     | Some JoinCancelled \<Rightarrow> [PayloadServiceJoinCancelled])"

definition TREE_ACK_TIMEOUT :: nat where "TREE_ACK_TIMEOUT = 10000"

text \<open>Every resource is joined whatever failed before; the guard is dropped after its sender.\<close>

definition shutdown :: "bool \<Rightarrow> Ack \<Rightarrow> JoinResult option \<Rightarrow> JoinResult option \<Rightarrow> JoinResult option \<Rightarrow> u64 \<Rightarrow> TerminationGuard
    \<Rightarrow> TerminationGuard \<times> (ShutdownError + unit)" where
  "shutdown channel_open ack persistence events payload tip_number g =
     (let (g, tree) = shutdown_engine_tree channel_open ack tip_number TREE_ACK_TIMEOUT g;
          g = guard_drop channel_open g
      in (g, aggregate ((case tree of Inl e \<Rightarrow> [e] | Inr _ \<Rightarrow> []) @ join_persistence persistence @ join_event_drain events
            @ join_payload_service payload)))"

section \<open>The chain the driver builds\<close>

fun chain :: "(b256 \<Rightarrow> 'c PayloadAttributes \<Rightarrow> Resolved) \<Rightarrow> SealedHeader \<Rightarrow> ('c FeedMessage \<times> SealedHeader) list \<Rightarrow> bool" where
  "chain build tip [] \<longleftrightarrow> True"
| "chain build tip ((msg, block) # blocks) \<longleftrightarrow>
     build (sh_hash tip) \<lparr>pa_timestamp = max (fm_l1_timestamp msg) (sh_timestamp tip), pa_message = msg\<rparr> = Payload (Some block)
     \<and> chain build block blocks"

fun chain_tip :: "SealedHeader \<Rightarrow> ('c FeedMessage \<times> SealedHeader) list \<Rightarrow> SealedHeader" where
  "chain_tip tip [] = tip"
| "chain_tip tip ((msg, block) # blocks) = chain_tip block blocks"

fun chain_requests :: "SealedHeader \<Rightarrow> ('c FeedMessage \<times> SealedHeader) list \<Rightarrow> 'c EngineRequest list" where
  "chain_requests tip [] = []"
| "chain_requests tip ((msg, block) # blocks) =
     [AttributesFcu (sh_hash tip) \<lparr>pa_timestamp = max (fm_l1_timestamp msg) (sh_timestamp tip), pa_message = msg\<rparr>,
      InsertExecutedBlock block, HeadFcu (sh_hash block)] @ chain_requests block blocks"

abbreviation sequences :: "('c FeedMessage \<times> SealedHeader) list \<Rightarrow> u64 list" where
  "sequences blocks \<equiv> map (fm_sequence_number \<circ> fst) blocks"

definition outstanding :: "'c Driver \<Rightarrow> u64 list" where
  "outstanding d = (case dv_pending_applied d of None \<Rightarrow> [] | Some p \<Rightarrow> [pb_sequence_number p])"

text \<open>The buffer and the blocks hold messages that were passed in, the buffer under their own sequence number.\<close>

definition sourced :: "'c FeedMessage set \<Rightarrow> 'c Driver \<Rightarrow> bool" where
  "sourced M d \<longleftrightarrow> (\<forall>k v. bt_get k (dv_pending d) = Some v \<longrightarrow> fm_sequence_number v = k \<and> v \<in> M) \<and> fst ` set (dv_blocks d) \<subseteq> M"

text \<open>The buffer holds exactly the sequence numbers passed in that are not below the cursor.\<close>

definition buffers :: "'c FeedMessage set \<Rightarrow> 'c Driver \<Rightarrow> bool" where
  "buffers M d \<longleftrightarrow> (\<forall>k. bt_get k (dv_pending d) \<noteq> None \<longleftrightarrow> k \<in> fm_sequence_number ` M \<and> dv_next_seq d \<le> k)"

text \<open>The blocks form a chain from the starting tip, one per sequence number from the first one on.\<close>

definition linked :: "(b256 \<Rightarrow> 'c PayloadAttributes \<Rightarrow> Resolved) \<Rightarrow> SealedHeader \<Rightarrow> u64 \<Rightarrow> 'c Driver \<Rightarrow> bool" where
  "linked build tip0 n0 d \<longleftrightarrow> chain build tip0 (dv_blocks d) \<and> dv_tip d = chain_tip tip0 (dv_blocks d)
     \<and> sequences (dv_blocks d) = map (\<lambda>i. n0 + of_nat i) [0..<length (dv_blocks d)]
     \<and> dv_next_seq d = n0 + of_nat (length (dv_blocks d))"

text \<open>Every block was reported to the caller or is the one awaiting its forkchoice update, and the tree got the
  requests of each block in order.\<close>

definition accounted :: "SealedHeader \<Rightarrow> 'c Driver \<Rightarrow> bool" where
  "accounted tip0 d \<longleftrightarrow> dv_applied d @ outstanding d = sequences (dv_blocks d) \<and> dv_requests d = chain_requests tip0 (dv_blocks d)"

text \<open>What an error leaves of it.\<close>

definition accounted_upto :: "SealedHeader \<Rightarrow> 'c Driver \<Rightarrow> bool" where
  "accounted_upto tip0 d \<longleftrightarrow> prefix (dv_applied d) (sequences (dv_blocks d)) \<and> prefix (chain_requests tip0 (dv_blocks d)) (dv_requests d)"

lemma chain_append: "chain build tip (xs @ ys) \<longleftrightarrow> chain build tip xs \<and> chain build (chain_tip tip xs) ys"
  by (induction build tip xs rule: chain.induct) auto

lemma chain_tip_append: "chain_tip tip (xs @ ys) = chain_tip (chain_tip tip xs) ys"
  by (induction tip xs rule: chain_tip.induct) auto

lemma chain_requests_append: "chain_requests tip (xs @ ys) = chain_requests tip xs @ chain_requests (chain_tip tip xs) ys"
  by (induction tip xs rule: chain_requests.induct) auto

lemma settle_pending_applied_cases:
  "settle_pending_applied env d = (d\<lparr>dv_pending_applied := None\<rparr>, Inr (map_option pb_sequence_number (dv_pending_applied d)))
   \<or> (\<exists>e. settle_pending_applied env d = (d\<lparr>dv_pending_applied := None\<rparr>, Inl e))"
  by (cases "dv_pending_applied d") (auto simp: settle_pending_applied_def Let_def split: FcuReply.splits)

lemma settle_pending_applied_ok:
  assumes "settle_pending_applied env d = (d', Inr c)"
  shows "d' = d\<lparr>dv_pending_applied := None\<rparr>" and "c = map_option pb_sequence_number (dv_pending_applied d)"
  using settle_pending_applied_cases [of env d] assms by auto

lemma settle_pending_applied_err:
  assumes "settle_pending_applied env d = (d', Inl e)"
  shows "d' = d\<lparr>dv_pending_applied := None\<rparr>"
  using settle_pending_applied_cases [of env d] assms by auto

lemma on_applied_outstanding:
  "on_applied (map_option pb_sequence_number (dv_pending_applied d)) d' = d'\<lparr>dv_applied := dv_applied d' @ outstanding d\<rparr>"
  by (simp add: on_applied_def outstanding_def split: option.split)

lemma settle_and_report_ok:
  assumes "settle_and_report env d = (d', Inr u)"
  shows "d' = d\<lparr>dv_pending_applied := None, dv_applied := dv_applied d @ outstanding d\<rparr>"
proof -
  obtain d1 c where s: "settle_pending_applied env d = (d1, Inr c)"
    and d': "d' = on_applied c d1"
    using assms by (auto simp: settle_and_report_def split: prod.splits sum.splits)
  show ?thesis
    unfolding d' settle_pending_applied_ok [OF s] on_applied_outstanding by simp
qed

lemma settle_and_report_err:
  assumes "settle_and_report env d = (d', Inl e)"
  shows "d' = d\<lparr>dv_pending_applied := None\<rparr>"
  using assms by (auto simp: settle_and_report_def dest: settle_pending_applied_err split: prod.splits sum.splits)

lemma await_payload_ok:
  assumes "await_payload env seq parent attributes = Inr block"
  shows "en_resolve env parent attributes = Payload (Some block)"
  using assms by (auto simp: await_payload_def split: FcuReply.splits Resolved.splits option.splits)

lemma queue_applied_block_ok:
  assumes "queue_applied_block env seq msg block d = (d', Inr hash)"
  shows "d' = d\<lparr>dv_tip := block, dv_pending_applied := Some \<lparr>pb_sequence_number = seq, pb_header = block\<rparr>,
      dv_requests := dv_requests d @ [InsertExecutedBlock block, HeadFcu (sh_hash block)],
      dv_blocks := dv_blocks d @ [(msg, block)]\<rparr>" and "hash = sh_hash block"
  using assms by (auto simp: queue_applied_block_def send_def Let_def split: if_splits)

lemma queue_applied_block_err:
  assumes "queue_applied_block env seq msg block d = (d', Inl e)"
  shows "\<exists>rs. d' = d\<lparr>dv_requests := dv_requests d @ rs\<rparr>"
proof (cases "en_send_insert env seq")
  case True
  then show ?thesis using assms by (auto simp: queue_applied_block_def send_def Let_def split: if_splits)
next
  case False
  then have "d' = d\<lparr>dv_requests := dv_requests d @ []\<rparr>" using assms by (simp add: queue_applied_block_def)
  then show ?thesis by blast
qed

lemma apply_and_report_ok:
  assumes "apply_and_report env seq msg d = (d', Inr hash)"
  obtains block where "en_resolve env (sh_hash (dv_tip d)) (native_payload_attributes d msg) = Payload (Some block)"
    and "d' = d\<lparr>dv_tip := block, dv_pending_applied := Some \<lparr>pb_sequence_number = seq, pb_header = block\<rparr>,
      dv_next_seq := dv_next_seq d + 1,
      dv_requests := dv_requests d @ [AttributesFcu (sh_hash (dv_tip d)) (native_payload_attributes d msg), InsertExecutedBlock block, HeadFcu (sh_hash block)],
      dv_blocks := dv_blocks d @ [(msg, block)], dv_applied := dv_applied d @ outstanding d\<rparr>"
    and "hash = sh_hash block"
proof -
  let ?s = "send (AttributesFcu (sh_hash (dv_tip d)) (native_payload_attributes d msg)) d"
  obtain d1 c block d2 where s: "settle_pending_applied env ?s = (d1, Inr c)"
    and r: "await_payload env seq (sh_hash (dv_tip d)) (native_payload_attributes d msg) = Inr block"
    and q: "queue_applied_block env seq msg block d1 = (d2, Inr hash)"
    and d': "d' = (on_applied c d2)\<lparr>dv_next_seq := dv_next_seq d2 + 1\<rparr>"
    using assms by (auto simp: apply_and_report_def apply_one_native_def Let_def split: prod.splits sum.splits if_splits)
  have o: "outstanding ?s = outstanding d" by (simp add: outstanding_def send_def)
  show ?thesis
  proof (rule that [OF await_payload_ok [OF r] _ queue_applied_block_ok(2) [OF q]])
  qed (simp add: d' queue_applied_block_ok(1) [OF q] settle_pending_applied_ok [OF s] on_applied_outstanding o,
      simp add: send_def)
qed

lemma apply_and_report_err:
  assumes "apply_and_report env seq msg d = (d', Inl e)"
  shows "\<exists>rs p. d' = d\<lparr>dv_pending_applied := p, dv_requests := dv_requests d @ rs\<rparr>"
proof -
  let ?s = "send (AttributesFcu (sh_hash (dv_tip d)) (native_payload_attributes d msg)) d"
  consider "d' = d" | "settle_pending_applied env ?s = (d', Inl e)" | c where "settle_pending_applied env ?s = (d', Inr c)"
    | d1 c block where "settle_pending_applied env ?s = (d1, Inr c)" "queue_applied_block env seq msg block d1 = (d', Inl e)"
    using assms by (auto simp: apply_and_report_def apply_one_native_def Let_def split: prod.splits sum.splits if_splits)
  then show ?thesis
  proof cases
    case 1
    then have "d' = d\<lparr>dv_pending_applied := dv_pending_applied d, dv_requests := dv_requests d @ []\<rparr>" by simp
    then show ?thesis by blast
  next
    case 2
    then have "d' = d\<lparr>dv_pending_applied := None, dv_requests := dv_requests d @ [AttributesFcu (sh_hash (dv_tip d)) (native_payload_attributes d msg)]\<rparr>"
      using settle_pending_applied_err [OF 2] by (simp add: send_def)
    then show ?thesis by blast
  next
    case 3
    then have "d' = d\<lparr>dv_pending_applied := None, dv_requests := dv_requests d @ [AttributesFcu (sh_hash (dv_tip d)) (native_payload_attributes d msg)]\<rparr>"
      using settle_pending_applied_ok(1) [OF 3] by (simp add: send_def)
    then show ?thesis by blast
  next
    case 4
    then obtain rs where "d' = d\<lparr>dv_pending_applied := None,
        dv_requests := dv_requests d @ AttributesFcu (sh_hash (dv_tip d)) (native_payload_attributes d msg) # rs\<rparr>"
      by (auto dest!: settle_pending_applied_ok(1) queue_applied_block_err simp: send_def)
    then show ?thesis by blast
  qed
qed

lemma apply_linked:
  assumes d: "linked build tip0 n0 d" "accounted tip0 d" and "en_resolve env = build" and "fm_sequence_number msg = dv_next_seq d"
    and a: "apply_and_report env (dv_next_seq d) msg d = (d', Inr hash)"
  shows "linked build tip0 n0 d'" and "accounted tip0 d'" and "\<exists>block. dv_blocks d' = dv_blocks d @ [(msg, block)]"
proof -
  obtain block where b: "build (sh_hash (dv_tip d)) (native_payload_attributes d msg) = Payload (Some block)"
    and d': "d' = d\<lparr>dv_tip := block, dv_pending_applied := Some \<lparr>pb_sequence_number = dv_next_seq d, pb_header = block\<rparr>,
      dv_next_seq := dv_next_seq d + 1,
      dv_requests := dv_requests d @ [AttributesFcu (sh_hash (dv_tip d)) (native_payload_attributes d msg), InsertExecutedBlock block, HeadFcu (sh_hash block)],
      dv_blocks := dv_blocks d @ [(msg, block)], dv_applied := dv_applied d @ outstanding d\<rparr>"
    using apply_and_report_ok [OF a] assms(3) by metis
  show "linked build tip0 n0 d'"
    using d(1) b assms(4) by (simp add: d' linked_def chain_append chain_tip_append native_payload_attributes_def)
  show "accounted tip0 d'"
    using d b assms(4) by (simp add: d' linked_def accounted_def outstanding_def chain_requests_append native_payload_attributes_def)
  show "\<exists>block. dv_blocks d' = dv_blocks d @ [(msg, block)]"
    by (simp add: d')
qed

lemma accounted_uptoI:
  assumes "accounted tip0 d" and "dv_blocks d' = dv_blocks d" and "dv_applied d' = dv_applied d" and "prefix (dv_requests d) (dv_requests d')"
  shows "accounted_upto tip0 d'"
  using assms prefixI [of "sequences (dv_blocks d)" "dv_applied d" "outstanding d"] by (simp add: accounted_def accounted_upto_def)

lemma accounted_accounted_upto: "accounted tip0 d \<Longrightarrow> accounted_upto tip0 d"
  using accounted_uptoI [of tip0 d d] by simp

lemma apply_linked_err:
  assumes "linked build tip0 n0 d" "accounted tip0 d" and a: "apply_and_report env seq msg d = (d', Inl e)"
  shows "linked build tip0 n0 d'" and "accounted_upto tip0 d'" and "dv_blocks d' = dv_blocks d"
proof -
  obtain rs p where d': "d' = d\<lparr>dv_pending_applied := p, dv_requests := dv_requests d @ rs\<rparr>"
    using apply_and_report_err [OF a] by blast
  show "linked build tip0 n0 d'" and "dv_blocks d' = dv_blocks d"
    using assms(1) by (simp_all add: d' linked_def)
  show "accounted_upto tip0 d'"
    by (rule accounted_uptoI [OF assms(2)]) (simp_all add: d')
qed

lemma settle_linked:
  assumes "linked build tip0 n0 d" "accounted tip0 d" and s: "settle_and_report env d = (d', r)"
  shows "linked build tip0 n0 d'" and "accounted_upto tip0 d'" and "r = Inr u \<Longrightarrow> accounted tip0 d'"
    and "dv_blocks d' = dv_blocks d" and "dv_pending d' = dv_pending d" and "dv_next_seq d' = dv_next_seq d"
proof -
  consider e where "r = Inl e" "d' = d\<lparr>dv_pending_applied := None\<rparr>"
    | "r = Inr ()" "d' = d\<lparr>dv_pending_applied := None, dv_applied := dv_applied d @ outstanding d\<rparr>"
    using s by (cases r) (auto dest: settle_and_report_ok settle_and_report_err)
  then have "linked build tip0 n0 d' \<and> accounted_upto tip0 d' \<and> (r = Inr u \<longrightarrow> accounted tip0 d') \<and> dv_blocks d' = dv_blocks d
      \<and> dv_pending d' = dv_pending d \<and> dv_next_seq d' = dv_next_seq d"
  proof cases
    case 1
    then show ?thesis using assms(1) accounted_uptoI [OF assms(2), of d'] by (simp add: linked_def prefix_def)
  next
    case 2
    then have "accounted tip0 d'" using assms(2) by (simp add: accounted_def outstanding_def)
    then show ?thesis using 2 assms(1) accounted_accounted_upto by (simp add: linked_def)
  qed
  then show "linked build tip0 n0 d'" and "accounted_upto tip0 d'" and "r = Inr u \<Longrightarrow> accounted tip0 d'"
    and "dv_blocks d' = dv_blocks d" and "dv_pending d' = dv_pending d" and "dv_next_seq d' = dv_next_seq d"
    by simp_all
qed

lemma drain_linked:
  assumes "drain env hash d = (d', r)" and "en_resolve env = build"
    and "linked build tip0 n0 d" and "accounted tip0 d" and "sourced M d"
  shows "linked build tip0 n0 d' \<and> accounted_upto tip0 d' \<and> fst ` set (dv_blocks d') \<subseteq> M
    \<and> (\<not> isl r \<longrightarrow> accounted tip0 d' \<and> sourced M d' \<and> bt_get (dv_next_seq d') (dv_pending d') = None)"
  using assms
proof (induction env hash d rule: drain.induct)
  case (1 env hash d)
  show ?case
  proof (cases "bt_get (dv_next_seq d) (dv_pending d)")
    case None
    then show ?thesis using "1.prems" accounted_accounted_upto by (simp add: drain.simps [of env hash d] sourced_def)
  next
    case (Some msg)
    let ?d = "d\<lparr>dv_pending := bt_remove (dv_next_seq d) (dv_pending d)\<rparr>"
    obtain d1 r1 where a: "apply_and_report env (dv_next_seq d) msg ?d = (d1, r1)" by fastforce
    have d: "linked build tip0 n0 ?d" "accounted tip0 ?d" "sourced M ?d" "fm_sequence_number msg = dv_next_seq ?d" "msg \<in> M"
      using "1.prems"(3,4,5) Some by (auto simp: linked_def accounted_def outstanding_def sourced_def bt_get_remove split: if_splits)
    show ?thesis
    proof (cases r1)
      case (Inl e)
      then show ?thesis
        using "1.prems"(1) Some a apply_linked_err [OF d(1,2) a [unfolded Inl]] d(3)
        by (auto simp: drain.simps [of env hash d] sourced_def)
    next
      case (Inr hash1)
      then have a1: "apply_and_report env (dv_next_seq ?d) msg ?d = (d1, Inr hash1)" using a by simp
      note l = apply_linked [OF d(1,2) "1.prems"(2) d(4) a1]
      have "sourced M d1"
        using d(3,5) l(3) apply_and_report_pending [OF a1] by (auto simp: sourced_def image_subset_iff)
      then show ?thesis
        using "1.IH" [OF Some a [symmetric] Inr _ "1.prems"(2) l(1,2)] "1.prems"(1) Some a Inr
        by (simp add: drain.simps [of env hash d])
    qed
  qed
qed

lemma word_Suc_le_iff: "n < - 1 \<Longrightarrow> n + 1 \<le> k \<longleftrightarrow> n \<le> k \<and> k \<noteq> n" for n :: u64
  using unat_Suc_less [of n "- 1"] by (auto simp: word_le_nat_alt word_unat_eq_iff)

lemma drain_buffers:
  assumes "drain env hash d = (d', Inr hash')" and "buffers M d" and "\<forall>m \<in> M. fm_sequence_number m < - 1"
  shows "buffers M d'"
  using assms
proof (induction env hash d rule: drain.induct)
  case (1 env hash d)
  show ?case
  proof (cases "bt_get (dv_next_seq d) (dv_pending d)")
    case None
    then show ?thesis using "1.prems" by (simp add: drain.simps [of env hash d])
  next
    case (Some msg)
    let ?d = "d\<lparr>dv_pending := bt_remove (dv_next_seq d) (dv_pending d)\<rparr>"
    obtain d1 hash1 where a: "apply_and_report env (dv_next_seq d) msg ?d = (d1, Inr hash1)"
      and r: "drain env hash1 d1 = (d', Inr hash')"
      using "1.prems"(1) Some by (auto simp: drain.simps [of env hash d] split: prod.splits sum.splits)
    have n: "dv_next_seq d1 = dv_next_seq d + 1" by (rule apply_and_report_ok [OF a]) simp
    have p: "dv_pending d1 = bt_remove (dv_next_seq d) (dv_pending d)" using apply_and_report_pending [OF a] by simp
    have "dv_next_seq d \<in> fm_sequence_number ` M" using "1.prems"(2) Some unfolding buffers_def by (metis option.distinct(1))
    then have "dv_next_seq d < - 1" using "1.prems"(3) by auto
    then have "buffers M d1" using "1.prems"(2) by (auto simp: buffers_def n p bt_get_remove word_Suc_le_iff)
    then show ?thesis using "1.IH" [OF Some a [symmetric] refl r] "1.prems"(3) by simp
  qed
qed

lemma sourced_mono: "sourced M d \<Longrightarrow> sourced (insert msg M) d"
  by (auto simp: sourced_def)

text \<open>The three branches of the reconciliation.\<close>

lemma advance_cases:
  assumes "advance_with_applied_inner env msg defer_tail d = (d', r)"
  obtains (old) r1 where "fm_sequence_number msg < dv_next_seq d" "settle_and_report env d = (d', r1)" "isl r \<longleftrightarrow> isl r1"
  | (ahead) d1 r1 where "dv_next_seq d < fm_sequence_number msg"
      "d1 = (if length (dv_pending d) < MAX_PENDING then d\<lparr>dv_pending := bt_insert (fm_sequence_number msg) msg (dv_pending d)\<rparr> else d)"
      "settle_and_report env d1 = (d', r1)" "isl r \<longleftrightarrow> isl r1"
  | (failed) e where "fm_sequence_number msg = dv_next_seq d" "apply_and_report env (dv_next_seq d) msg d = (d', Inl e)" "isl r"
  | (drain_failed) d1 hash1 e where "fm_sequence_number msg = dv_next_seq d"
      "apply_and_report env (dv_next_seq d) msg d = (d1, Inr hash1)" "drain env hash1 d1 = (d', Inl e)" "isl r"
  | (settle_failed) d1 hash1 d2 hash2 e where "fm_sequence_number msg = dv_next_seq d"
      "apply_and_report env (dv_next_seq d) msg d = (d1, Inr hash1)" "drain env hash1 d1 = (d2, Inr hash2)"
      "settle_and_report env d2 = (d', Inl e)" "isl r"
  | (applied) d1 hash1 d2 hash2 d3 where "fm_sequence_number msg = dv_next_seq d"
      "apply_and_report env (dv_next_seq d) msg d = (d1, Inr hash1)" "drain env hash1 d1 = (d2, Inr hash2)"
      "d3 = d2 \<or> settle_and_report env d2 = (d3, Inr ())"
      "d' = d3\<lparr>dv_pending := bt_retain (\<lambda>k. dv_next_seq d3 \<le> k) (dv_pending d3)\<rparr>" "\<not> isl r"
proof -
  consider "fm_sequence_number msg < dv_next_seq d" | "dv_next_seq d < fm_sequence_number msg" | "fm_sequence_number msg = dv_next_seq d"
    by fastforce
  then show thesis
  proof cases
    case 1
    then show thesis using assms old by (auto simp: advance_with_applied_inner_def split: prod.splits sum.splits)
  next
    case 2
    then have "\<not> fm_sequence_number msg < dv_next_seq d" by simp
    then show thesis
      using 2 assms ahead [OF 2 refl] by (auto simp: advance_with_applied_inner_def Let_def split: prod.splits sum.splits)
  next
    case 3
    obtain d1 r1 where a: "apply_and_report env (dv_next_seq d) msg d = (d1, r1)" by fastforce
    obtain d2 r2 where b: "drain env (projr r1) d1 = (d2, r2)" by fastforce
    obtain d3 r3 where c: "(if defer_tail then (d2, Inr ()) else settle_and_report env d2) = (d3, r3)" by fastforce
    show thesis
    proof (cases "isl r1 \<or> isl r2 \<or> isl r3")
      case True
      then show thesis
        using assms 3 a b c failed [OF 3] drain_failed [OF 3] settle_failed [OF 3]
        by (auto simp: advance_with_applied_inner_def isl_def split: if_splits sum.splits)
    next
      case False
      then have "d3 = d2 \<or> settle_and_report env d2 = (d3, Inr ())" using c by (cases r3) (auto split: if_splits)
      moreover have "d' = d3\<lparr>dv_pending := bt_retain (\<lambda>k. dv_next_seq d3 \<le> k) (dv_pending d3)\<rparr>" "\<not> isl r"
        using False assms 3 a b c by (auto simp: advance_with_applied_inner_def isl_def split: sum.splits)
      ultimately show thesis
        using False a b by (intro applied [OF 3, of d1 "projr r1" d2 "projr r2" d3]) auto
    qed
  qed
qed

lemma applied_sourced:
  assumes "apply_and_report env seq msg d = (d', Inr hash)" and "sourced M d"
  shows "sourced (insert msg M) d'"
proof -
  obtain block where b: "dv_blocks d' = dv_blocks d @ [(msg, block)]"
    by (rule apply_and_report_ok [OF assms(1)]) simp
  show ?thesis
    using assms(2) by (auto simp: sourced_def apply_and_report_pending [OF assms(1)] b image_subset_iff)
qed

lemma advance_linked:
  assumes a: "advance_with_applied_inner env msg defer_tail d = (d', r)" and e: "en_resolve env = build"
    and d: "linked build tip0 n0 d" "accounted tip0 d" "sourced M d"
  shows "linked build tip0 n0 d' \<and> accounted_upto tip0 d' \<and> fst ` set (dv_blocks d') \<subseteq> insert msg M
    \<and> (\<not> isl r \<longrightarrow> accounted tip0 d' \<and> sourced (insert msg M) d')"
  using a
proof (cases rule: advance_cases)
  case (old r1)
  then show ?thesis using settle_linked [OF d(1,2) old(2)] d(3) by (cases r1) (auto simp: sourced_def)
next
  case (ahead d1 r1)
  have d1: "linked build tip0 n0 d1" "accounted tip0 d1"
    using d(1,2) by (simp_all add: ahead(2) linked_def accounted_def outstanding_def)
  have "sourced (insert msg M) d1"
    using d(3) by (auto simp: ahead(2) sourced_def bt_get_insert split: if_splits)
  then show ?thesis using settle_linked [OF d1(1,2) ahead(3)] ahead(4) by (cases r1) (auto simp: sourced_def)
next
  case (failed e)
  then show ?thesis using apply_linked_err [OF d(1,2) failed(2)] d(3) by (auto simp: sourced_def)
next
  case (drain_failed d1 hash1 e')
  note l = apply_linked [OF d(1,2) e drain_failed(1,2)] applied_sourced [OF drain_failed(2) d(3)]
  show ?thesis using drain_linked [OF drain_failed(3) e l(1,2,4)] drain_failed(4) by simp
next
  case (settle_failed d1 hash1 d2 hash2 e')
  note l = apply_linked [OF d(1,2) e settle_failed(1,2)] applied_sourced [OF settle_failed(2) d(3)]
  have l2: "linked build tip0 n0 d2" "accounted tip0 d2" "fst ` set (dv_blocks d2) \<subseteq> insert msg M"
    using drain_linked [OF settle_failed(3) e l(1,2,4)] by simp_all
  show ?thesis using settle_linked [OF l2(1,2) settle_failed(4)] settle_failed(5) l2(3) by simp
next
  case (applied d1 hash1 d2 hash2 d3)
  note l = apply_linked [OF d(1,2) e applied(1,2)] applied_sourced [OF applied(2) d(3)]
  have l2: "linked build tip0 n0 d2" "accounted tip0 d2" "sourced (insert msg M) d2"
    using drain_linked [OF applied(3) e l(1,2,4)] by simp_all
  have l3: "linked build tip0 n0 d3 \<and> accounted tip0 d3 \<and> sourced (insert msg M) d3"
    using applied(4)
  proof
    assume "d3 = d2"
    then show ?thesis using l2 by simp
  next
    assume s: "settle_and_report env d2 = (d3, Inr ())"
    show ?thesis using settle_linked [OF l2(1,2) s] l2(3) by (simp add: sourced_def)
  qed
  have "linked build tip0 n0 d'" "accounted tip0 d'"
    using l3 by (simp_all add: applied(5) linked_def accounted_def outstanding_def)
  moreover have "sourced (insert msg M) d'"
    using l3 by (simp add: applied(5) sourced_def bt_get_retain)
  ultimately show ?thesis using accounted_accounted_upto [of tip0 d'] by (simp add: sourced_def)
qed

lemma length_bt_insert_le: "length (bt_insert k v m) \<le> Suc (length m)"
  by (induction k v m rule: bt_insert.induct) auto

lemma length_bt_retain_le: "length (bt_retain p m) \<le> length m"
  by (simp add: bt_retain_def)

lemma drain_stops: "drain env hash d = (d', Inr hash') \<Longrightarrow> bt_get (dv_next_seq d') (dv_pending d') = None"
proof (induction env hash d rule: drain.induct)
  case (1 env hash d)
  show ?case
  proof (cases "bt_get (dv_next_seq d) (dv_pending d)")
    case None
    then show ?thesis using "1.prems" by (simp add: drain.simps [of env hash d])
  next
    case (Some msg)
    obtain d1 hash1 where a: "apply_and_report env (dv_next_seq d) msg (d\<lparr>dv_pending := bt_remove (dv_next_seq d) (dv_pending d)\<rparr>) = (d1, Inr hash1)"
      and r: "drain env hash1 d1 = (d', Inr hash')"
      using "1.prems" Some by (auto simp: drain.simps [of env hash d] split: prod.splits sum.splits)
    show ?thesis by (rule "1.IH" [OF Some a [symmetric] refl r])
  qed
qed

lemma drain_pending_length: "drain env hash d = (d', r) \<Longrightarrow> length (dv_pending d') \<le> length (dv_pending d)"
proof (induction env hash d rule: drain.induct)
  case (1 env hash d)
  show ?case
  proof (cases "bt_get (dv_next_seq d) (dv_pending d)")
    case None
    then show ?thesis using "1.prems" by (simp add: drain.simps [of env hash d])
  next
    case (Some msg)
    obtain d1 r1 where a: "apply_and_report env (dv_next_seq d) msg (d\<lparr>dv_pending := bt_remove (dv_next_seq d) (dv_pending d)\<rparr>) = (d1, r1)"
      by fastforce
    have "length (dv_pending d1) \<le> length (dv_pending d)"
      using apply_and_report_pending [OF a] length_bt_remove [OF Some] by simp
    then show ?thesis
      using "1.IH" [OF Some a [symmetric]] "1.prems" Some a by (cases r1) (auto simp: drain.simps [of env hash d])
  qed
qed

lemma settle_fields:
  assumes "settle_and_report env d = (d', r)"
  shows "dv_pending d' = dv_pending d" and "dv_next_seq d' = dv_next_seq d"
  using assms by (cases r; auto dest: settle_and_report_ok settle_and_report_err)+

lemma advance_buffers:
  assumes a: "advance_with_applied_inner env msg defer_tail d = (d', Inr hash)"
    and d: "buffers M d" "bt_get (dv_next_seq d) (dv_pending d) = None" "length (dv_pending d) < MAX_PENDING"
    and M: "\<forall>m \<in> insert msg M. fm_sequence_number m < - 1"
  shows "buffers (insert msg M) d' \<and> bt_get (dv_next_seq d') (dv_pending d') = None \<and> length (dv_pending d') \<le> Suc (length (dv_pending d))"
  using a
proof (cases rule: advance_cases)
  case (old r1)
  then show ?thesis using d settle_fields [OF old(2)] by (auto simp: buffers_def)
next
  case (ahead d1 r1)
  have "buffers (insert msg M) d1 \<and> bt_get (dv_next_seq d1) (dv_pending d1) = None"
    using d ahead(1) by (auto simp: ahead(2) buffers_def bt_get_insert)
  then show ?thesis using settle_fields [OF ahead(3)] d(3) length_bt_insert_le by (simp add: buffers_def ahead(2))
next
  case (applied d1 hash1 d2 hash2 d3)
  have n1: "dv_next_seq d1 = dv_next_seq d + 1" by (rule apply_and_report_ok [OF applied(2)]) simp
  note p1 = apply_and_report_pending [OF applied(2)]
  have "dv_next_seq d < - 1" using M applied(1) by simp
  moreover have "\<forall>m \<in> M. fm_sequence_number m \<noteq> dv_next_seq d"
    using d(1,2) unfolding buffers_def by (metis imageI order_refl)
  ultimately have "buffers (insert msg M) d1"
    using d(1) by (auto simp: buffers_def n1 p1 word_Suc_le_iff applied(1))
  then have b: "buffers (insert msg M) d2" using drain_buffers [OF applied(3)] M by blast
  have "bt_get (dv_next_seq d2) (dv_pending d2) = None" by (rule drain_stops [OF applied(3)])
  moreover have "dv_pending d3 = dv_pending d2 \<and> dv_next_seq d3 = dv_next_seq d2" using applied(4) settle_fields by auto
  ultimately show ?thesis
    using b drain_pending_length [OF applied(3)] p1
    by (auto simp: applied(5) buffers_def bt_get_retain intro: order_trans [OF length_bt_retain_le])
qed simp_all

section \<open>Runs\<close>

abbreviation call_messages :: "('c Env \<times> 'c FeedMessage \<times> bool) list \<Rightarrow> 'c FeedMessage set" where
  "call_messages calls \<equiv> (\<lambda>(env, msg, defer_tail). msg) ` set calls"

lemma run_linked:
  assumes "run_driver calls d = (d', err)" and "\<forall>(env, msg, defer_tail) \<in> set calls. en_resolve env = build"
    and "linked build tip0 n0 d" "accounted tip0 d" "sourced M d"
  shows "linked build tip0 n0 d' \<and> accounted_upto tip0 d' \<and> fst ` set (dv_blocks d') \<subseteq> M \<union> call_messages calls
    \<and> (err = None \<longrightarrow> accounted tip0 d')"
  using assms
proof (induction calls d arbitrary: M rule: run_driver.induct)
  case (1 d)
  then show ?case using accounted_accounted_upto by (auto simp: sourced_def)
next
  case (2 env msg defer_tail calls d)
  obtain d1 r where a: "advance_with_applied_inner env msg defer_tail d = (d1, r)" by fastforce
  have e: "en_resolve env = build" using "2.prems"(2) by simp
  note l = advance_linked [OF a e "2.prems"(3,4,5)]
  show ?case
  proof (cases r)
    case (Inl x)
    then show ?thesis using l "2.prems"(1) a by auto
  next
    case (Inr hash)
    then have "run_driver calls d1 = (d', err)" using "2.prems"(1) a by simp
    then show ?thesis using "2.IH" [OF a [symmetric] Inr, of "insert msg M"] "2.prems"(2) l Inr by auto
  qed
qed

lemma run_buffers:
  assumes "run_driver calls d = (d', None)"
    and "buffers M d" "bt_get (dv_next_seq d) (dv_pending d) = None" "length (dv_pending d) + length calls \<le> MAX_PENDING"
    and "\<forall>m \<in> M \<union> call_messages calls. fm_sequence_number m < - 1"
  shows "buffers (M \<union> call_messages calls) d' \<and> bt_get (dv_next_seq d') (dv_pending d') = None"
  using assms
proof (induction calls d arbitrary: M rule: run_driver.induct)
  case (1 d)
  then show ?case by simp
next
  case (2 env msg defer_tail calls d)
  obtain d1 hash where a: "advance_with_applied_inner env msg defer_tail d = (d1, Inr hash)"
    and r: "run_driver calls d1 = (d', None)"
    using "2.prems"(1) by (auto split: prod.splits sum.splits)
  have "buffers (insert msg M) d1 \<and> bt_get (dv_next_seq d1) (dv_pending d1) = None \<and> length (dv_pending d1) \<le> Suc (length (dv_pending d))"
    using "2.prems"(4,5) by (intro advance_buffers [OF a "2.prems"(2,3)]) auto
  then show ?case
    using "2.IH" [OF a [symmetric] refl, of "insert msg M"] r "2.prems"(4,5) by auto
qed

lemma Driver_new_inv:
  "linked build tip (sat_sub (sh_number tip) g + 1) (Driver_new tip g)" "accounted tip (Driver_new tip g)" "sourced {} (Driver_new tip g)"
  "buffers {} (Driver_new tip g)"
  by (simp_all add: Driver_new_def linked_def accounted_def outstanding_def sourced_def buffers_def)

lemma chain_unique: "chain build tip xs \<Longrightarrow> chain build tip ys \<Longrightarrow> map fst xs = map fst ys \<Longrightarrow> xs = ys"
proof (induction build tip xs arbitrary: ys rule: chain.induct)
  case (2 build tip msg block blocks)
  then obtain block' blocks' where "ys = (msg, block') # blocks'" by (cases ys) auto
  then show ?case using 2 by auto
qed simp

text \<open>Where the cursor stops is determined by the sequence numbers passed in.\<close>

lemma run_stops:
  assumes "run_driver calls (Driver_new tip g) = (d, None)" and "\<forall>(env, msg, defer_tail) \<in> set calls. en_resolve env = build"
    and "length calls \<le> MAX_PENDING" and "\<forall>m \<in> call_messages calls. fm_sequence_number m < - 1"
    and n0: "n0 = sat_sub (sh_number tip) g + 1"
  shows "linked build tip n0 d" and "fst ` set (dv_blocks d) \<subseteq> call_messages calls"
    and "dv_next_seq d \<notin> fm_sequence_number ` call_messages calls"
    and "i < length (dv_blocks d) \<Longrightarrow> n0 + of_nat i \<in> fm_sequence_number ` call_messages calls"
proof -
  have l: "linked build tip n0 d \<and> fst ` set (dv_blocks d) \<subseteq> call_messages calls"
    using run_linked [OF assms(1,2) Driver_new_inv(1,2,3)] n0 by simp
  then show "linked build tip n0 d" and sub: "fst ` set (dv_blocks d) \<subseteq> call_messages calls" by simp_all
  have "buffers (call_messages calls) d \<and> bt_get (dv_next_seq d) (dv_pending d) = None"
    using run_buffers [OF assms(1) Driver_new_inv(4)] assms(3,4) by (simp add: Driver_new_def)
  then show "dv_next_seq d \<notin> fm_sequence_number ` call_messages calls"
    unfolding buffers_def by (metis order_refl)
  show "n0 + of_nat i \<in> fm_sequence_number ` call_messages calls" if "i < length (dv_blocks d)"
  proof -
    have "sequences (dv_blocks d) ! i = n0 + of_nat i" using l that by (simp add: linked_def)
    then have "n0 + of_nat i = fm_sequence_number (fst (dv_blocks d ! i))" using that by simp
    moreover have "fst (dv_blocks d ! i) \<in> call_messages calls" using sub that by (meson image_subset_iff nth_mem)
    ultimately show ?thesis by (rule image_eqI)
  qed
qed

lemma linked_determined:
  assumes "linked build tip n0 d" and "linked build tip n0 d'" and "length (dv_blocks d) = length (dv_blocks d')"
    and "fst ` set (dv_blocks d) \<subseteq> M" and "fst ` set (dv_blocks d') \<subseteq> M" and "inj_on fm_sequence_number M"
  shows "dv_blocks d = dv_blocks d'"
proof (rule chain_unique)
  show "chain build tip (dv_blocks d)" and "chain build tip (dv_blocks d')" using assms(1,2) by (simp_all add: linked_def)
  have "map fm_sequence_number (map fst (dv_blocks d)) = map fm_sequence_number (map fst (dv_blocks d'))"
    using assms(1,2,3) by (simp add: linked_def)
  moreover have "inj_on fm_sequence_number (set (map fst (dv_blocks d)) \<union> set (map fst (dv_blocks d')))"
    by (rule inj_on_subset [OF assms(6)]) (use assms(4,5) in simp)
  ultimately show "map fst (dv_blocks d) = map fst (dv_blocks d')"
    using map_inj_on by blast
qed

text \<open>C13: Whatever order messages arrive in, with duplicates and gaps, and whichever call fails, the blocks the driver
  makes its tip form one chain from the tip it started with: there is exactly one block for each sequence number from
  the one after the starting tip on, without gap or repetition, built by the payload builder on the previous block's
  hash from a message that was passed in, with the later of the message's and the parent's timestamp. What is reported
  to the caller is a prefix of that numbering; without a failure it is all of it but the one block still awaiting its
  forkchoice update, and the tree was sent, block by block, the attributes, the executed block and the new head.\<close>

theorem driver_builds_one_chain:
  assumes "run_driver calls (Driver_new tip g) = (d, err)"
    and "\<forall>(env, msg, defer_tail) \<in> set calls. en_resolve env = build"
  shows "chain build tip (dv_blocks d) \<and> dv_tip d = chain_tip tip (dv_blocks d)
    \<and> sequences (dv_blocks d) = map (\<lambda>i. sat_sub (sh_number tip) g + 1 + of_nat i) [0..<length (dv_blocks d)]
    \<and> dv_next_seq d = sat_sub (sh_number tip) g + 1 + of_nat (length (dv_blocks d))
    \<and> fst ` set (dv_blocks d) \<subseteq> call_messages calls
    \<and> prefix (dv_applied d) (sequences (dv_blocks d)) \<and> prefix (chain_requests tip (dv_blocks d)) (dv_requests d)
    \<and> (err = None \<longrightarrow> dv_applied d @ outstanding d = sequences (dv_blocks d) \<and> dv_requests d = chain_requests tip (dv_blocks d))"
  using run_linked [OF assms Driver_new_inv(1,2,3)] unfolding linked_def accounted_def accounted_upto_def Un_empty_left
  by (intro conjI) (elim conjE, assumption)+

text \<open>Two runs over the same messages agree: each stops at the first sequence number that was never passed in.\<close>

lemma runs_agree:
  assumes "run_driver calls (Driver_new tip g) = (d, None)" and "run_driver calls' (Driver_new tip g) = (d', None)"
    and "\<forall>(env, msg, defer_tail) \<in> set calls \<union> set calls'. en_resolve env = build"
    and "call_messages calls = call_messages calls'" and "inj_on fm_sequence_number (call_messages calls)"
    and "\<forall>m \<in> call_messages calls. fm_sequence_number m < - 1"
    and "length calls \<le> MAX_PENDING" and "length calls' \<le> MAX_PENDING"
  shows "dv_blocks d = dv_blocks d' \<and> dv_tip d = dv_tip d' \<and> dv_next_seq d = dv_next_seq d'
    \<and> dv_next_seq d \<notin> fm_sequence_number ` call_messages calls
    \<and> set (sequences (dv_blocks d)) \<subseteq> fm_sequence_number ` call_messages calls"
proof -
  let ?n = "sat_sub (sh_number tip) g + 1" and ?S = "fm_sequence_number ` call_messages calls"
  have "\<forall>(env, msg, defer_tail) \<in> set calls. en_resolve env = build" "\<forall>(env, msg, defer_tail) \<in> set calls'. en_resolve env = build"
    using assms(3) by auto
  note s = run_stops [OF assms(1) this(1) assms(7,6) refl] run_stops [OF assms(2) this(2) assms(8) _ refl, folded assms(4), OF assms(6)]
  have "length (dv_blocks d) = length (dv_blocks d')"
  proof (rule linorder_cases)
    assume "length (dv_blocks d) < length (dv_blocks d')"
    then have "?n + of_nat (length (dv_blocks d)) \<in> ?S" by (rule s(8))
    then show ?thesis using s(1,3) by (simp add: linked_def)
  next
    assume "length (dv_blocks d') < length (dv_blocks d)"
    then have "?n + of_nat (length (dv_blocks d')) \<in> ?S" by (rule s(4))
    then show ?thesis using s(5,7) by (simp add: linked_def)
  qed simp
  then have "dv_blocks d = dv_blocks d'"
    by (rule linked_determined [OF s(1,5) _ s(2,6) assms(5)])
  moreover have "set (sequences (dv_blocks d)) \<subseteq> ?S"
    using image_mono [OF s(2), of fm_sequence_number] by (simp add: image_comp)
  moreover from \<open>dv_blocks d = dv_blocks d'\<close> have "dv_tip d = dv_tip d' \<and> dv_next_seq d = dv_next_seq d'"
    using s(1,5) by (simp add: linked_def)
  ultimately show ?thesis using s(3) by blast
qed

text \<open>C14: The feed and L1 may deliver the same messages in any interleaving. Of two runs that pass in the same set of
  messages, in whatever order and with whatever repetition, and meet no failure, both end with the same blocks, the
  same tip and the same cursor; the cursor is the first sequence number that was never passed in, so nothing that
  could be applied is left behind. One sequence number stands for one message, no message has the last sequence number,
  and each run passes in at most as many messages as the buffer may hold, 50,000: beyond that the driver may drop some.\<close>

theorem driver_order_irrelevant:
  assumes "run_driver calls (Driver_new tip g) = (d, None)" and "run_driver calls' (Driver_new tip g) = (d', None)"
    and "\<forall>(env, msg, defer_tail) \<in> set calls \<union> set calls'. en_resolve env = build"
    and "call_messages calls = call_messages calls'" and "inj_on fm_sequence_number (call_messages calls)"
    and "\<forall>m \<in> call_messages calls. fm_sequence_number m < - 1"
    and "length calls \<le> MAX_PENDING" and "length calls' \<le> MAX_PENDING"
  shows "dv_blocks d = dv_blocks d' \<and> dv_tip d = dv_tip d' \<and> dv_next_seq d = dv_next_seq d'
    \<and> dv_next_seq d \<notin> fm_sequence_number ` call_messages calls
    \<and> set (sequences (dv_blocks d)) \<subseteq> fm_sequence_number ` call_messages calls"
  by (rule runs_agree [OF assms])

section \<open>Shutdown is complete\<close>

text \<open>Whatever fails on the way, a shutdown asks the tree to terminate once if it can be reached, joins everything, and
  reports all failures, the first of them as the primary one. Dropping a driver that was not shut down asks once too.\<close>

fun failures :: "ShutdownError + unit \<Rightarrow> ShutdownError list" where
  "failures (Inr _) = []"
| "failures (Inl (Aggregate primary secondary)) = primary # secondary"
| "failures (Inl e) = [e]"

lemma failures_aggregate: "\<forall>e \<in> set errors. \<forall>p s. e \<noteq> Aggregate p s \<Longrightarrow> failures (aggregate errors) = errors"
proof (cases errors)
  case (Cons e es)
  assume "\<forall>e \<in> set errors. \<forall>p s. e \<noteq> Aggregate p s"
  then show ?thesis using Cons by (cases es; cases e) (auto simp: aggregate_def)
qed (simp add: aggregate_def)

lemma shutdown_complete:
  "shutdown channel_open ack p e q n guard_new = (g, r) \<Longrightarrow>
     tg_sent g = (if channel_open then 1 else 0)
     \<and> failures r = (if \<not> channel_open \<or> ack = AckDropped then [TerminationChannelClosed]
         else if ack = AckTimeout then [TimedOut TREE_ACK_TIMEOUT n] else [])
         @ join_persistence p @ join_event_drain e @ join_payload_service q"
  by (auto simp: shutdown_def shutdown_engine_tree_def guard_request_def guard_drop_def guard_new_def
      join_persistence_def join_event_drain_def join_payload_service_def Let_def
      intro!: failures_aggregate [THEN trans] split: Ack.splits option.splits JoinResult.splits)

lemma drop_requests_once: "tg_sent (guard_drop True guard_new) = 1" "guard_drop open (guard_drop True guard_new) = guard_drop True guard_new"
  by (simp_all add: guard_drop_def guard_request_def guard_new_def)

section \<open>Witnesses\<close>

definition drv_tip :: SealedHeader where
  "drv_tip = \<lparr>sh_number = 5, sh_hash = [0], sh_timestamp = 100\<rparr>"

definition drv_msg :: "u64 \<Rightarrow> u64 \<Rightarrow> unit FeedMessage" where
  "drv_msg seq t = \<lparr>fm_sequence_number = seq, fm_l1_timestamp = t, fm_content = ()\<rparr>"

definition drv_build :: "b256 \<Rightarrow> unit PayloadAttributes \<Rightarrow> Resolved" where
  "drv_build parent attributes = Payload (Some \<lparr>sh_number = 6, sh_hash = 1 # parent, sh_timestamp = pa_timestamp attributes\<rparr>)"

definition drv_env :: "unit Env" where
  "drv_env = \<lparr>en_send_attributes = (\<lambda>_. True), en_attributes_fcu = (\<lambda>_. FcuAccepted (Some [])), en_resolve = drv_build,
     en_send_insert = (\<lambda>_. True), en_send_fcu = (\<lambda>_. True), en_final_fcu = (\<lambda>_. FcuAccepted None),
     en_block_hash = (\<lambda>s. if s = 1 then Some [1, 0] else if s = 2 then Some [1, 1, 0] else None),
     en_canonical_head = (\<lambda>_. (0, [])),
     en_wait = (\<lambda>_. [\<lparr>wr_block_hash = None, wr_head = (0, []), wr_events = [(6, [1, 1, 1, 0])], wr_deadline_passed = False, wr_next = WaitEnded\<rparr>])\<rparr>"

definition drv_calls :: "(unit Env \<times> unit FeedMessage \<times> bool) list" where
  "drv_calls = [(drv_env, drv_msg 3 90, False), (drv_env, drv_msg 2 101, True), (drv_env, drv_msg 1 100, False), (drv_env, drv_msg 2 101, False)]"

definition drv_calls' :: "(unit Env \<times> unit FeedMessage \<times> bool) list" where
  "drv_calls' = [(drv_env, drv_msg 1 100, True), (drv_env, drv_msg 2 101, False), (drv_env, drv_msg 3 90, False)]"

abbreviation drv_run :: "unit Driver \<times> DriverError option" where
  "drv_run \<equiv> run_driver drv_calls (Driver_new drv_tip 5)"

abbreviation drv_run' :: "unit Driver \<times> DriverError option" where
  "drv_run' \<equiv> run_driver drv_calls' (Driver_new drv_tip 5)"

lemma drain_None: "bt_get (dv_next_seq d) (dv_pending d) = None \<Longrightarrow> drain env hash d = (d, Inr hash)"
  by (simp add: drain.simps)

lemma drain_Some:
  "bt_get (dv_next_seq d) (dv_pending d) = Some buffered \<Longrightarrow> drain env hash d =
     (case apply_and_report env (dv_next_seq d) buffered (d\<lparr>dv_pending := bt_remove (dv_next_seq d) (dv_pending d)\<rparr>) of
        (d, Inl e) \<Rightarrow> (d, Inl e) | (d, Inr hash) \<Rightarrow> drain env hash d)"
  by (simp add: drain.simps [of env hash d])

lemmas driver_eval = advance_with_applied_inner_def apply_and_report_def apply_one_native_def queue_applied_block_def
  settle_and_report_def settle_pending_applied_def await_payload_def native_payload_attributes_def on_applied_def send_def
  drain_None drain_Some Driver_new_def MAX_PENDING_def sat_sub_def bt_get_def bt_remove_def bt_retain_def Let_def

lemma drv_runs: "snd drv_run = None" "snd drv_run' = None" "length (dv_blocks (fst drv_run)) = 3"
  by (simp_all add: drv_calls_def drv_calls'_def drv_tip_def drv_msg_def drv_env_def drv_build_def driver_eval)

lemma drv_run_eqs: "drv_run = (fst drv_run, None)" "drv_run' = (fst drv_run', None)"
  using drv_runs by (simp_all add: prod_eq_iff)

lemma drv_envs: "\<forall>(env, msg, defer_tail) \<in> set drv_calls \<union> set drv_calls'. en_resolve env = drv_build"
  "\<forall>(env, msg, defer_tail) \<in> set drv_calls. en_resolve env = drv_build"
  by (simp_all add: drv_calls_def drv_calls'_def drv_env_def)

theorem driver_builds_one_chain_witness:
  "snd drv_run = None \<and> length (dv_blocks (fst drv_run)) = 3 \<and> chain drv_build drv_tip (dv_blocks (fst drv_run))
   \<and> dv_applied (fst drv_run) @ outstanding (fst drv_run) = sequences (dv_blocks (fst drv_run))"
  using driver_builds_one_chain [OF drv_run_eqs(1) drv_envs(2)] drv_runs by simp

theorem driver_order_irrelevant_witness:
  "snd drv_run = None \<and> snd drv_run' = None \<and> dv_blocks (fst drv_run) = dv_blocks (fst drv_run') \<and> dv_next_seq (fst drv_run) = dv_next_seq (fst drv_run')"
proof -
  have "call_messages drv_calls = call_messages drv_calls'" "inj_on fm_sequence_number (call_messages drv_calls)"
    "\<forall>m \<in> call_messages drv_calls. fm_sequence_number m < - 1"
    "length drv_calls \<le> MAX_PENDING" "length drv_calls' \<le> MAX_PENDING"
    by (auto simp: drv_calls_def drv_calls'_def drv_msg_def MAX_PENDING_def word_less_nat_alt unat_u64_max)
  then show ?thesis
    using driver_order_irrelevant [OF drv_run_eqs drv_envs(1)] drv_runs by simp
qed

end
