(* ===== verification/Ingress.thy ===== *)
theory Ingress
  imports Engine_Driver Trusted_L2
begin

text \<open>How messages reach the engine driver, \<^verbatim>\<open>crates/arb-reth-node/src/launcher.rs\<close>: the scheduler that arbitrates between
  the sequencer feed and L1 derivation, the admission of messages in a finite run, the loop that hands messages to the
  driver, and the completion of a finite run.

  A channel of \<^verbatim>\<open>tokio\<close> is the list of what its receiver finds, poll by poll: a message, or nothing yet; where the list
  ends, all senders are gone. Every timing of arrivals is such a list. Closing a channel keeps what has arrived.\<close>

section \<open>Channels\<close>

datatype 'm poll = Arrived 'm | NotYet

type_synonym 'm channel = "'m poll list"

datatype 'm TryRecv = Received 'm | Empty | Disconnected

fun try_recv :: "'m channel \<Rightarrow> 'm TryRecv \<times> 'm channel" where
  "try_recv [] = (Disconnected, [])"
| "try_recv (Arrived m # ch) = (Received m, ch)"
| "try_recv (NotYet # ch) = (Empty, ch)"

fun queued :: "'m channel \<Rightarrow> 'm list" where
  "queued (Arrived m # ch) = m # queued ch"
| "queued ch = []"

fun arrivals :: "'m channel \<Rightarrow> 'm list" where
  "arrivals [] = []"
| "arrivals (Arrived m # ch) = m # arrivals ch"
| "arrivals (NotYet # ch) = arrivals ch"

section \<open>Launch modes and admission\<close>

datatype ArbLaunchMode = Ordinary | Finite u64

fun frontier :: "ArbLaunchMode \<Rightarrow> u64 option" where
  "frontier Ordinary = None"
| "frontier (Finite f) = Some f"

definition is_serving :: "ArbLaunchMode \<Rightarrow> bool" where
  "is_serving mode \<longleftrightarrow> mode = Ordinary"

datatype EngineHandoffAdmissionError =
    FrontierBelowGenesis u64 u64
  | SequenceNumberOverflow u64 u64
  | TipBelowGenesis u64 u64
  | NextSequenceOverflow u64 u64

datatype EngineHandoffAdmission = Admitted u64 | RejectedAboveFrontier u64 u64

definition finite_handoff_admission :: "u64 \<Rightarrow> u64 \<Rightarrow> u64 \<Rightarrow> EngineHandoffAdmissionError + EngineHandoffAdmission" where
  "finite_handoff_admission block_number f genesis_block =
     (if f < genesis_block then Inl (FrontierBelowGenesis f genesis_block)
      else if f < block_number then Inr (RejectedAboveFrontier block_number f)
      else Inr (Admitted block_number))"

definition admit_engine_handoff :: "ArbLaunchMode \<Rightarrow> u64 \<Rightarrow> u64 \<Rightarrow> EngineHandoffAdmissionError + EngineHandoffAdmission" where
  "admit_engine_handoff mode sequence_number genesis_block =
     rbind (ok_or (SequenceNumberOverflow sequence_number genesis_block) (checked_add64 sequence_number genesis_block)) (\<lambda>block_number.
     case mode of
       Ordinary \<Rightarrow> Inr (Admitted block_number)
     | Finite f \<Rightarrow> finite_handoff_admission block_number f genesis_block)"

definition finite_max_sequence :: "ArbLaunchMode \<Rightarrow> u64 \<Rightarrow> EngineHandoffAdmissionError + u64 option" where
  "finite_max_sequence mode genesis_block = (case frontier mode of
       None \<Rightarrow> Inr None
     | Some f \<Rightarrow> ok_or (FrontierBelowGenesis f genesis_block) (map_option Some (checked_sub64 f genesis_block)))"

definition next_driver_sequence :: "u64 \<Rightarrow> u64 \<Rightarrow> EngineHandoffAdmissionError + u64" where
  "next_driver_sequence tip genesis_block =
     rbind (ok_or (TipBelowGenesis tip genesis_block) (checked_sub64 tip genesis_block)) (\<lambda>sequence.
     ok_or (NextSequenceOverflow tip genesis_block) (checked_add64 sequence 1))"

section \<open>The scheduler\<close>

datatype MessageSource = L1 | Feed

datatype BatchKind = OrdinaryBatch | GapCloser

definition MAX_MESSAGE_BATCH :: nat where "MAX_MESSAGE_BATCH = 64"

record 'c SelectedBatch =
  sb_source :: MessageSource
  sb_messages :: "'c FeedMessage list"
  sb_kind :: BatchKind

record 'c IngressScheduler =
  sc_feed_messages :: "'c FeedMessage channel"
  sc_l1_messages :: "'c FeedMessage channel"
  sc_feed_pending :: "'c FeedMessage option"
  sc_l1_pending :: "'c FeedMessage option"
  sc_l1_buffered :: "'c FeedMessage list"
  sc_feed_open :: bool
  sc_l1_open :: bool
  sc_owed :: MessageSource

definition IngressScheduler_new :: "'c FeedMessage channel \<Rightarrow> 'c FeedMessage channel \<Rightarrow> 'c IngressScheduler" where
  "IngressScheduler_new feed_messages l1_messages = \<lparr>sc_feed_messages = feed_messages, sc_l1_messages = l1_messages,
     sc_feed_pending = None, sc_l1_pending = None, sc_l1_buffered = [], sc_feed_open = True, sc_l1_open = True, sc_owed = Feed\<rparr>"

definition l1_only :: "'c FeedMessage channel \<Rightarrow> 'c IngressScheduler" where
  "l1_only l1_messages = IngressScheduler_new [] l1_messages"

definition close_l1_input :: "u64 \<Rightarrow> 'c IngressScheduler \<Rightarrow> 'c IngressScheduler" where
  "close_l1_input max_sequence s =
     (let pending = (case sc_l1_pending s of
            Some m \<Rightarrow> if max_sequence < fm_sequence_number m then None else Some m
          | None \<Rightarrow> None);
          buffered = sc_l1_buffered s @ filter (\<lambda>m. fm_sequence_number m \<le> max_sequence) (queued (sc_l1_messages s))
      in s\<lparr>sc_l1_messages := [], sc_l1_pending := pending, sc_l1_buffered := buffered, sc_l1_open := (buffered \<noteq> [])\<rparr>)"

definition try_fill_feed :: "'c IngressScheduler \<Rightarrow> 'c IngressScheduler" where
  "try_fill_feed s =
     (if \<not> sc_feed_open s \<or> sc_feed_pending s \<noteq> None then s
      else case try_recv (sc_feed_messages s) of
        (Received m, ch) \<Rightarrow> s\<lparr>sc_feed_messages := ch, sc_feed_pending := Some m\<rparr>
      | (Empty, ch) \<Rightarrow> s\<lparr>sc_feed_messages := ch\<rparr>
      | (Disconnected, ch) \<Rightarrow> s\<lparr>sc_feed_messages := ch, sc_feed_open := False\<rparr>)"

definition try_fill_l1 :: "'c IngressScheduler \<Rightarrow> 'c IngressScheduler" where
  "try_fill_l1 s =
     (if sc_l1_open s \<and> sc_l1_pending s = None \<and> sc_l1_buffered s \<noteq> []
      then s\<lparr>sc_l1_pending := Some (hd (sc_l1_buffered s)), sc_l1_buffered := tl (sc_l1_buffered s)\<rparr>
      else if \<not> sc_l1_open s \<or> sc_l1_pending s \<noteq> None then s
      else case try_recv (sc_l1_messages s) of
        (Received m, ch) \<Rightarrow> s\<lparr>sc_l1_messages := ch, sc_l1_pending := Some m\<rparr>
      | (Empty, ch) \<Rightarrow> s\<lparr>sc_l1_messages := ch\<rparr>
      | (Disconnected, ch) \<Rightarrow> s\<lparr>sc_l1_messages := ch, sc_l1_open := False\<rparr>)"

fun try_fill_head :: "MessageSource \<Rightarrow> 'c IngressScheduler \<Rightarrow> 'c IngressScheduler" where
  "try_fill_head Feed s = try_fill_feed s"
| "try_fill_head L1 s = try_fill_l1 s"

text \<open>One poll of the branch of a source, and of both branches in the order of \<open>owed\<close>; the flag says that one was ready.\<close>

fun poll_branch :: "MessageSource \<Rightarrow> 'c IngressScheduler \<Rightarrow> 'c IngressScheduler \<times> bool" where
  "poll_branch Feed s =
     (if \<not> sc_feed_open s then (s, False)
      else case try_recv (sc_feed_messages s) of
        (Received m, ch) \<Rightarrow> (s\<lparr>sc_feed_messages := ch, sc_feed_pending := Some m\<rparr>, True)
      | (Empty, ch) \<Rightarrow> (s\<lparr>sc_feed_messages := ch\<rparr>, False)
      | (Disconnected, ch) \<Rightarrow> (s\<lparr>sc_feed_messages := ch, sc_feed_open := False\<rparr>, True))"
| "poll_branch L1 s =
     (if \<not> sc_l1_open s then (s, False)
      else case try_recv (sc_l1_messages s) of
        (Received m, ch) \<Rightarrow> (s\<lparr>sc_l1_messages := ch, sc_l1_pending := Some m\<rparr>, True)
      | (Empty, ch) \<Rightarrow> (s\<lparr>sc_l1_messages := ch\<rparr>, False)
      | (Disconnected, ch) \<Rightarrow> (s\<lparr>sc_l1_messages := ch, sc_l1_open := False\<rparr>, True))"

fun other :: "MessageSource \<Rightarrow> MessageSource" where
  "other Feed = L1"
| "other L1 = Feed"

definition wait_poll :: "'c IngressScheduler \<Rightarrow> 'c IngressScheduler \<times> bool" where
  "wait_poll s = (case poll_branch (sc_owed s) s of
       (s, True) \<Rightarrow> (s, True)
     | (s, False) \<Rightarrow> poll_branch (other (sc_owed s)) s)"

text \<open>How much there is still to poll: a measure of every wait.\<close>

definition unpolled :: "'c IngressScheduler \<Rightarrow> nat" where
  "unpolled s = length (sc_feed_messages s) + length (sc_l1_messages s) + of_bool (sc_feed_open s) + of_bool (sc_l1_open s)"

lemma poll_branch_unpolled: "unpolled (fst (poll_branch src s)) \<le> unpolled s"
  by (cases src; cases "sc_feed_messages s" rule: try_recv.cases; cases "sc_l1_messages s" rule: try_recv.cases) (simp_all add: unpolled_def)

lemma poll_branch_progress:
  "poll_branch src s = (s', ready) \<Longrightarrow> (if src = Feed then sc_feed_open s else sc_l1_open s) \<Longrightarrow> unpolled s' < unpolled s"
  by (cases src; cases "sc_feed_messages s" rule: try_recv.cases; cases "sc_l1_messages s" rule: try_recv.cases) (auto simp: unpolled_def)

lemma poll_branch_closed: "poll_branch src s = (s', ready) \<Longrightarrow> \<not> (if src = Feed then sc_feed_open s else sc_l1_open s) \<Longrightarrow> s' = s \<and> \<not> ready"
  by (cases src) auto

lemma poll_branch_other_open:
  "poll_branch src s = (s', ready) \<Longrightarrow> (if other src = Feed then sc_feed_open s' else sc_l1_open s') = (if other src = Feed then sc_feed_open s else sc_l1_open s)"
  by (cases src) (auto split: if_splits prod.splits TryRecv.splits)

lemma wait_poll_progress:
  assumes "wait_poll s = (s', ready)" and "sc_feed_open s \<or> sc_l1_open s"
  shows "unpolled s' < unpolled s"
proof -
  let ?o = "sc_owed s"
  obtain s1 r1 where p1: "poll_branch ?o s = (s1, r1)" by fastforce
  show ?thesis
  proof (cases "if ?o = Feed then sc_feed_open s else sc_l1_open s")
    case True
    then have "unpolled s1 < unpolled s" using poll_branch_progress [OF p1] by simp
    then show ?thesis
      using assms(1) p1 poll_branch_unpolled [of "other (sc_owed s1)" s1] by (auto simp: wait_poll_def split: bool.splits dest: le_less_trans)
  next
    case False
    then have s1: "s1 = s" "\<not> r1" using poll_branch_closed [OF p1] by auto
    then have "poll_branch (other ?o) s = (s', ready)" using assms(1) p1 by (simp add: wait_poll_def)
    from poll_branch_progress [OF this] show ?thesis using False assms(2) by (cases ?o) simp_all
  qed
qed

text \<open>Waiting for a head: the branches are polled until one is ready. With both closed there is nothing to wait for.\<close>

function await_head :: "'c IngressScheduler \<Rightarrow> 'c IngressScheduler" where
  "await_head s =
     (if \<not> sc_feed_open s \<and> \<not> sc_l1_open s then s
      else case wait_poll s of (s', True) \<Rightarrow> s' | (s', False) \<Rightarrow> await_head s')"
  by pat_completeness auto

termination
  by (relation "measure unpolled") (auto dest: wait_poll_progress [OF sym])

declare await_head.simps [simp del]

lemma await_head_unpolled: "sc_feed_open s \<or> sc_l1_open s \<Longrightarrow> unpolled (await_head s) < unpolled s"
proof (induction s rule: await_head.induct)
  case (1 s)
  obtain s' ready where w: "wait_poll s = (s', ready)" by fastforce
  have p: "unpolled s' < unpolled s" by (rule wait_poll_progress [OF w "1.prems"])
  have "unpolled (await_head s') \<le> unpolled s'" if "\<not> ready"
  proof (cases "sc_feed_open s' \<or> sc_l1_open s'")
    case True
    then show ?thesis using "1.IH" [OF _ w [symmetric]] "1.prems" that by (auto intro: less_imp_le)
  next
    case False
    then show ?thesis by (simp add: await_head.simps)
  qed
  then show ?case using p "1.prems" w by (subst await_head.simps) (auto split: bool.splits)
qed

lemma try_fill_head_unpolled: "unpolled (try_fill_head src s) \<le> unpolled s"
  by (cases src; cases "sc_feed_messages s" rule: try_recv.cases; cases "sc_l1_messages s" rule: try_recv.cases)
    (simp_all add: unpolled_def try_fill_feed_def try_fill_l1_def)

fun fill_batch :: "nat \<Rightarrow> MessageSource \<Rightarrow> 'c IngressScheduler \<Rightarrow> 'c FeedMessage list \<Rightarrow> 'c IngressScheduler \<times> 'c FeedMessage list" where
  "fill_batch 0 src s messages = (s, messages)"
| "fill_batch (Suc n) Feed s messages = (case try_recv (sc_feed_messages s) of
     (Received m, ch) \<Rightarrow> fill_batch n Feed (s\<lparr>sc_feed_messages := ch\<rparr>) (messages @ [m])
   | (Empty, ch) \<Rightarrow> (s\<lparr>sc_feed_messages := ch\<rparr>, messages)
   | (Disconnected, ch) \<Rightarrow> (s\<lparr>sc_feed_messages := ch, sc_feed_open := False\<rparr>, messages))"
| "fill_batch (Suc n) L1 s messages =
     (if sc_l1_buffered s \<noteq> [] then fill_batch n L1 (s\<lparr>sc_l1_buffered := tl (sc_l1_buffered s)\<rparr>) (messages @ [hd (sc_l1_buffered s)])
      else case try_recv (sc_l1_messages s) of
        (Received m, ch) \<Rightarrow> fill_batch n L1 (s\<lparr>sc_l1_messages := ch\<rparr>) (messages @ [m])
      | (Empty, ch) \<Rightarrow> (s\<lparr>sc_l1_messages := ch\<rparr>, messages)
      | (Disconnected, ch) \<Rightarrow> (s\<lparr>sc_l1_messages := ch, sc_l1_open := False\<rparr>, messages))"

text \<open>The choice of a batch once a head is there.\<close>

definition gap_closer :: "u64 \<Rightarrow> 'c IngressScheduler \<Rightarrow> bool" where
  "gap_closer next_sequence s = (case (sc_feed_pending s, sc_l1_pending s) of
       (Some feed, Some l1) \<Rightarrow> fm_sequence_number l1 = next_sequence \<and> next_sequence < fm_sequence_number feed
     | _ \<Rightarrow> False)"

definition choose_source :: "u64 \<Rightarrow> 'c IngressScheduler \<Rightarrow> MessageSource" where
  "choose_source next_sequence s =
     (if gap_closer next_sequence s then L1
      else if sc_feed_pending s \<noteq> None \<and> sc_l1_pending s \<noteq> None then sc_owed s
      else if sc_feed_pending s \<noteq> None then Feed else L1)"

fun take_head :: "MessageSource \<Rightarrow> 'c IngressScheduler \<Rightarrow> 'c FeedMessage \<times> 'c IngressScheduler" where
  "take_head Feed s = (the (sc_feed_pending s), s\<lparr>sc_feed_pending := None\<rparr>)"
| "take_head L1 s = (the (sc_l1_pending s), s\<lparr>sc_l1_pending := None\<rparr>)"

definition select_batch :: "u64 \<Rightarrow> 'c IngressScheduler \<Rightarrow> 'c IngressScheduler \<times> 'c SelectedBatch" where
  "select_batch next_sequence s =
     (let src = choose_source next_sequence s; kind = (if gap_closer next_sequence s then GapCloser else OrdinaryBatch);
          (first, s) = take_head src s;
          (s, messages) = (if kind = OrdinaryBatch then fill_batch (MAX_MESSAGE_BATCH - 1) src s [first] else (s, [first]))
      in (s, \<lparr>sb_source = src, sb_messages = messages, sb_kind = kind\<rparr>))"

definition fill_heads :: "'c IngressScheduler \<Rightarrow> 'c IngressScheduler" where
  "fill_heads s = try_fill_head L1 (try_fill_head Feed s)"

lemma fill_heads_unpolled: "unpolled (fill_heads s) \<le> unpolled s"
  unfolding fill_heads_def by (meson order_trans try_fill_head_unpolled)

function next_batch :: "u64 \<Rightarrow> 'c IngressScheduler \<Rightarrow> 'c IngressScheduler \<times> 'c SelectedBatch option" where
  "next_batch next_sequence s =
     (let s' = fill_heads s in
      if sc_feed_pending s' = None \<and> sc_l1_pending s' = None then
        if \<not> sc_feed_open s' \<and> \<not> sc_l1_open s' then (s', None)
        else next_batch next_sequence (await_head s')
      else case select_batch next_sequence s' of (s', batch) \<Rightarrow> (s', Some batch))"
  by pat_completeness auto

termination
  by (relation "measure (unpolled \<circ> snd)") (auto intro: less_le_trans [OF await_head_unpolled fill_heads_unpolled])

declare next_batch.simps [simp del]

definition complete_batch :: "MessageSource \<Rightarrow> BatchKind \<Rightarrow> 'c IngressScheduler \<Rightarrow> 'c IngressScheduler" where
  "complete_batch src kind s = (case kind of
       GapCloser \<Rightarrow> s\<lparr>sc_owed := Feed\<rparr>
     | OrdinaryBatch \<Rightarrow> if src = sc_owed s then s\<lparr>sc_owed := other src\<rparr> else s)"

section \<open>The drive loop\<close>

text \<open>What the outside does during one turn of the loop. In a finite run the input may be closed: before the turn, while
  the loop waits for a batch (after so many polls that found nothing), or before a message of the batch.\<close>

record 'c DriveTick =
  dt_closed :: bool
  dt_cancel :: "nat option"
  dt_close_seen :: "nat \<Rightarrow> bool"
  dt_env :: "nat \<Rightarrow> 'c Env"

datatype DriveError = AdmissionFailed EngineHandoffAdmissionError | AdvanceFailed DriverError

datatype DriveOutcome = DriveContinues | DriveDone | DriveFailed DriveError

text \<open>A wait that is interrupted: the heads were found empty and some polls came back with nothing.\<close>

fun idle_polls :: "nat \<Rightarrow> 'c IngressScheduler \<Rightarrow> 'c IngressScheduler" where
  "idle_polls 0 s = s"
| "idle_polls (Suc n) s = (case wait_poll s of (s', False) \<Rightarrow> idle_polls n s' | (s', True) \<Rightarrow> s)"

definition cancelled_wait :: "nat \<Rightarrow> 'c IngressScheduler \<Rightarrow> 'c IngressScheduler" where
  "cancelled_wait n s =
     (let s' = fill_heads s in
      if n = 0 \<or> sc_feed_pending s' \<noteq> None \<or> sc_l1_pending s' \<noteq> None then s else idle_polls n s')"

text \<open>The messages of a batch, from an index on: what is admitted is handed to the driver.\<close>

fun drive_messages :: "ArbLaunchMode \<Rightarrow> u64 \<Rightarrow> u64 option \<Rightarrow> 'c DriveTick \<Rightarrow> nat \<Rightarrow> nat \<Rightarrow> 'c FeedMessage list
    \<Rightarrow> 'c IngressScheduler \<times> 'c Driver \<Rightarrow> ('c IngressScheduler \<times> 'c Driver) \<times> DriveError option" where
  "drive_messages mode genesis_block max_sequence tick batch_len index [] st = (st, None)"
| "drive_messages mode genesis_block max_sequence tick batch_len index (msg # batch) (s, d) =
     (let s = (case max_sequence of Some m \<Rightarrow> if dt_close_seen tick index then close_l1_input m s else s | None \<Rightarrow> s) in
      case admit_engine_handoff mode (fm_sequence_number msg) genesis_block of
        Inl e \<Rightarrow> ((s, d), Some (AdmissionFailed e))
      | Inr (RejectedAboveFrontier _ _) \<Rightarrow> drive_messages mode genesis_block max_sequence tick batch_len (index + 1) batch (s, d)
      | Inr (Admitted _) \<Rightarrow> (case advance_with_applied_inner (dt_env tick index) msg (index + 1 < batch_len) d of
          (d, Inl e) \<Rightarrow> ((s, d), Some (AdvanceFailed e))
        | (d, Inr _) \<Rightarrow> drive_messages mode genesis_block max_sequence tick batch_len (index + 1) batch (s, d)))"

definition drive_batch :: "ArbLaunchMode \<Rightarrow> u64 \<Rightarrow> u64 option \<Rightarrow> 'c DriveTick \<Rightarrow> 'c SelectedBatch \<Rightarrow> 'c IngressScheduler \<times> 'c Driver
    \<Rightarrow> ('c IngressScheduler \<times> 'c Driver) \<times> DriveOutcome" where
  "drive_batch mode genesis_block max_sequence tick b st =
     (case drive_messages mode genesis_block max_sequence tick (length (sb_messages b)) 0 (sb_messages b) st of
        ((s, d), Some e) \<Rightarrow> ((s, d), DriveFailed e)
      | ((s, d), None) \<Rightarrow> ((complete_batch (sb_source b) (sb_kind b) s, d), DriveContinues))"

definition drive_turn :: "ArbLaunchMode \<Rightarrow> u64 \<Rightarrow> u64 option \<Rightarrow> 'c DriveTick \<Rightarrow> 'c IngressScheduler \<times> 'c Driver
    \<Rightarrow> ('c IngressScheduler \<times> 'c Driver) \<times> DriveOutcome" where
  "drive_turn mode genesis_block max_sequence tick = (\<lambda>(s, d).
     case next_driver_sequence (sh_number (dv_tip d)) genesis_block of
       Inl e \<Rightarrow> ((s, d), DriveFailed (AdmissionFailed e))
     | Inr next_sequence \<Rightarrow>
         let s = (case max_sequence of Some m \<Rightarrow> if dt_closed tick then close_l1_input m s else s | None \<Rightarrow> s) in
         (case (max_sequence, if dt_closed tick then None else dt_cancel tick) of
            (Some m, Some n) \<Rightarrow> ((close_l1_input m (cancelled_wait n s), d), DriveContinues)
          | _ \<Rightarrow> (case next_batch next_sequence s of
                   (s, None) \<Rightarrow> ((s, d), DriveDone)
                 | (s, Some b) \<Rightarrow> drive_batch mode genesis_block max_sequence tick b (s, d))))"

fun drive_loop :: "ArbLaunchMode \<Rightarrow> u64 \<Rightarrow> u64 option \<Rightarrow> 'c DriveTick list \<Rightarrow> 'c IngressScheduler \<times> 'c Driver
    \<Rightarrow> ('c IngressScheduler \<times> 'c Driver) \<times> DriveOutcome" where
  "drive_loop mode genesis_block max_sequence [] st = (st, DriveContinues)"
| "drive_loop mode genesis_block max_sequence (tick # ticks) st = (case drive_turn mode genesis_block max_sequence tick st of
     (st, DriveContinues) \<Rightarrow> drive_loop mode genesis_block max_sequence ticks st
   | (st, outcome) \<Rightarrow> (st, outcome))"

text \<open>The launcher's start of the loop: a finite run drops the feed.\<close>

definition launch :: "ArbLaunchMode \<Rightarrow> u64 \<Rightarrow> SealedHeader \<Rightarrow> 'c FeedMessage channel \<Rightarrow> 'c FeedMessage channel \<Rightarrow> 'c DriveTick list
    \<Rightarrow> EngineHandoffAdmissionError + ('c IngressScheduler \<times> 'c Driver) \<times> DriveOutcome" where
  "launch mode genesis_block genesis_tip feed_messages l1_messages ticks =
     rbind (finite_max_sequence mode genesis_block) (\<lambda>max_sequence.
     Inr (drive_loop mode genesis_block max_sequence ticks
       (if is_serving mode then IngressScheduler_new feed_messages l1_messages else l1_only l1_messages, Driver_new genesis_tip genesis_block)))"

section \<open>Completion of a finite run\<close>

datatype 'e FiniteCompletionState = Pending | Succeeded | Failed 'e | FailedAlreadyObserved

datatype 'e WaitError = Observed 'e | AlreadyObserved

fun complete :: "'e + unit \<Rightarrow> 'e FiniteCompletionState \<Rightarrow> 'e FiniteCompletionState" where
  "complete (Inr u) st = Succeeded"
| "complete (Inl e) st = Failed e"

text \<open>One look at the state by a waiter; without a result it waits for the next notification.\<close>

fun wait_look :: "'e FiniteCompletionState \<Rightarrow> ('e WaitError + unit) option \<times> 'e FiniteCompletionState" where
  "wait_look Pending = (None, Pending)"
| "wait_look Succeeded = (Some (Inr ()), Succeeded)"
| "wait_look FailedAlreadyObserved = (Some (Inl AlreadyObserved), FailedAlreadyObserved)"
| "wait_look (Failed e) = (Some (Inl (Observed e)), FailedAlreadyObserved)"

datatype 'e FinishError =
    NotFinite
  | ExitFailed "'e WaitError"
  | ProviderFailed
  | WrongDurableTip u64 u64
  | HeaderMissing u64
  | WrongFrontierReached u64
  | DerivationFailed 'e
  | BothFailed "'e FinishError" "'e FinishError"

text \<open>The durable tip after the node has exited: the result of the wait, the provider's tip and the hash and state root
  of its header there.\<close>

definition wait_for_finite_execution :: "u64 option \<Rightarrow> 'e WaitError + unit \<Rightarrow> u64 option \<Rightarrow> (u64 \<Rightarrow> ((b256 \<times> b256) option) option)
    \<Rightarrow> 'e FinishError + HeaderObservation" where
  "wait_for_finite_execution finite_frontier exit last_block_number sealed_header =
     rbind (ok_or NotFinite finite_frontier) (\<lambda>f.
     rbind (map_err ExitFailed exit) (\<lambda>_.
     rbind (ok_or ProviderFailed last_block_number) (\<lambda>tip.
     if tip \<noteq> f then Inl (WrongDurableTip tip f)
     else rbind (ok_or ProviderFailed (sealed_header f)) (\<lambda>header.
          rbind (ok_or (HeaderMissing f) header) (\<lambda>(hash, state_root).
          Inr \<lparr>hd_number = f, hd_hash = hash, hd_state_root = state_root\<rparr>)))))"

text \<open>What derivation ended with: an error, or the frontier it reached, if it was asked for one.\<close>

definition derivation_result :: "u64 \<Rightarrow> 'e + u64 option \<Rightarrow> 'e FinishError + unit" where
  "derivation_result f derivation = (case derivation of
       Inr (Some reached) \<Rightarrow> if reached = f then Inr () else Inl (WrongFrontierReached f)
     | Inr None \<Rightarrow> Inl (WrongFrontierReached f)
     | Inl e \<Rightarrow> Inl (DerivationFailed e))"

definition finish_finite_l1_execution :: "u64 option \<Rightarrow> 'e + u64 option \<Rightarrow> 'e WaitError + unit \<Rightarrow> u64 option
    \<Rightarrow> (u64 \<Rightarrow> ((b256 \<times> b256) option) option) \<Rightarrow> 'e FinishError + HeaderObservation" where
  "finish_finite_l1_execution finite_frontier derivation exit last_block_number sealed_header =
     rbind (ok_or NotFinite finite_frontier) (\<lambda>f.
     let teardown = wait_for_finite_execution finite_frontier exit last_block_number sealed_header in
     case (derivation_result f derivation, teardown) of
       (Inr _, result) \<Rightarrow> result
     | (Inl primary, Inr _) \<Rightarrow> Inl primary
     | (Inl primary, Inl e) \<Rightarrow> Inl (BothFailed primary e))"

section \<open>Nothing is lost or reordered within a source\<close>

definition opt_list :: "'a option \<Rightarrow> 'a list" where
  "opt_list x = (case x of None \<Rightarrow> [] | Some a \<Rightarrow> [a])"

lemma opt_list_simps [simp]: "opt_list None = []" "opt_list (Some a) = [a]"
  by (simp_all add: opt_list_def)

fun stream :: "MessageSource \<Rightarrow> 'c IngressScheduler \<Rightarrow> 'c FeedMessage list" where
  "stream Feed s = opt_list (sc_feed_pending s) @ arrivals (sc_feed_messages s)"
| "stream L1 s = opt_list (sc_l1_pending s) @ sc_l1_buffered s @ arrivals (sc_l1_messages s)"

text \<open>A closed source has nothing left beside its head.\<close>

definition drained :: "'c IngressScheduler \<Rightarrow> bool" where
  "drained s \<longleftrightarrow> (\<not> sc_feed_open s \<longrightarrow> sc_feed_messages s = []) \<and> (\<not> sc_l1_open s \<longrightarrow> sc_l1_messages s = [] \<and> sc_l1_buffered s = [])"

text \<open>No head is there, and L1 has no buffered messages: the state in which the scheduler waits.\<close>

definition waiting :: "'c IngressScheduler \<Rightarrow> bool" where
  "waiting s \<longleftrightarrow> sc_feed_pending s = None \<and> sc_l1_pending s = None \<and> sc_l1_buffered s = []"

lemma try_fill_head_stream:
  assumes "drained s"
  shows "stream src (try_fill_head x s) = stream src s" "drained (try_fill_head x s)"
    "sc_owed (try_fill_head x s) = sc_owed s" "sc_l1_pending s \<noteq> None \<Longrightarrow> sc_l1_pending (try_fill_head x s) = sc_l1_pending s"
    "sc_feed_pending s \<noteq> None \<Longrightarrow> sc_feed_pending (try_fill_head x s) = sc_feed_pending s"
  using assms
  by (cases x; cases src; cases "sc_feed_messages s" rule: try_recv.cases; cases "sc_l1_messages s" rule: try_recv.cases;
      auto simp: try_fill_feed_def try_fill_l1_def drained_def)+

lemma fill_heads_stream:
  assumes "drained s"
  shows "stream src (fill_heads s) = stream src s" "drained (fill_heads s)" "sc_owed (fill_heads s) = sc_owed s"
    "sc_l1_pending s \<noteq> None \<Longrightarrow> sc_l1_pending (fill_heads s) = sc_l1_pending s"
    "sc_feed_pending s \<noteq> None \<Longrightarrow> sc_feed_pending (fill_heads s) = sc_feed_pending s"
  using try_fill_head_stream [OF assms] try_fill_head_stream [OF try_fill_head_stream(2) [OF assms]]
  by (simp_all add: fill_heads_def del: try_fill_head.simps)

lemma fill_heads_waiting:
  assumes "drained s" "sc_feed_pending (fill_heads s) = None" "sc_l1_pending (fill_heads s) = None"
  shows "waiting (fill_heads s)"
proof -
  let ?t = "try_fill_head Feed s"
  have "drained ?t" by (rule try_fill_head_stream(2) [OF assms(1)])
  then have "sc_l1_buffered (fill_heads s) = []"
    using assms(3) unfolding fill_heads_def by (auto simp: try_fill_l1_def drained_def split: if_splits prod.splits TryRecv.splits)
  then show ?thesis using assms(2,3) by (simp add: waiting_def)
qed

lemma poll_branch_stream:
  assumes "poll_branch x s = (s', ready)" "drained s" "waiting s"
  shows "stream src s' = stream src s" "drained s'" "\<not> ready \<Longrightarrow> waiting s'" "sc_owed s' = sc_owed s"
  using assms
  by (cases x; cases src; cases "sc_feed_messages s" rule: try_recv.cases; cases "sc_l1_messages s" rule: try_recv.cases;
      auto simp: drained_def waiting_def split: if_splits)+

lemma wait_poll_stream:
  assumes "wait_poll s = (s', ready)" "drained s" "waiting s"
  shows "stream src s' = stream src s" "drained s'" "\<not> ready \<Longrightarrow> waiting s'" "sc_owed s' = sc_owed s"
proof -
  obtain s1 r1 where p: "poll_branch (sc_owed s) s = (s1, r1)" by fastforce
  note a = poll_branch_stream [OF p assms(2,3)]
  have "stream src s' = stream src s \<and> drained s' \<and> (\<not> ready \<longrightarrow> waiting s') \<and> sc_owed s' = sc_owed s" for src
  proof (cases r1)
    case True
    then show ?thesis using a assms(1) p by (auto simp: wait_poll_def)
  next
    case False
    then have "poll_branch (other (sc_owed s1)) s1 = (s', ready)" using assms(1) p by (simp add: wait_poll_def)
    from poll_branch_stream [OF this a(2) a(3) [OF False]] show ?thesis using a(1,4) by auto
  qed
  then show "stream src s' = stream src s" "drained s'" "\<not> ready \<Longrightarrow> waiting s'" "sc_owed s' = sc_owed s" by auto
qed

lemma await_head_stream:
  assumes "drained s" "waiting s"
  shows "stream src (await_head s) = stream src s \<and> drained (await_head s) \<and> sc_owed (await_head s) = sc_owed s"
  using assms
proof (induction s rule: await_head.induct)
  case (1 s)
  obtain s' ready where w: "wait_poll s = (s', ready)" by fastforce
  note p = wait_poll_stream [OF w "1.prems"]
  show ?case
  proof (cases "\<not> sc_feed_open s \<and> \<not> sc_l1_open s")
    case True
    then show ?thesis using "1.prems" by (simp add: await_head.simps)
  next
    case alive: False
    then have "await_head s = (if ready then s' else await_head s')" using w by (subst await_head.simps) (auto split: bool.splits)
    then show ?thesis using p "1.IH" [OF alive w [symmetric]] by simp
  qed
qed

lemma fill_batch_stream:
  assumes "fill_batch n src s messages = (s', messages')" "drained s"
    and "if src = Feed then sc_feed_pending s = None else sc_l1_pending s = None"
  shows "\<exists>more. messages' = messages @ more \<and> stream src s = more @ stream src s' \<and> length more \<le> n" "drained s'"
    "stream (other src) s' = stream (other src) s" "sc_owed s' = sc_owed s"
    "sc_feed_pending s' = sc_feed_pending s" "sc_l1_pending s' = sc_l1_pending s"
proof -
  have "(\<exists>more. messages' = messages @ more \<and> stream src s = more @ stream src s' \<and> length more \<le> n) \<and> drained s'
    \<and> stream (other src) s' = stream (other src) s \<and> sc_owed s' = sc_owed s
    \<and> sc_feed_pending s' = sc_feed_pending s \<and> sc_l1_pending s' = sc_l1_pending s"
    using assms
  proof (induction n src s messages rule: fill_batch.induct)
    case (2 n s messages)
    then show ?case
      by (cases "sc_feed_messages s" rule: try_recv.cases) (fastforce simp: drained_def)+
  next
    case (3 n s messages)
    show ?case
    proof (cases "sc_l1_buffered s")
      case Nil
      then show ?thesis using 3 by (cases "sc_l1_messages s" rule: try_recv.cases) (fastforce simp: drained_def)+
    next
      case (Cons m ms)
      then have "drained (s\<lparr>sc_l1_buffered := ms\<rparr>)" using "3.prems"(2) by (simp add: drained_def)
      then show ?thesis using 3 Cons by fastforce
    qed
  qed simp
  then show "\<exists>more. messages' = messages @ more \<and> stream src s = more @ stream src s' \<and> length more \<le> n" "drained s'"
    "stream (other src) s' = stream (other src) s" "sc_owed s' = sc_owed s"
    "sc_feed_pending s' = sc_feed_pending s" "sc_l1_pending s' = sc_l1_pending s" by auto
qed

lemma select_batch_stream:
  assumes "select_batch next_sequence s = (s', b)" "drained s" "sc_feed_pending s \<noteq> None \<or> sc_l1_pending s \<noteq> None"
  shows "stream (sb_source b) s = sb_messages b @ stream (sb_source b) s'" "stream (other (sb_source b)) s' = stream (other (sb_source b)) s"
    "drained s'" "sc_owed s' = sc_owed s" "length (sb_messages b) \<le> MAX_MESSAGE_BATCH" "sb_messages b \<noteq> []"
    "sb_source b = choose_source next_sequence s" "sb_kind b = (if gap_closer next_sequence s then GapCloser else OrdinaryBatch)"
    "sb_kind b = GapCloser \<Longrightarrow> length (sb_messages b) = 1"
    "sb_source b = Feed \<Longrightarrow> sc_l1_pending s' = sc_l1_pending s" "sb_source b = L1 \<Longrightarrow> sc_feed_pending s' = sc_feed_pending s"
    "hd (sb_messages b) = (case sb_source b of Feed \<Rightarrow> the (sc_feed_pending s) | L1 \<Rightarrow> the (sc_l1_pending s))"
proof -
  let ?src = "choose_source next_sequence s"
  obtain first t where t: "take_head ?src s = (first, t)" by fastforce
  have has: "(if ?src = Feed then sc_feed_pending s else sc_l1_pending s) = Some first"
    using assms(3) t by (auto simp: choose_source_def gap_closer_def split: option.splits if_splits)
      (cases "sc_owed s"; auto)+
  have tk: "stream ?src s = first # stream ?src t" "stream (other ?src) t = stream (other ?src) s" "drained t" "sc_owed t = sc_owed s"
    "if ?src = Feed then sc_feed_pending t = None else sc_l1_pending t = None"
    "?src = Feed \<Longrightarrow> sc_l1_pending t = sc_l1_pending s" "?src = L1 \<Longrightarrow> sc_feed_pending t = sc_feed_pending s"
    using has t assms(2) by (cases ?src; auto simp: drained_def)+
  let ?r = "if gap_closer next_sequence s then (t, [first]) else fill_batch (MAX_MESSAGE_BATCH - 1) ?src t [first]"
  have sel: "?r = (s', sb_messages b)" "sb_source b = ?src" "sb_kind b = (if gap_closer next_sequence s then GapCloser else OrdinaryBatch)"
    using assms(1) t by (auto simp: select_batch_def Let_def split: prod.splits if_splits)
  have fill: "\<exists>more. sb_messages b = first # more \<and> stream ?src t = more @ stream ?src s' \<and> length more \<le> MAX_MESSAGE_BATCH - 1" "drained s'"
    "stream (other ?src) s' = stream (other ?src) t" "sc_owed s' = sc_owed t" "sc_feed_pending s' = sc_feed_pending t" "sc_l1_pending s' = sc_l1_pending t"
  proof -
    have "(\<exists>more. sb_messages b = first # more \<and> stream ?src t = more @ stream ?src s' \<and> length more \<le> MAX_MESSAGE_BATCH - 1) \<and> drained s'
      \<and> stream (other ?src) s' = stream (other ?src) t \<and> sc_owed s' = sc_owed t \<and> sc_feed_pending s' = sc_feed_pending t
      \<and> sc_l1_pending s' = sc_l1_pending t"
    proof (cases "gap_closer next_sequence s")
      case True
      then show ?thesis using sel(1) tk by simp
    next
      case False
      then have "fill_batch (MAX_MESSAGE_BATCH - 1) ?src t [first] = (s', sb_messages b)" using sel(1) by simp
      from fill_batch_stream [OF this tk(3,5)] show ?thesis by simp
    qed
    then show "\<exists>more. sb_messages b = first # more \<and> stream ?src t = more @ stream ?src s' \<and> length more \<le> MAX_MESSAGE_BATCH - 1" "drained s'"
      "stream (other ?src) s' = stream (other ?src) t" "sc_owed s' = sc_owed t" "sc_feed_pending s' = sc_feed_pending t"
      "sc_l1_pending s' = sc_l1_pending t" by auto
  qed
  from fill(1) obtain more where more: "sb_messages b = first # more" "stream ?src t = more @ stream ?src s'" "length more \<le> MAX_MESSAGE_BATCH - 1"
    by blast
  show "stream (sb_source b) s = sb_messages b @ stream (sb_source b) s'" "stream (other (sb_source b)) s' = stream (other (sb_source b)) s"
    using tk(1,2) more(1,2) fill(3) sel(2) by simp_all
  show "drained s'" "sc_owed s' = sc_owed s" "sb_source b = choose_source next_sequence s" "sb_messages b \<noteq> []"
      "sb_kind b = (if gap_closer next_sequence s then GapCloser else OrdinaryBatch)"
    using fill(2,4) tk(4) sel more(1) by simp_all
  show "length (sb_messages b) \<le> MAX_MESSAGE_BATCH" using more(1,3) by (simp add: MAX_MESSAGE_BATCH_def)
  have "gap_closer next_sequence s \<Longrightarrow> sb_messages b = [first]" using sel(1) by simp
  then show "sb_kind b = GapCloser \<Longrightarrow> length (sb_messages b) = 1" using sel(3) by (simp split: if_splits)
  show "sb_source b = Feed \<Longrightarrow> sc_l1_pending s' = sc_l1_pending s" "sb_source b = L1 \<Longrightarrow> sc_feed_pending s' = sc_feed_pending s"
    using fill(5,6) tk(6,7) sel(2) by simp_all
  show "hd (sb_messages b) = (case sb_source b of Feed \<Rightarrow> the (sc_feed_pending s) | L1 \<Rightarrow> the (sc_l1_pending s))"
    using has more(1) sel(2) by (cases ?src) simp_all
qed

lemma next_batch_stream:
  assumes "next_batch next_sequence s = (s', r)" "drained s"
  shows "drained s'" "sc_owed s' = sc_owed s"
    "r = None \<Longrightarrow> stream src s = [] \<and> stream src s' = []"
    "r = Some b \<Longrightarrow> stream (sb_source b) s = sb_messages b @ stream (sb_source b) s' \<and> stream (other (sb_source b)) s' = stream (other (sb_source b)) s
       \<and> length (sb_messages b) \<le> MAX_MESSAGE_BATCH \<and> sb_messages b \<noteq> []"
proof -
  have "drained s' \<and> sc_owed s' = sc_owed s \<and> (r = None \<longrightarrow> stream src s = [] \<and> stream src s' = [])
    \<and> (r = Some b \<longrightarrow> stream (sb_source b) s = sb_messages b @ stream (sb_source b) s' \<and> stream (other (sb_source b)) s' = stream (other (sb_source b)) s
       \<and> length (sb_messages b) \<le> MAX_MESSAGE_BATCH \<and> sb_messages b \<noteq> [])" for src b
    using assms
  proof (induction next_sequence s rule: next_batch.induct)
    case (1 next_sequence s)
    let ?f = "fill_heads s"
    note f = fill_heads_stream [OF "1.prems"(2)]
    consider (none) "sc_feed_pending ?f = None" "sc_l1_pending ?f = None" "\<not> sc_feed_open ?f" "\<not> sc_l1_open ?f"
      | (wait) "sc_feed_pending ?f = None" "sc_l1_pending ?f = None" "sc_feed_open ?f \<or> sc_l1_open ?f"
      | (some) "sc_feed_pending ?f \<noteq> None \<or> sc_l1_pending ?f \<noteq> None" by blast
    then show ?case
    proof cases
      case none
      have "stream src ?f = []" using none f(2) by (cases src) (simp_all add: drained_def)
      then show ?thesis using none f "1.prems"(1) by (subst (asm) next_batch.simps) (auto simp: Let_def)
    next
      case wait
      have w: "stream src (await_head ?f) = stream src s \<and> drained (await_head ?f) \<and> sc_owed (await_head ?f) = sc_owed s" for src
        using await_head_stream [OF f(2) fill_heads_waiting [OF "1.prems"(2) wait(1,2)]] f by simp
      have "next_batch next_sequence (await_head ?f) = (s', r)"
        using "1.prems"(1) wait by (subst (asm) next_batch.simps) (auto simp: Let_def)
      then show ?thesis using "1.IH" [OF refl] wait w by simp
    next
      case some
      then obtain b' where sel: "select_batch next_sequence ?f = (s', b')" "r = Some b'"
        using "1.prems"(1) by (subst (asm) next_batch.simps) (auto simp: Let_def split: prod.splits)
      from select_batch_stream [OF sel(1) f(2) some] show ?thesis using f sel(2) by auto
    qed
  qed
  then show "drained s'" "sc_owed s' = sc_owed s"
    "r = None \<Longrightarrow> stream src s = [] \<and> stream src s' = []"
    "r = Some b \<Longrightarrow> stream (sb_source b) s = sb_messages b @ stream (sb_source b) s' \<and> stream (other (sb_source b)) s' = stream (other (sb_source b)) s
       \<and> length (sb_messages b) \<le> MAX_MESSAGE_BATCH \<and> sb_messages b \<noteq> []" by auto
qed

section \<open>Neither source starves the other\<close>

lemma next_batch_pending:
  assumes "drained s" "sc_feed_pending s \<noteq> None \<or> sc_l1_pending s \<noteq> None"
  shows "sc_feed_pending (fill_heads s) \<noteq> None \<or> sc_l1_pending (fill_heads s) \<noteq> None"
    "next_batch n s = (fst (select_batch n (fill_heads s)), Some (snd (select_batch n (fill_heads s))))"
proof -
  show p: "sc_feed_pending (fill_heads s) \<noteq> None \<or> sc_l1_pending (fill_heads s) \<noteq> None"
    using assms fill_heads_stream(4,5) [OF assms(1)] by auto
  then show "next_batch n s = (fst (select_batch n (fill_heads s)), Some (snd (select_batch n (fill_heads s))))"
    by (subst next_batch.simps) (auto simp: Let_def split: prod.splits)
qed

lemma complete_batch_simps [simp]:
  "stream src (complete_batch x k s) = stream src s" "drained (complete_batch x k s) = drained s"
  "sc_feed_pending (complete_batch x k s) = sc_feed_pending s" "sc_l1_pending (complete_batch x k s) = sc_l1_pending s"
  by (cases src; cases k; simp add: complete_batch_def drained_def)+

text \<open>C15: Neither source can hold back the other. While both have a message waiting, every batch has at most 64
  messages; after a batch from the feed the next batch is from L1, starting with the message that waited; after a batch
  from L1 the next is from the feed, starting with the message that waited, unless the next L1 message is exactly the
  one the chain is missing while the feed is ahead of it, which is then passed on alone.\<close>

theorem waiting_source_served:
  assumes "drained s" and "sc_feed_pending s = Some f" and "sc_l1_pending s = Some l"
    and "next_batch n s = (s1, Some b)" and "s2 = complete_batch (sb_source b) (sb_kind b) s1" and "next_batch n' s2 = (s3, r)"
  shows "length (sb_messages b) \<le> 64 \<and> (\<exists>b'. r = Some b' \<and> length (sb_messages b') \<le> 64
    \<and> (sb_source b = Feed \<longrightarrow> sb_source b' = L1 \<and> hd (sb_messages b') = l)
    \<and> (sb_source b = L1 \<longrightarrow> sb_source b' = Feed \<and> hd (sb_messages b') = f
        \<or> sb_kind b' = GapCloser \<and> map fm_sequence_number (sb_messages b') = [n'] \<and> n' < fm_sequence_number f))"
proof -
  let ?f = "fill_heads s"
  note fill = fill_heads_stream [OF assms(1)]
  have both: "sc_feed_pending ?f = Some f" "sc_l1_pending ?f = Some l" using fill(4,5) assms(2,3) by simp_all
  have sel: "select_batch n ?f = (s1, b)" using next_batch_pending(2) [OF assms(1), of n] assms(2,4) by (cases "select_batch n ?f") simp
  note b = select_batch_stream [OF sel fill(2) disjI1, simplified both, simplified]
  let ?g = "fill_heads s2"
  have d2: "drained s2" using b(3) assms(5) by simp
  note g = fill_heads_stream [OF d2]
  have owed: "sc_owed s2 = other (sb_source b)"
    using b(4,7,8) fill(3) both by (auto simp: assms(5) complete_batch_def choose_source_def gap_closer_def split: if_splits)
  have kept: "sb_source b = Feed \<Longrightarrow> sc_l1_pending s2 = Some l" "sb_source b = L1 \<Longrightarrow> sc_feed_pending s2 = Some f"
    using b(10,11) assms(5) by simp_all
  then have p2: "sc_feed_pending s2 \<noteq> None \<or> sc_l1_pending s2 \<noteq> None" by (cases "sb_source b") auto
  obtain b' where sel': "select_batch n' ?g = (s3, b')" "r = Some b'"
    using next_batch_pending(2) [OF d2 p2, of n'] assms(6) by (cases "select_batch n' ?g") simp
  note b' = select_batch_stream [OF sel'(1) g(2) next_batch_pending(1) [OF d2 p2]]
  show ?thesis
  proof (intro conjI exI [of _ b'] impI)
    show "length (sb_messages b) \<le> 64" "length (sb_messages b') \<le> 64" using b(5) b'(5) by (simp_all add: MAX_MESSAGE_BATCH_def)
    show "r = Some b'" by (rule sel'(2))
    assume src: "sb_source b = Feed"
    have "choose_source n' ?g = L1" using g(3,4) kept(1) [OF src] owed src by (auto simp: choose_source_def)
    then show "sb_source b' = L1" using b'(7) by simp
    then show "hd (sb_messages b') = l" using b'(12) g(4) kept(1) [OF src] by simp
  next
    assume src: "sb_source b = L1"
    have gf: "sc_feed_pending ?g = Some f" using g(5) kept(2) [OF src] by simp
    show "sb_source b' = Feed \<and> hd (sb_messages b') = f
        \<or> sb_kind b' = GapCloser \<and> map fm_sequence_number (sb_messages b') = [n'] \<and> n' < fm_sequence_number f"
    proof (cases "gap_closer n' ?g")
      case True
      then obtain m where "sb_messages b' = [m]" using b'(8,9) by (auto simp: length_Suc_conv)
      moreover have "hd (sb_messages b') = the (sc_l1_pending ?g)" using b'(7,12) True by (simp add: choose_source_def)
      ultimately show ?thesis using True b'(8) gf by (auto simp: gap_closer_def split: option.splits)
    next
      case False
      then have "choose_source n' ?g = Feed" using gf g(3) owed src by (auto simp: choose_source_def)
      then show ?thesis using b'(7,12) gf by simp
    qed
  qed
qed

section \<open>What reaches the driver\<close>

declare stream.simps [simp del]

abbreviation messages_of :: "('c Env \<times> 'c FeedMessage \<times> bool) list \<Rightarrow> 'c FeedMessage list" where
  "messages_of calls \<equiv> map (\<lambda>(env, msg, defer_tail). msg) calls"

definition admitted :: "ArbLaunchMode \<Rightarrow> u64 \<Rightarrow> 'c FeedMessage \<Rightarrow> bool" where
  "admitted mode genesis_block m \<longleftrightarrow> (\<exists>bn. admit_engine_handoff mode (fm_sequence_number m) genesis_block = Inr (Admitted bn))"

lemma admitted_Ordinary: "admit_engine_handoff Ordinary q g = Inr x \<Longrightarrow> \<exists>bn. x = Admitted bn"
  by (auto simp: admit_engine_handoff_def rbind_def split: sum.splits)

lemma admitted_Finite: "admitted (Finite f) g m \<Longrightarrow> unat (fm_sequence_number m) + unat g \<le> unat f"
  by (auto simp: admitted_def admit_engine_handoff_def finite_handoff_admission_def rbind_def ok_or_def checked_add64_Some word_le_nat_alt not_less
      split: sum.splits if_splits option.splits)

fun driver_error :: "DriveError option \<Rightarrow> DriverError option" where
  "driver_error (Some (AdvanceFailed e)) = Some e"
| "driver_error _ = None"

fun outcome_error :: "DriveOutcome \<Rightarrow> DriveError option" where
  "outcome_error (DriveFailed e) = Some e"
| "outcome_error _ = None"

lemma run_driver_append:
  "run_driver (xs @ ys) d = (case run_driver xs d of (d', None) \<Rightarrow> run_driver ys d' | (d', Some e) \<Rightarrow> (d', Some e))"
  by (induction xs d rule: run_driver.induct) (auto split: prod.splits sum.splits)

text \<open>The calls of a run, all on environments of its ticks and with admitted messages.\<close>

definition calls_ok :: "ArbLaunchMode \<Rightarrow> u64 \<Rightarrow> 'c DriveTick set \<Rightarrow> ('c Env \<times> 'c FeedMessage \<times> bool) list \<Rightarrow> bool" where
  "calls_ok mode g ticks calls \<longleftrightarrow> (\<forall>(env, msg, defer_tail) \<in> set calls. (\<exists>tick \<in> ticks. \<exists>i. env = dt_env tick i) \<and> admitted mode g msg)"

lemma calls_ok_simps [simp]:
  "calls_ok mode g ticks []" "calls_ok mode g ticks (xs @ ys) \<longleftrightarrow> calls_ok mode g ticks xs \<and> calls_ok mode g ticks ys"
  "calls_ok mode g ticks ((env, msg, defer_tail) # xs) \<longleftrightarrow> (\<exists>tick \<in> ticks. \<exists>i. env = dt_env tick i) \<and> admitted mode g msg \<and> calls_ok mode g ticks xs"
  by (simp_all add: calls_ok_def ball_Un)

lemma calls_ok_mono: "calls_ok mode g ticks calls \<Longrightarrow> ticks \<subseteq> ticks' \<Longrightarrow> calls_ok mode g ticks' calls"
  by (fastforce simp: calls_ok_def)

lemma drive_messages_calls:
  assumes "drive_messages mode g max_sequence tick len index batch (s, d) = ((s', d'), err)"
  shows "\<exists>calls. run_driver calls d = (d', driver_error err) \<and> calls_ok mode g {tick} calls
    \<and> (mode = Ordinary \<longrightarrow> err = None \<longrightarrow> messages_of calls = batch) \<and> (max_sequence = None \<longrightarrow> s' = s)"
  using assms
proof (induction batch arbitrary: index s d)
  case Nil
  then show ?case by (intro exI [of _ "[]"]) simp
next
  case (Cons msg batch)
  let ?s = "case max_sequence of Some m \<Rightarrow> if dt_close_seen tick index then close_l1_input m s else s | None \<Rightarrow> s"
  have keep: "max_sequence = None \<Longrightarrow> ?s = s" by simp
  show ?case
  proof (cases "admit_engine_handoff mode (fm_sequence_number msg) g")
    case (Inl e)
    then show ?thesis using Cons.prems by (intro exI [of _ "[]"]) (auto simp: Let_def)
  next
    case (Inr adm)
    show ?thesis
    proof (cases adm)
      case (RejectedAboveFrontier bn fr)
      then have "drive_messages mode g max_sequence tick len (index + 1) batch (?s, d) = ((s', d'), err)"
        using Cons.prems Inr by (simp add: Let_def)
      moreover have "mode \<noteq> Ordinary" using admitted_Ordinary [of "fm_sequence_number msg" g adm] Inr RejectedAboveFrontier by auto
      ultimately show ?thesis using Cons.IH [of "index + 1" ?s d] keep by auto
    next
      case (Admitted bn)
      have ok: "admitted mode g msg" using Inr Admitted by (auto simp: admitted_def)
      obtain d1 r where a: "advance_with_applied_inner (dt_env tick index) msg (index + 1 < len) d = (d1, r)" by fastforce
      show ?thesis
      proof (cases r)
        case (Inl e)
        then show ?thesis using Cons.prems Inr Admitted a ok keep
          by (intro exI [of _ "[(dt_env tick index, msg, index + 1 < len)]"]) (auto simp: Let_def)
      next
        case (Inr h)
        then have "drive_messages mode g max_sequence tick len (index + 1) batch (?s, d1) = ((s', d'), err)"
          using Cons.prems \<open>admit_engine_handoff mode (fm_sequence_number msg) g = Inr adm\<close> Admitted a by (simp add: Let_def)
        from Cons.IH [OF this] obtain calls where "run_driver calls d1 = (d', driver_error err)" "calls_ok mode g {tick} calls"
            "mode = Ordinary \<Longrightarrow> err = None \<Longrightarrow> messages_of calls = batch" "max_sequence = None \<Longrightarrow> s' = ?s" by blast
        then show ?thesis using a Inr ok keep
          by (intro exI [of _ "(dt_env tick index, msg, index + 1 < len) # calls"]) auto
      qed
    qed
  qed
qed

text \<open>One turn: its calls; in an ordinary run they pass on what one source had waiting.\<close>

lemma shuffles_append:
  "zs \<in> shuffles xs ys \<Longrightarrow> zs' \<in> shuffles xs' ys' \<Longrightarrow> zs @ zs' \<in> shuffles (xs @ xs') (ys @ ys')"
proof (induction xs ys arbitrary: zs rule: shuffles.induct)
  case (1 ys)
  then have "zs = ys" by simp
  then show ?case using "1.prems"(2) by (induction ys arbitrary: zs) (auto intro: Cons_in_shuffles_rightI)
next
  case (2 xs)
  then have "zs = xs" by simp
  then show ?case using "2.prems"(2) by (induction xs arbitrary: zs) (auto intro: Cons_in_shuffles_leftI)
next
  case (3 x xs y ys)
  then show ?case by (auto intro: Cons_in_shuffles_leftI Cons_in_shuffles_rightI)
qed

definition passes_on :: "ArbLaunchMode \<Rightarrow> u64 option \<Rightarrow> 'c IngressScheduler \<Rightarrow> 'c IngressScheduler \<Rightarrow> DriveOutcome
    \<Rightarrow> ('c Env \<times> 'c FeedMessage \<times> bool) list \<Rightarrow> bool" where
  "passes_on mode max_sequence s s' out calls \<longleftrightarrow>
     (mode = Ordinary \<longrightarrow> max_sequence = None \<longrightarrow> drained s \<longrightarrow> outcome_error out = None
        \<longrightarrow> drained s' \<and> (\<exists>fs ls. messages_of calls \<in> shuffles fs ls \<and> stream Feed s = fs @ stream Feed s' \<and> stream L1 s = ls @ stream L1 s')
          \<and> (out = DriveDone \<longrightarrow> stream Feed s' = [] \<and> stream L1 s' = []))"

lemma passes_on_append:
  assumes "passes_on mode max_sequence s s1 DriveContinues c1" "passes_on mode max_sequence s1 s' out c2"
  shows "passes_on mode max_sequence s s' out (c1 @ c2)"
  unfolding passes_on_def
proof (intro impI)
  assume that: "mode = Ordinary" "max_sequence = None" "drained s" "outcome_error out = None"
  from assms(1) that obtain f1 l1 where a: "drained s1" "messages_of c1 \<in> shuffles f1 l1" "stream Feed s = f1 @ stream Feed s1"
      "stream L1 s = l1 @ stream L1 s1" by (auto simp: passes_on_def)
  from assms(2) that a(1) obtain f2 l2 where b: "drained s'" "messages_of c2 \<in> shuffles f2 l2" "stream Feed s1 = f2 @ stream Feed s'"
      "stream L1 s1 = l2 @ stream L1 s'" "out = DriveDone \<Longrightarrow> stream Feed s' = [] \<and> stream L1 s' = []" by (auto simp: passes_on_def)
  have "messages_of (c1 @ c2) \<in> shuffles (f1 @ f2) (l1 @ l2)" using shuffles_append [OF a(2) b(2)] by simp
  then show "drained s' \<and> (\<exists>fs ls. messages_of (c1 @ c2) \<in> shuffles fs ls \<and> stream Feed s = fs @ stream Feed s' \<and> stream L1 s = ls @ stream L1 s')
      \<and> (out = DriveDone \<longrightarrow> stream Feed s' = [] \<and> stream L1 s' = [])"
    using a(3,4) b by (intro conjI exI [of _ "f1 @ f2"] exI [of _ "l1 @ l2"]) auto
qed

lemma drive_turn_calls:
  assumes "drive_turn mode g max_sequence tick (s, d) = ((s', d'), out)"
  shows "\<exists>calls. run_driver calls d = (d', driver_error (outcome_error out)) \<and> calls_ok mode g {tick} calls
    \<and> passes_on mode max_sequence s s' out calls"
proof (cases "next_driver_sequence (sh_number (dv_tip d)) g")
  case (Inl e)
  then show ?thesis using assms by (intro exI [of _ "[]"]) (auto simp: drive_turn_def passes_on_def)
next
  case (Inr n)
  let ?s = "case max_sequence of Some m \<Rightarrow> if dt_closed tick then close_l1_input m s else s | None \<Rightarrow> s"
  obtain s1 r where nb: "next_batch n ?s = (s1, r)" by fastforce
  consider (cancel) "max_sequence \<noteq> None" "d' = d" "out = DriveContinues"
    | (ended) "r = None" "s' = s1" "d' = d" "out = DriveDone"
    | (batch) b where "r = Some b" "drive_batch mode g max_sequence tick b (s1, d) = ((s', d'), out)"
    using assms Inr nb by (cases max_sequence; cases "if dt_closed tick then None else dt_cancel tick"; cases r)
      (auto simp: drive_turn_def Let_def)
  then show ?thesis
  proof cases
    case cancel
    then show ?thesis by (intro exI [of _ "[]"]) (auto simp: passes_on_def)
  next
    case ended
    have "drained s1 \<and> stream src s = [] \<and> stream src s1 = []" if "max_sequence = None" "drained s" for src
      using next_batch_stream(1,3) [OF nb] that ended(1) by simp
    then show ?thesis using ended by (intro exI [of _ "[]"]) (auto simp: passes_on_def)
  next
    case (batch b)
    obtain s2 err where dm: "drive_messages mode g max_sequence tick (length (sb_messages b)) 0 (sb_messages b) (s1, d) = ((s2, d'), err)"
        and out: "outcome_error out = err" "out \<noteq> DriveDone" "err = None \<Longrightarrow> s' = complete_batch (sb_source b) (sb_kind b) s2"
      using batch(2) by (auto simp: drive_batch_def split: prod.splits option.splits)
    from drive_messages_calls [OF dm] obtain calls where calls: "run_driver calls d = (d', driver_error err)" "calls_ok mode g {tick} calls"
        "mode = Ordinary \<Longrightarrow> err = None \<Longrightarrow> messages_of calls = sb_messages b" "max_sequence = None \<Longrightarrow> s2 = s1" by blast
    have "drained s' \<and> (\<exists>fs ls. messages_of calls \<in> shuffles fs ls \<and> stream Feed s = fs @ stream Feed s' \<and> stream L1 s = ls @ stream L1 s')"
      if "mode = Ordinary" "max_sequence = None" "drained s" "err = None"
    proof -
      have s': "s' = complete_batch (sb_source b) (sb_kind b) s1" using out(3) calls(4) that by simp
      have nb': "next_batch n s = (s1, Some b)" using nb batch(1) that by simp
      note st = next_batch_stream(1) [OF nb' that(3)] next_batch_stream(4) [OF nb' that(3) refl]
      show ?thesis
      proof (cases "sb_source b")
        case Feed
        then show ?thesis using st calls(3) that s' by (intro conjI exI [of _ "sb_messages b"] exI [of _ "[]"]) auto
      next
        case L1
        then show ?thesis using st calls(3) that s'
          by (intro conjI exI [of _ "[]"] exI [of _ "sb_messages b"]) auto
      qed
    qed
    then have "passes_on mode max_sequence s s' out calls" using out by (auto simp: passes_on_def)
    then show ?thesis using calls(1,2) out(1) by (intro exI [of _ calls]) simp
  qed
qed

lemma drive_loop_calls:
  assumes "drive_loop mode g max_sequence ticks (s, d) = ((s', d'), out)"
  shows "\<exists>calls. run_driver calls d = (d', driver_error (outcome_error out)) \<and> calls_ok mode g (set ticks) calls
    \<and> passes_on mode max_sequence s s' out calls"
  using assms
proof (induction ticks arbitrary: s d)
  case Nil
  then show ?case by (intro exI [of _ "[]"]) (auto simp: passes_on_def)
next
  case (Cons tick ticks)
  obtain s1 d1 out1 where t: "drive_turn mode g max_sequence tick (s, d) = ((s1, d1), out1)" by (metis prod.exhaust)
  from drive_turn_calls [OF t] obtain c1 where c1: "run_driver c1 d = (d1, driver_error (outcome_error out1))" "calls_ok mode g {tick} c1"
      "passes_on mode max_sequence s s1 out1 c1" by blast
  have ok1: "calls_ok mode g (set (tick # ticks)) c1" by (rule calls_ok_mono [OF c1(2)]) simp
  show ?case
  proof (cases "out1 = DriveContinues")
    case False
    then have "s' = s1" "d' = d1" "out = out1" using Cons.prems t by (cases out1; simp)+
    then show ?thesis using c1(1,3) ok1 by blast
  next
    case True
    then have "drive_loop mode g max_sequence ticks (s1, d1) = ((s', d'), out)" using Cons.prems t by simp
    from Cons.IH [OF this] obtain c2 where c2: "run_driver c2 d1 = (d', driver_error (outcome_error out))" "calls_ok mode g (set ticks) c2"
      "passes_on mode max_sequence s1 s' out c2" by blast
    have ok2: "calls_ok mode g (set (tick # ticks)) c2" by (rule calls_ok_mono [OF c2(2)]) auto
    have "run_driver (c1 @ c2) d = (d', driver_error (outcome_error out))" using c1(1) c2(1) True by (simp add: run_driver_append)
    moreover have "passes_on mode max_sequence s s' out (c1 @ c2)" using passes_on_append [OF _ c2(3)] c1(3) True by simp
    ultimately show ?thesis using ok1 ok2 by (intro exI [of _ "c1 @ c2"]) simp
  qed
qed

section \<open>Launches\<close>

lemma launch_calls:
  assumes "launch mode g tip feed l1 ticks = Inr ((s, d), out)"
  shows "\<exists>calls. run_driver calls (Driver_new tip g) = (d, driver_error (outcome_error out)) \<and> calls_ok mode g (set ticks) calls
    \<and> (mode = Ordinary \<longrightarrow> out = DriveDone \<longrightarrow> messages_of calls \<in> shuffles (arrivals feed) (arrivals l1))"
proof -
  let ?s = "if is_serving mode then IngressScheduler_new feed l1 else l1_only l1"
  obtain m where m: "finite_max_sequence mode g = Inr m" "drive_loop mode g m ticks (?s, Driver_new tip g) = ((s, d), out)"
    using assms by (auto simp: launch_def rbind_def split: sum.splits)
  from drive_loop_calls [OF m(2)] obtain calls where c: "run_driver calls (Driver_new tip g) = (d, driver_error (outcome_error out))"
      "calls_ok mode g (set ticks) calls" "passes_on mode m ?s s out calls" by blast
  have "messages_of calls \<in> shuffles (arrivals feed) (arrivals l1)" if "mode = Ordinary" "out = DriveDone"
  proof -
    have "m = None" "?s = IngressScheduler_new feed l1" using m(1) that by (simp_all add: finite_max_sequence_def is_serving_def)
    moreover have "stream Feed (IngressScheduler_new feed l1) = arrivals feed" "stream L1 (IngressScheduler_new feed l1) = arrivals l1"
        "drained (IngressScheduler_new feed l1)"
      by (simp_all add: stream.simps IngressScheduler_new_def drained_def)
    ultimately show ?thesis using c(3) that by (auto simp: passes_on_def)
  qed
  then show ?thesis using c by blast
qed

lemma calls_ok_build:
  "calls_ok mode g ticks calls \<Longrightarrow> \<forall>tick \<in> ticks. \<forall>i. en_resolve (dt_env tick i) = build
    \<Longrightarrow> \<forall>(env, msg, defer_tail) \<in> set calls. en_resolve env = build"
  by (fastforce simp: calls_ok_def)

text \<open>C16: The chain does not depend on timing. Of two ordinary runs that receive the same messages, each message from
  either source and any number of times, at whatever moments and split into whatever batches, and that end because both
  sources are exhausted, both end with the same blocks and the same tip, and every message that could be applied has been.
  This supposes that one sequence number stands for one message, that no message has the last sequence number, and that
  each run receives at most 50,000 messages, repetitions included: the driver buffers no more than that, and a run with
  more messages ahead of the chain may drop some.\<close>

theorem launch_timing_irrelevant:
  assumes "launch Ordinary g tip feed l1 ticks = Inr ((s, d), DriveDone)" and "launch Ordinary g tip feed' l1' ticks' = Inr ((s', d'), DriveDone)"
    and "\<forall>tick \<in> set ticks \<union> set ticks'. \<forall>i. en_resolve (dt_env tick i) = build"
    and "M = set (arrivals feed) \<union> set (arrivals l1)" and "M = set (arrivals feed') \<union> set (arrivals l1')"
    and "inj_on fm_sequence_number M" and "\<forall>m \<in> M. fm_sequence_number m < - 1"
    and "length (arrivals feed) + length (arrivals l1) \<le> MAX_PENDING" and "length (arrivals feed') + length (arrivals l1') \<le> MAX_PENDING"
  shows "dv_blocks d = dv_blocks d' \<and> dv_tip d = dv_tip d' \<and> dv_next_seq d = dv_next_seq d' \<and> dv_next_seq d \<notin> fm_sequence_number ` M
    \<and> chain build tip (dv_blocks d)"
proof -
  from launch_calls [OF assms(1)] obtain calls where c: "run_driver calls (Driver_new tip g) = (d, None)" "calls_ok Ordinary g (set ticks) calls"
      "messages_of calls \<in> shuffles (arrivals feed) (arrivals l1)" by auto
  from launch_calls [OF assms(2)] obtain calls' where c': "run_driver calls' (Driver_new tip g) = (d', None)" "calls_ok Ordinary g (set ticks') calls'"
      "messages_of calls' \<in> shuffles (arrivals feed') (arrivals l1')" by auto
  have M: "call_messages calls = M" "call_messages calls' = M"
    using set_shuffles [OF c(3)] set_shuffles [OF c'(3)] assms(4,5) by simp_all
  have len: "length calls \<le> MAX_PENDING" "length calls' \<le> MAX_PENDING"
    using length_shuffles [OF c(3)] length_shuffles [OF c'(3)] assms(8,9) by simp_all
  have b: "\<forall>(env, msg, defer_tail) \<in> set calls. en_resolve env = build" "\<forall>(env, msg, defer_tail) \<in> set calls'. en_resolve env = build"
    using calls_ok_build [OF c(2)] calls_ok_build [OF c'(2)] assms(3) by (simp_all add: ball_Un)
  have "dv_blocks d = dv_blocks d' \<and> dv_tip d = dv_tip d' \<and> dv_next_seq d = dv_next_seq d' \<and> dv_next_seq d \<notin> fm_sequence_number ` call_messages calls
      \<and> set (sequences (dv_blocks d)) \<subseteq> fm_sequence_number ` call_messages calls"
    by (rule runs_agree [OF c(1) c'(1)]) (use b M len assms(6,7) in \<open>simp_all add: ball_Un\<close>)
  moreover have "chain build tip (dv_blocks d)"
    using run_linked [OF c(1) b(1) Driver_new_inv(1,2,3)] by (simp add: linked_def)
  ultimately show ?thesis unfolding M by (intro conjI) (elim conjE, assumption)+
qed

text \<open>C17: A finite run stays below its frontier. It is refused if the frontier is below genesis; otherwise, whatever arrives,
  whenever the input is closed and however the run ends, no block is built for a message above the frontier, the blocks
  form one chain from the tip the run started with, and the feed has no influence.\<close>

theorem finite_run_bounded:
  assumes "launch (Finite f) g tip feed l1 ticks = r" and "\<forall>tick \<in> set ticks. \<forall>i. en_resolve (dt_env tick i) = build"
  shows "(isl r \<longleftrightarrow> f < g) \<and> r = launch (Finite f) g tip feed' l1 ticks
    \<and> (\<forall>s d out. r = Inr ((s, d), out) \<longrightarrow> chain build tip (dv_blocks d)
        \<and> (\<forall>(m, h) \<in> set (dv_blocks d). unat (fm_sequence_number m) + unat g \<le> unat f))"
proof (intro conjI allI impI)
  show "isl r \<longleftrightarrow> f < g" "r = launch (Finite f) g tip feed' l1 ticks"
    using assms(1) by (auto simp: launch_def finite_max_sequence_def checked_sub64_def is_serving_def rbind_def ok_or_def split: sum.splits option.splits if_splits)
  fix s d out assume "r = Inr ((s, d), out)"
  with assms(1) have "launch (Finite f) g tip feed l1 ticks = Inr ((s, d), out)" by simp
  from launch_calls [OF this] obtain calls where c: "run_driver calls (Driver_new tip g) = (d, driver_error (outcome_error out))"
      "calls_ok (Finite f) g (set ticks) calls" by blast
  note l = run_linked [OF c(1) calls_ok_build [OF c(2) assms(2)] Driver_new_inv(1,2,3)]
  then show "chain build tip (dv_blocks d)" by (simp add: linked_def)
  have "admitted (Finite f) g m" if "(m, h) \<in> set (dv_blocks d)" for m h
  proof -
    have "m \<in> call_messages calls" using l that by force
    then show ?thesis using c(2) by (auto simp: calls_ok_def)
  qed
  then show "\<forall>(m, h) \<in> set (dv_blocks d). unat (fm_sequence_number m) + unat g \<le> unat f"
    using admitted_Finite by blast
qed

section \<open>Completion\<close>

text \<open>A finite run is reported as finished only when derivation reached its frontier and the durable tip is there.\<close>

lemma finish_finite_ok:
  assumes "finish_finite_l1_execution finite_frontier derivation exit last_block_number sealed_header = Inr header"
  shows "\<exists>f. finite_frontier = Some f \<and> derivation = Inr (Some f) \<and> exit = Inr () \<and> last_block_number = Some f
    \<and> hd_number header = f \<and> sealed_header f = Some (Some (hd_hash header, hd_state_root header))"
  using assms
  by (auto simp: finish_finite_l1_execution_def wait_for_finite_execution_def derivation_result_def rbind_def ok_or_def map_err_def Let_def
      split: option.splits sum.splits if_splits)

text \<open>A failure is given to exactly one of the waiters that look after it, a success to all of them.\<close>

fun looks :: "nat \<Rightarrow> 'e FiniteCompletionState \<Rightarrow> ('e WaitError + unit) option list" where
  "looks 0 st = []"
| "looks (Suc n) st = (case wait_look st of (r, st) \<Rightarrow> r # looks n st)"

lemma failure_observed_once:
  "looks (Suc n) (complete (Inl e) Pending) = Some (Inl (Observed e)) # replicate n (Some (Inl AlreadyObserved))"
  "looks n (complete (Inr ()) Pending) = replicate n (Some (Inr ()))"
proof -
  have "looks n FailedAlreadyObserved = replicate n (Some (Inl AlreadyObserved))" by (induction n) simp_all
  then show "looks (Suc n) (complete (Inl e) Pending) = Some (Inl (Observed e)) # replicate n (Some (Inl AlreadyObserved))" by simp
  show "looks n (complete (Inr ()) Pending) = replicate n (Some (Inr ()))" by (induction n) simp_all
qed

section \<open>Witnesses\<close>

definition ing_tick :: "unit DriveTick" where
  "ing_tick = \<lparr>dt_closed = False, dt_cancel = None, dt_close_seen = (\<lambda>_. False), dt_env = (\<lambda>_. drv_env)\<rparr>"

definition ing_close :: "unit DriveTick" where
  "ing_close = ing_tick\<lparr>dt_cancel := Some 0\<rparr>"

lemma ing_build: "en_resolve (dt_env ing_tick i) = drv_build" "en_resolve (dt_env ing_close i) = drv_build"
  by (simp_all add: ing_tick_def ing_close_def drv_env_def)

text \<open>Evaluation of a turn that does not have to wait.\<close>

lemma next_batch_done:
  "sc_feed_pending (fill_heads s) = None \<Longrightarrow> sc_l1_pending (fill_heads s) = None \<Longrightarrow> \<not> sc_feed_open (fill_heads s) \<Longrightarrow> \<not> sc_l1_open (fill_heads s)
    \<Longrightarrow> next_batch n s = (fill_heads s, None)"
  by (subst next_batch.simps) (simp add: Let_def)

lemma next_batch_head:
  "sc_feed_pending (fill_heads s) \<noteq> None \<or> sc_l1_pending (fill_heads s) \<noteq> None
    \<Longrightarrow> next_batch n s = (fst (select_batch n (fill_heads s)), Some (snd (select_batch n (fill_heads s))))"
  by (subst next_batch.simps) (auto simp: Let_def split: prod.splits)

lemmas fill_batch_numeral = fill_batch.simps(2,3) [of "pred_numeral k" for k, folded numeral_eq_Suc]

lemmas scheduler_eval = IngressScheduler_new_def l1_only_def next_batch_done next_batch_head fill_heads_def try_fill_feed_def try_fill_l1_def
  fill_batch_numeral select_batch_def choose_source_def gap_closer_def MAX_MESSAGE_BATCH_def complete_batch_def

lemmas launch_eval = launch_def finite_max_sequence_def is_serving_def drive_turn_def next_driver_sequence_def checked_add64_def checked_sub64_def
  drive_batch_def admit_engine_handoff_def finite_handoff_admission_def ing_tick_def ing_close_def cancelled_wait_def close_l1_input_def
  scheduler_eval driver_eval drv_tip_def drv_msg_def drv_env_def drv_build_def

text \<open>The feed starts ahead of the chain and L1 closes the gap; and the same messages, all from L1.\<close>

abbreviation ing_run :: "EngineHandoffAdmissionError + (unit IngressScheduler \<times> unit Driver) \<times> DriveOutcome" where
  "ing_run \<equiv> launch Ordinary 5 drv_tip [Arrived (drv_msg 3 90)] [Arrived (drv_msg 1 100), NotYet, Arrived (drv_msg 2 101)]
     [ing_tick, ing_tick, ing_tick, ing_tick]"

abbreviation ing_run' :: "EngineHandoffAdmissionError + (unit IngressScheduler \<times> unit Driver) \<times> DriveOutcome" where
  "ing_run' \<equiv> launch Ordinary 5 drv_tip [] [Arrived (drv_msg 1 100), Arrived (drv_msg 2 101), Arrived (drv_msg 3 90)] [ing_tick, ing_tick]"

lemma ing_runs: "\<exists>s d. ing_run = Inr ((s, d), DriveDone)" "\<exists>s d. ing_run' = Inr ((s, d), DriveDone)"
  by (simp_all add: launch_eval)

theorem launch_timing_irrelevant_witness:
  "\<exists>s d s' d'. ing_run = Inr ((s, d), DriveDone) \<and> ing_run' = Inr ((s', d'), DriveDone) \<and> dv_blocks d = dv_blocks d' \<and> dv_tip d = dv_tip d'"
proof -
  obtain s d s' d' where r: "ing_run = Inr ((s, d), DriveDone)" "ing_run' = Inr ((s', d'), DriveDone)" using ing_runs by blast
  have "dv_blocks d = dv_blocks d' \<and> dv_tip d = dv_tip d' \<and> dv_next_seq d = dv_next_seq d'
      \<and> dv_next_seq d \<notin> fm_sequence_number ` {drv_msg 1 100, drv_msg 2 101, drv_msg 3 90} \<and> chain drv_build drv_tip (dv_blocks d)"
    by (rule launch_timing_irrelevant [OF r])
      (auto simp: ing_build drv_msg_def MAX_PENDING_def word_less_nat_alt unat_u64_max)
  with r show ?thesis by blast
qed

text \<open>A finite run up to block 6: the second message would be block 7.\<close>

abbreviation ing_finite :: "EngineHandoffAdmissionError + (unit IngressScheduler \<times> unit Driver) \<times> DriveOutcome" where
  "ing_finite \<equiv> launch (Finite 6) 5 drv_tip [] [Arrived (drv_msg 1 100), Arrived (drv_msg 2 101), NotYet, Arrived (drv_msg 3 90)]
     [ing_tick, ing_close, ing_tick]"

lemma ing_finite_ends: "\<exists>s d h. ing_finite = Inr ((s, d), DriveDone) \<and> dv_blocks d = [(drv_msg 1 100, h)]"
  by (simp add: launch_eval) (simp add: word_le_nat_alt)

theorem finite_run_bounded_witness:
  "\<exists>s d h. ing_finite = Inr ((s, d), DriveDone) \<and> dv_blocks d = [(drv_msg 1 100, h)] \<and> chain drv_build drv_tip (dv_blocks d)
    \<and> unat (fm_sequence_number (drv_msg 1 100)) + unat (5 :: u64) \<le> unat (6 :: u64)"
proof -
  obtain s d h where r: "ing_finite = Inr ((s, d), DriveDone)" "dv_blocks d = [(drv_msg 1 100, h)]" using ing_finite_ends by blast
  have "chain drv_build drv_tip (dv_blocks d) \<and> unat (fm_sequence_number (drv_msg 1 100)) + unat (5 :: u64) \<le> unat (6 :: u64)"
    using finite_run_bounded [OF r(1), of drv_build "[]"] r(2) ing_build by simp
  with r show ?thesis by blast
qed

text \<open>Both sources have a message waiting and the feed is first: L1 is next.\<close>

definition ing_both :: "unit IngressScheduler" where
  "ing_both = (IngressScheduler_new [] [])\<lparr>sc_feed_pending := Some (drv_msg 3 90), sc_l1_pending := Some (drv_msg 7 100)\<rparr>"

definition ing_first :: "unit IngressScheduler \<times> unit SelectedBatch option" where
  "ing_first = next_batch 9 ing_both"

definition ing_second :: "unit IngressScheduler \<times> unit SelectedBatch option" where
  "ing_second = next_batch 9 (complete_batch Feed OrdinaryBatch (fst ing_first))"

theorem waiting_source_served_witness:
  "map_option sb_source (snd ing_first) = Some Feed \<and> map_option sb_source (snd ing_second) = Some L1
    \<and> map_option (hd \<circ> sb_messages) (snd ing_second) = Some (drv_msg 7 100)"
proof -
  have d: "drained ing_both" "sc_feed_pending ing_both = Some (drv_msg 3 90)" "sc_l1_pending ing_both = Some (drv_msg 7 100)"
    by (simp_all add: ing_both_def IngressScheduler_new_def drained_def)
  have "\<exists>b. snd ing_first = Some b \<and> sb_source b = Feed \<and> sb_kind b = OrdinaryBatch"
    by (simp add: ing_first_def ing_both_def drv_msg_def scheduler_eval)
  then obtain b where b: "snd ing_first = Some b" "sb_source b = Feed" "sb_kind b = OrdinaryBatch" by blast
  have 1: "next_batch 9 ing_both = (fst ing_first, Some b)" using b(1) by (metis ing_first_def prod.collapse)
  have 2: "next_batch 9 (complete_batch (sb_source b) (sb_kind b) (fst ing_first)) = (fst ing_second, snd ing_second)"
    by (simp add: ing_second_def b)
  from waiting_source_served [OF d 1 refl 2] b show ?thesis by auto
qed

end
