(* ===== verification/Block_Production.thy ===== *)
theory Block_Production
  imports Frontier Tx_Log_Ipc
begin

text \<open>Producing one block from one message, \<^verbatim>\<open>produce_with_timing\<close> of
  \<^verbatim>\<open>crates/arb-reth-engine/src/engine.rs\<close>: the start-block transaction, the message's transactions and the retries
  they schedule, the observations published for every committed transaction, and the choice between the state root of
  the background task and the one computed when the block is finished. The EVM with its ArbOS state, the digest of the
  message, the block builder and the state-root task belong to other packages and are arguments. Timings are left out.\<close>

unbundle bit_operations_syntax

section \<open>State updates the sparse root task cannot represent\<close>

record Account =
  ac_selfdestructed :: bool
  ac_created :: bool
  ac_empty :: bool

type_synonym EvmState = "(address \<times> Account) list"

definition SPARSE_HAZARD_SELFDESTRUCT :: byte where "SPARSE_HAZARD_SELFDESTRUCT = push_bit 0 1"
definition SPARSE_HAZARD_CREATED_EMPTY :: byte where "SPARSE_HAZARD_CREATED_EMPTY = push_bit 1 1"

definition account_hazards :: "bool \<Rightarrow> byte \<Rightarrow> Account \<Rightarrow> byte" where
  "account_hazards preserve_created_empty_accounts hazards account =
     (let hazards = (if ac_selfdestructed account then hazards OR SPARSE_HAZARD_SELFDESTRUCT else hazards)
      in if preserve_created_empty_accounts \<and> ac_created account \<and> ac_empty account
         then hazards OR SPARSE_HAZARD_CREATED_EMPTY else hazards)"

definition sparse_root_hazards :: "EvmState \<Rightarrow> bool \<Rightarrow> byte" where
  "sparse_root_hazards state preserve_created_empty_accounts =
     foldl (account_hazards preserve_created_empty_accounts) 0 (map snd state)"

section \<open>The transaction loop\<close>

record TxResult =
  tr_success :: bool
  tr_gas_used :: u64
  tr_logs :: "Log list"
  tr_state :: EvmState

text \<open>What the loop uses of the EVM, its state being \<open>'s\<close>. Execution gives nothing for a transaction that is invalid
  under the state transition; a transaction that reverts is executed.\<close>

record ('tx, 's, 'ctx) Evm =
  evm_sender :: "'tx \<Rightarrow> address option"
  evm_hash :: "'tx \<Rightarrow> b256"
  evm_execute :: "'s \<Rightarrow> 'tx \<Rightarrow> address \<Rightarrow> (TxResult \<times> 's) option"
  evm_is_redeem_scheduled_log :: "Log \<Rightarrow> bool"
  evm_scheduled_retries :: "'s \<Rightarrow> Log list \<Rightarrow> 'tx list \<times> 's"
  evm_chain_context :: "'s \<Rightarrow> 'ctx"
  evm_keccak256 :: "bytes \<Rightarrow> b256"

type_synonym ('env, 'cache, 'ctx) tracking = "('env, 'cache, EvmState) FrontierBlock \<times> ('env, 'cache, EvmState, 'ctx) store"

text \<open>The state of the loop: the EVM, the index of the next transaction, the frontier tracker if there is a log stream,
  the events published, the hook's observations and the updates it passed on, the transactions in the block. The last
  field is the history of the loop: each transaction taken, its kind, whether it was included, and what it scheduled.\<close>

record ('tx, 's, 'env, 'cache, 'ctx) Production =
  pr_state :: 's
  pr_transaction_index :: u64
  pr_frontier :: "('env, 'cache, 'ctx) tracking option"
  pr_events :: "ArbTxLogEvent list"
  pr_hazards :: byte
  pr_task_updates :: "EvmState list"
  pr_block :: "'tx list"
  pr_trace :: "('tx \<times> ArbTxExecutionKind \<times> bool \<times> 'tx list) list"

datatype ProductionError =
    DigestFailed
  | BuilderFailed
  | PreExecutionFailed
  | BaseFeeFailed
  | SenderFailed
  | StartBlockFailed
  | FinishFailed

text \<open>The start-block transaction first, then any scheduled retry, then the next transaction of the message.\<close>

definition pick :: "('tx, 's, 'ctx) Evm \<Rightarrow> 'tx option \<Rightarrow> 'tx list \<Rightarrow> ('tx \<times> address option) list
    \<Rightarrow> ('tx \<times> address option \<times> ArbTxExecutionKind \<times> 'tx list \<times> ('tx \<times> address option) list) option" where
  "pick evm first redeems user_txs = (case first of
       Some t \<Rightarrow> Some (t, evm_sender evm t, StartBlock, redeems, user_txs)
     | None \<Rightarrow> (case redeems of
           t # redeems \<Rightarrow> Some (t, evm_sender evm t, ScheduledRetry, redeems, user_txs)
         | [] \<Rightarrow> (case user_txs of
               (t, sender) # user_txs \<Rightarrow> Some (t, sender, User, [], user_txs)
             | [] \<Rightarrow> None)))"

text \<open>The state hook, which is set when there is a state-root task.\<close>

definition on_state :: "bool option \<Rightarrow> EvmState \<Rightarrow> ('tx, 's, 'env, 'cache, 'ctx) Production \<Rightarrow> ('tx, 's, 'env, 'cache, 'ctx) Production" where
  "on_state hook update p = (case hook of
       None \<Rightarrow> p
     | Some preserve_created_empty_accounts \<Rightarrow>
         let observed = sparse_root_hazards update preserve_created_empty_accounts in
         p\<lparr>pr_hazards := (if observed \<noteq> 0 then pr_hazards p OR observed else pr_hazards p),
           pr_task_updates := pr_task_updates p @ [update]\<rparr>)"

text \<open>What follows a committed transaction: the frontier, the event, the index.\<close>

definition observe_tx :: "('tx, 's, 'ctx) Evm \<Rightarrow> u64 \<Rightarrow> (u64 \<Rightarrow> bool) \<Rightarrow> 'tx \<Rightarrow> ArbTxExecutionKind \<Rightarrow> TxResult
    \<Rightarrow> ('tx, 's, 'env, 'cache, 'ctx) Production \<Rightarrow> ('tx, 's, 'env, 'cache, 'ctx) Production" where
  "observe_tx evm block_number has_subscribers tx kind res p =
     (let (frontier_id, frontier) = (case pr_frontier p of
            None \<Rightarrow> (replicate 32 0, None)
          | Some st \<Rightarrow> (case block_advance (evm_keccak256 evm)
                (block_number, pr_transaction_index p, evm_hash evm tx, tr_state res, evm_chain_context evm (pr_state p)) st of
              (frontier_id, st) \<Rightarrow> (frontier_id, Some st)));
          events = (if pr_frontier p \<noteq> None \<and> has_subscribers (pr_transaction_index p)
            then [\<lparr>ev_block_number = block_number, ev_transaction_index = pr_transaction_index p,
              ev_transaction_hash = evm_hash evm tx, ev_frontier_id = frontier_id, ev_kind = kind,
              ev_success = tr_success res, ev_gas_used = tr_gas_used res, ev_logs = tr_logs res\<rparr>] else [])
      in p\<lparr>pr_frontier := frontier, pr_events := pr_events p @ events, pr_transaction_index := pr_transaction_index p + 1\<rparr>)"

definition schedule_retries :: "('tx, 's, 'ctx) Evm \<Rightarrow> TxResult \<Rightarrow> 's \<Rightarrow> 'tx list \<times> 's" where
  "schedule_retries evm res s =
     (let tx_logs = filter (evm_is_redeem_scheduled_log evm) (tr_logs res) in
      if tr_success res \<and> tx_logs \<noteq> [] then evm_scheduled_retries evm s tx_logs else ([], s))"

text \<open>One round of the loop: an invalid transaction is dropped, unless it is the start-block transaction.\<close>

definition execute_one :: "('tx, 's, 'ctx) Evm \<Rightarrow> u64 \<Rightarrow> (u64 \<Rightarrow> bool) \<Rightarrow> bool option \<Rightarrow> 'tx \<Rightarrow> address option \<Rightarrow> ArbTxExecutionKind
    \<Rightarrow> ('tx, 's, 'env, 'cache, 'ctx) Production \<Rightarrow> ProductionError + ('tx, 's, 'env, 'cache, 'ctx) Production \<times> 'tx list" where
  "execute_one evm block_number has_subscribers hook tx sender_result kind p = (case sender_result of
       None \<Rightarrow> Inl SenderFailed
     | Some sender \<Rightarrow> (case evm_execute evm (pr_state p) tx sender of
           None \<Rightarrow> if kind = StartBlock then Inl StartBlockFailed
             else Inr (p\<lparr>pr_trace := pr_trace p @ [(tx, kind, False, [])]\<rparr>, [])
         | Some (res, s) \<Rightarrow>
             let p = on_state hook (tr_state res) (p\<lparr>pr_state := s, pr_block := pr_block p @ [tx]\<rparr>);
                 p = observe_tx evm block_number has_subscribers tx kind res p;
                 (retries, s) = schedule_retries evm res (pr_state p)
             in Inr (p\<lparr>pr_state := s, pr_trace := pr_trace p @ [(tx, kind, True, retries)]\<rparr>, retries)))"

partial_function (option) tx_loop :: "('tx, 's, 'ctx) Evm \<Rightarrow> u64 \<Rightarrow> (u64 \<Rightarrow> bool) \<Rightarrow> bool option \<Rightarrow> 'tx option \<Rightarrow> 'tx list
    \<Rightarrow> ('tx \<times> address option) list \<Rightarrow> ('tx, 's, 'env, 'cache, 'ctx) Production
    \<Rightarrow> (ProductionError + ('tx, 's, 'env, 'cache, 'ctx) Production) option" where
  "tx_loop evm block_number has_subscribers hook first redeems user_txs p = (case pick evm first redeems user_txs of
       None \<Rightarrow> Some (Inr p)
     | Some (tx, sender_result, kind, redeems', user_txs') \<Rightarrow>
         (case execute_one evm block_number has_subscribers hook tx sender_result kind p of
            Inl e \<Rightarrow> Some (Inl e)
          | Inr (p', retries) \<Rightarrow> tx_loop evm block_number has_subscribers hook None (redeems' @ retries) user_txs' p'))"

section \<open>Producing the block\<close>

record ParentHeader =
  ph_number :: u64
  ph_hash :: b256
  ph_timestamp :: u64
  ph_arbos_format_version :: "u64 option"

record ('tx) DigestedMessage =
  dm_txs :: "'tx list"
  dm_l1_timestamp :: u64
  dm_poster :: address
  dm_l1_block_number :: u64
  dm_l1_base_fee_wei :: u256
  dm_delayed_messages_read :: u64
  dm_block_gas_limit :: u64

record NextBlockEnvAttributes =
  nb_timestamp :: u64
  nb_suggested_fee_recipient :: address
  nb_prev_randao :: b256
  nb_gas_limit :: u64
  nb_l1_block_number :: u64
  nb_l1_base_fee_wei :: u256
  nb_arbos_format_version :: u64
  nb_delayed_messages_read :: u64

text \<open>What production uses of the block builder. A state-root task gives a root, or fails, from the updates it received;
  finishing takes a root or computes it.\<close>

record ('msg, 'tx, 's, 'env, 'cache, 'root, 'block) Builder =
  bu_enabled_in_arbos_30 :: "byte \<Rightarrow> bool"
  bu_digest_message :: "'msg \<Rightarrow> ParentHeader \<Rightarrow> byte \<Rightarrow> 'tx DigestedMessage option"
  bu_builder_for_next_block :: "ParentHeader \<Rightarrow> NextBlockEnvAttributes \<Rightarrow> 's option"
  bu_apply_pre_execution_changes :: "'s \<Rightarrow> (EvmState list \<times> 's) option"
  bu_base_fee_wei :: "'s \<Rightarrow> u256 option"
  bu_set_base_fee :: "u64 \<Rightarrow> 's \<Rightarrow> 's"
  bu_evm_env :: "'s \<Rightarrow> 'env"
  bu_cache :: "'s \<Rightarrow> 'cache"
  bu_start_block_tx :: "'s \<Rightarrow> 'tx option"
  bu_finish :: "'s \<Rightarrow> 'tx list \<Rightarrow> 'root option \<Rightarrow> 'block option"

definition arbos_version :: "ParentHeader \<Rightarrow> byte" where
  "arbos_version parent = (case ph_arbos_format_version parent of None \<Rightarrow> 0 | Some v \<Rightarrow> ucast v)"

definition next_block_attributes :: "ParentHeader \<Rightarrow> 'tx DigestedMessage \<Rightarrow> byte \<Rightarrow> NextBlockEnvAttributes" where
  "next_block_attributes parent input version = \<lparr>nb_timestamp = max (dm_l1_timestamp input) (ph_timestamp parent),
     nb_suggested_fee_recipient = dm_poster input, nb_prev_randao = replicate 32 0, nb_gas_limit = dm_block_gas_limit input,
     nb_l1_block_number = dm_l1_block_number input, nb_l1_base_fee_wei = dm_l1_base_fee_wei input,
     nb_arbos_format_version = ucast version, nb_delayed_messages_read = dm_delayed_messages_read input\<rparr>"

definition u64_of_u256 :: "u256 \<Rightarrow> u64 option" where
  "u64_of_u256 v = (if v \<le> ucast u64_max then Some (ucast v) else None)"

text \<open>The root handed to \<^verbatim>\<open>finish\<close>: the task's, if it succeeds and no update was one it cannot represent.\<close>

definition state_root_precomputed :: "(EvmState list \<Rightarrow> 'root option) option \<Rightarrow> ('tx, 's, 'env, 'cache, 'ctx) Production \<Rightarrow> 'root option" where
  "state_root_precomputed task p = (case task of
       None \<Rightarrow> None
     | Some state_root \<Rightarrow> if pr_hazards p \<noteq> 0 then None else state_root (pr_task_updates p))"

definition finish_production :: "('msg, 'tx, 's, 'env, 'cache, 'root, 'block) Builder \<Rightarrow> (EvmState list \<Rightarrow> 'root option) option
    \<Rightarrow> ProductionError + ('tx, 's, 'env, 'cache, 'ctx) Production
    \<Rightarrow> ProductionError + 'block \<times> ArbTxLogEvent list \<times> ('env, 'cache, EvmState, 'ctx) store option" where
  "finish_production bu task r = rbind r (\<lambda>p. rbind (ok_or FinishFailed (bu_finish bu (pr_state p) (pr_block p) (state_root_precomputed task p)))
     (\<lambda>block. Inr (block, pr_events p, map_option snd (pr_frontier p))))"

text \<open>Everything up to the loop: the block's attributes, the pre-execution changes, the base fee, the senders.\<close>

definition prepare :: "('msg, 'tx, 's, 'env, 'cache, 'root, 'block) Builder \<Rightarrow> ('tx, 's, 'ctx) Evm \<Rightarrow> ParentHeader \<Rightarrow> 'msg \<Rightarrow> bool
    \<Rightarrow> ('env, 'cache, EvmState, 'ctx) store option
    \<Rightarrow> ProductionError + bool option \<times> ('tx \<times> address option) list \<times> ('tx, 's, 'env, 'cache, 'ctx) Production" where
  "prepare bu evm parent msg has_task tx_log_stream =
     (let version = arbos_version parent in
      rbind (ok_or DigestFailed (bu_digest_message bu msg parent version)) (\<lambda>input.
      rbind (ok_or BuilderFailed (bu_builder_for_next_block bu parent (next_block_attributes parent input version))) (\<lambda>s.
      let hook = (if has_task then Some (\<not> bu_enabled_in_arbos_30 bu version) else None) in
      rbind (ok_or PreExecutionFailed (bu_apply_pre_execution_changes bu s)) (\<lambda>(updates, s).
      let p = foldl (\<lambda>p u. on_state hook u p)
            \<lparr>pr_state = s, pr_transaction_index = 0, pr_frontier = None, pr_events = [], pr_hazards = 0, pr_task_updates = [],
             pr_block = [], pr_trace = []\<rparr> updates;
          user_txs = map (\<lambda>tx. (tx, evm_sender evm tx)) (dm_txs input) in
      rbind (ok_or BaseFeeFailed (bu_base_fee_wei bu s)) (\<lambda>fee.
      let s = bu_set_base_fee bu (case u64_of_u256 fee of Some f \<Rightarrow> f | None \<Rightarrow> u64_max) s in
      Inr (hook, user_txs, p\<lparr>pr_state := s,
        pr_frontier := map_option (\<lambda>store. (FrontierBlock_new (ph_hash parent) (bu_evm_env bu s) (bu_cache bu s), store)) tx_log_stream\<rparr>))))))"

definition produce_with_timing :: "('msg, 'tx, 's, 'env, 'cache, 'root, 'block) Builder \<Rightarrow> ('tx, 's, 'ctx) Evm \<Rightarrow> ParentHeader \<Rightarrow> 'msg
    \<Rightarrow> (EvmState list \<Rightarrow> 'root option) option \<Rightarrow> ('env, 'cache, EvmState, 'ctx) store option \<Rightarrow> (u64 \<Rightarrow> bool)
    \<Rightarrow> (ProductionError + 'block \<times> ArbTxLogEvent list \<times> ('env, 'cache, EvmState, 'ctx) store option) option" where
  "produce_with_timing bu evm parent msg task tx_log_stream has_subscribers =
     (case prepare bu evm parent msg (task \<noteq> None) tx_log_stream of
        Inl e \<Rightarrow> Some (Inl e)
      | Inr (hook, user_txs, p) \<Rightarrow>
          map_option (finish_production bu task)
            (tx_loop evm (ph_number parent + 1) has_subscribers hook (bu_start_block_tx bu (pr_state p)) [] user_txs p))"

section \<open>What one round does\<close>

lemma on_state_fields [simp]:
  "pr_state (on_state hook u p) = pr_state p" "pr_transaction_index (on_state hook u p) = pr_transaction_index p"
  "pr_frontier (on_state hook u p) = pr_frontier p" "pr_events (on_state hook u p) = pr_events p"
  "pr_block (on_state hook u p) = pr_block p" "pr_trace (on_state hook u p) = pr_trace p"
  by (simp_all add: on_state_def Let_def split: option.split)

lemma observe_tx_fields [simp]:
  "pr_state (observe_tx evm bn subs tx kind res p) = pr_state p"
  "pr_transaction_index (observe_tx evm bn subs tx kind res p) = pr_transaction_index p + 1"
  "pr_block (observe_tx evm bn subs tx kind res p) = pr_block p" "pr_trace (observe_tx evm bn subs tx kind res p) = pr_trace p"
  "pr_hazards (observe_tx evm bn subs tx kind res p) = pr_hazards p"
  "pr_task_updates (observe_tx evm bn subs tx kind res p) = pr_task_updates p"
  by (simp_all add: observe_tx_def Let_def split: option.split prod.split)

lemma execute_one_cases:
  assumes "execute_one evm bn subs hook tx sender_result kind p = Inr (p', retries)"
  obtains (dropped) sender where "sender_result = Some sender" "evm_execute evm (pr_state p) tx sender = None" "kind \<noteq> StartBlock"
      "p' = p\<lparr>pr_trace := pr_trace p @ [(tx, kind, False, [])]\<rparr>" "retries = []"
  | (included) sender res s p1 s' where "sender_result = Some sender" "evm_execute evm (pr_state p) tx sender = Some (res, s)"
      "p1 = observe_tx evm bn subs tx kind res (on_state hook (tr_state res) (p\<lparr>pr_state := s, pr_block := pr_block p @ [tx]\<rparr>))"
      "schedule_retries evm res s = (retries, s')"
      "p' = p1\<lparr>pr_state := s', pr_trace := pr_trace p @ [(tx, kind, True, retries)]\<rparr>"
proof (cases "\<exists>sender res s. sender_result = Some sender \<and> evm_execute evm (pr_state p) tx sender = Some (res, s)")
  case True
  then obtain sender res s where e: "sender_result = Some sender" "evm_execute evm (pr_state p) tx sender = Some (res, s)" by blast
  obtain rs s' where r: "schedule_retries evm res s = (rs, s')" by fastforce
  then have "rs = retries" and "p' = observe_tx evm bn subs tx kind res (on_state hook (tr_state res) (p\<lparr>pr_state := s, pr_block := pr_block p @ [tx]\<rparr>))
      \<lparr>pr_state := s', pr_trace := pr_trace p @ [(tx, kind, True, retries)]\<rparr>"
    using assms e by (auto simp: execute_one_def Let_def)
  then show thesis using included [OF e refl] r by metis
next
  case False
  then show thesis
    using assms dropped by (auto simp: execute_one_def split: option.splits if_splits)
qed

lemma execute_one_history:
  assumes "execute_one evm bn subs hook tx sender_result kind p = Inr (p', retries)"
  obtains taken where "pr_trace p' = pr_trace p @ [(tx, kind, taken, retries)]" "pr_block p' = pr_block p @ (if taken then [tx] else [])"
    "pr_transaction_index p' = pr_transaction_index p + (if taken then 1 else 0)" "kind = StartBlock \<Longrightarrow> taken"
  using assms
proof (cases rule: execute_one_cases)
  case (dropped sender)
  then show thesis by (intro that [of False]) simp_all
next
  case (included sender res s p1 s')
  then show thesis by (intro that [of True]) simp_all
qed

lemma pick_cases:
  assumes "pick evm first redeems user_txs = Some (tx, sender_result, kind, redeems', user_txs')"
  obtains (start) "first = Some tx" "kind = StartBlock" "redeems' = redeems" "user_txs' = user_txs"
  | (retry) "first = None" "redeems = tx # redeems'" "kind = ScheduledRetry" "user_txs' = user_txs"
  | (user) "first = None" "redeems = []" "redeems' = []" "kind = User" "user_txs = (tx, sender_result) # user_txs'"
  using assms by (auto simp: pick_def split: option.splits list.splits)

lemma pick_None: "pick evm first redeems user_txs = None \<longleftrightarrow> first = None \<and> redeems = [] \<and> user_txs = []"
  by (auto simp: pick_def split: option.splits list.splits)

text \<open>Invariants of the loop.\<close>

lemma tx_loop_invariant:
  assumes "tx_loop evm bn subs hook first redeems user_txs p = Some (Inr q)" and "I first redeems user_txs p"
    and "\<And>first redeems user_txs p tx sender_result kind redeems' user_txs' p' retries.
      I first redeems user_txs p \<Longrightarrow> pick evm first redeems user_txs = Some (tx, sender_result, kind, redeems', user_txs') \<Longrightarrow>
      execute_one evm bn subs hook tx sender_result kind p = Inr (p', retries) \<Longrightarrow> I None (redeems' @ retries) user_txs' p'"
  shows "I None [] [] q"
proof -
  have "evm' = evm \<and> bn' = bn \<and> subs' = subs \<and> hook' = hook \<longrightarrow> r = Inr q \<longrightarrow> I first redeems user_txs p \<longrightarrow> I None [] [] q"
    if "tx_loop evm' bn' subs' hook' first redeems user_txs p = Some r" for evm' bn' subs' hook' first redeems user_txs p r
    using that
  proof (rule tx_loop.raw_induct [where P = "\<lambda>evm' bn' subs' hook' first redeems user_txs p r. evm' = evm \<and> bn' = bn
      \<and> subs' = subs \<and> hook' = hook \<longrightarrow> r = Inr q \<longrightarrow> I first redeems user_txs p \<longrightarrow> I None [] [] q", rotated], intro impI, elim conjE)
    fix loop evm' bn' subs' hook' first redeems user_txs p r
    assume IH: "\<And>evm' bn' subs' hook' first redeems user_txs p r. loop evm' bn' subs' hook' first redeems user_txs p = Some r \<Longrightarrow>
        evm' = evm \<and> bn' = bn \<and> subs' = subs \<and> hook' = hook \<longrightarrow> r = Inr q \<longrightarrow> I first redeems user_txs p \<longrightarrow> I None [] [] q"
      and body: "(case pick evm' first redeems user_txs of None \<Rightarrow> Some (Inr p)
        | Some (tx, sender_result, kind, redeems', user_txs') \<Rightarrow>
            (case execute_one evm' bn' subs' hook' tx sender_result kind p of Inl e \<Rightarrow> Some (Inl e)
             | Inr (p', retries) \<Rightarrow> loop evm' bn' subs' hook' None (redeems' @ retries) user_txs' p')) = Some r"
      and eqs: "r = Inr q" "I first redeems user_txs p" "evm' = evm" "bn' = bn" "subs' = subs" "hook' = hook"
    show "I None [] [] q"
    proof (cases "pick evm first redeems user_txs")
      case None
      then have "first = None" "redeems = []" "user_txs = []" by (simp_all add: pick_None)
      moreover have "p = q" using None body eqs by simp
      ultimately show ?thesis using eqs(2) by simp
    next
      case (Some n)
      obtain tx sender_result kind redeems' user_txs' where n: "n = (tx, sender_result, kind, redeems', user_txs')" by (cases n)
      then obtain p' retries where e: "execute_one evm bn subs hook tx sender_result kind p = Inr (p', retries)"
        and l: "loop evm bn subs hook None (redeems' @ retries) user_txs' p' = Some r"
        using body eqs Some by (auto split: sum.splits)
      show ?thesis
        using IH [OF l] eqs(1) assms(3) [OF eqs(2) Some [unfolded n] e] by simp
    qed
  qed
  then show ?thesis using assms by blast
qed

section \<open>The order of the block\<close>

definition taken_of :: "ArbTxExecutionKind \<Rightarrow> ('tx \<times> ArbTxExecutionKind \<times> bool \<times> 'tx list) list \<Rightarrow> 'tx list" where
  "taken_of kind trace = map fst (filter (\<lambda>(tx, k, incl, retries). k = kind) trace)"

definition scheduled :: "('tx \<times> ArbTxExecutionKind \<times> bool \<times> 'tx list) list \<Rightarrow> 'tx list" where
  "scheduled trace = concat (map (\<lambda>(tx, k, incl, retries). retries) trace)"

definition included_of :: "('tx \<times> ArbTxExecutionKind \<times> bool \<times> 'tx list) list \<Rightarrow> 'tx list" where
  "included_of trace = map fst (filter (\<lambda>(tx, k, incl, retries). incl) trace)"

text \<open>Whenever a transaction of the message is taken, every retry scheduled before it has been.\<close>

definition retries_first :: "('tx \<times> ArbTxExecutionKind \<times> bool \<times> 'tx list) list \<Rightarrow> bool" where
  "retries_first trace \<longleftrightarrow> (\<forall>before tx incl retries later. trace = before @ (tx, User, incl, retries) # later
     \<longrightarrow> taken_of ScheduledRetry before = scheduled before)"

definition option_list :: "'a option \<Rightarrow> 'a list" where
  "option_list x = (case x of None \<Rightarrow> [] | Some y \<Rightarrow> [y])"

lemma trace_snoc:
  "taken_of kind (trace @ [(tx, k, incl, retries)]) = taken_of kind trace @ (if k = kind then [tx] else [])"
  "scheduled (trace @ [(tx, k, incl, retries)]) = scheduled trace @ retries"
  "included_of (trace @ [(tx, k, incl, retries)]) = included_of trace @ (if incl then [tx] else [])"
  by (simp_all add: taken_of_def scheduled_def included_of_def)

lemma retries_first_snoc:
  assumes "retries_first trace" and "k = User \<Longrightarrow> taken_of ScheduledRetry trace = scheduled trace"
  shows "retries_first (trace @ [(tx, k, incl, retries)])"
  unfolding retries_first_def
proof (intro allI impI)
  fix before tx' incl' retries' later
  assume eq: "trace @ [(tx, k, incl, retries)] = before @ (tx', User, incl', retries') # later"
  show "taken_of ScheduledRetry before = scheduled before"
  proof (cases later rule: rev_cases)
    case Nil
    then show ?thesis using eq assms(2) by simp
  next
    case (snoc later' e)
    then have "trace = before @ (tx', User, incl', retries') # later'" using eq by simp
    then show ?thesis using assms(1) unfolding retries_first_def by blast
  qed
qed

text \<open>What holds between two rounds, for a block that started with \<open>first0\<close> and \<open>users0\<close>.\<close>

definition ordered :: "'tx option \<Rightarrow> 'tx list \<Rightarrow> 'tx option \<Rightarrow> 'tx list \<Rightarrow> ('tx \<times> address option) list
    \<Rightarrow> ('tx, 's, 'env, 'cache, 'ctx) Production \<Rightarrow> bool" where
  "ordered first0 users0 first redeems user_txs p \<longleftrightarrow>
     scheduled (pr_trace p) = taken_of ScheduledRetry (pr_trace p) @ redeems
     \<and> taken_of User (pr_trace p) @ map fst user_txs = users0
     \<and> pr_block p = included_of (pr_trace p)
     \<and> pr_transaction_index p = of_nat (length (pr_block p))
     \<and> retries_first (pr_trace p)
     \<and> (first \<noteq> None \<longrightarrow> pr_trace p = [] \<and> first = first0)
     \<and> (first = None \<longrightarrow> option_list first0 = taken_of StartBlock (pr_trace p)
         \<and> (\<forall>t. first0 = Some t \<longrightarrow> (\<exists>retries later. pr_trace p = (t, StartBlock, True, retries) # later)))"

lemma ordered_step:
  assumes o: "ordered first0 users0 first redeems user_txs p"
    and p: "pick evm first redeems user_txs = Some (tx, sender_result, kind, redeems', user_txs')"
    and e: "execute_one evm bn subs hook tx sender_result kind p = Inr (p', retries)"
  shows "ordered first0 users0 None (redeems' @ retries) user_txs' p'"
proof -
  obtain incl where h: "pr_trace p' = pr_trace p @ [(tx, kind, incl, retries)]" "pr_block p' = pr_block p @ (if incl then [tx] else [])"
    "pr_transaction_index p' = pr_transaction_index p + (if incl then 1 else 0)" "kind = StartBlock \<Longrightarrow> incl"
    using execute_one_history [OF e] by metis
  from p show ?thesis
  proof (cases rule: pick_cases)
    case start
    then have t: "pr_trace p = []" and "first0 = Some tx" and r: "redeems = []"
      using o by (auto simp: ordered_def scheduled_def taken_of_def)
    have "retries_first (pr_trace p')" unfolding h(1) using o start by (intro retries_first_snoc) (auto simp: ordered_def)
    moreover have "incl" using h(4) start(2) by simp
    ultimately show ?thesis
      using o start h(1,2,3) t r \<open>first0 = Some tx\<close>
      by (auto simp: ordered_def option_list_def scheduled_def taken_of_def included_of_def)
  next
    case retry
    have "retries_first (pr_trace p')" unfolding h(1) using o retry by (intro retries_first_snoc) (auto simp: ordered_def)
    then show ?thesis using o retry h(1,2,3) by (auto simp: ordered_def trace_snoc)
  next
    case user
    have "retries_first (pr_trace p')" unfolding h(1) using o user by (intro retries_first_snoc) (auto simp: ordered_def)
    then show ?thesis using o user h(1,2,3) by (auto simp: ordered_def trace_snoc)
  qed
qed

section \<open>What is observed of the block\<close>

lemma advance_block_snoc:
  "advance_block keccak (steps @ [step]) st =
     (let (ids, st) = advance_block keccak steps st; (fid, st) = block_advance keccak step st in (ids @ [fid], st))"
  by (induction keccak steps st rule: advance_block.induct) (auto simp: Let_def split: prod.splits)

lemma length_advance_block: "advance_block keccak steps st = (ids, st') \<Longrightarrow> length ids = length steps"
  by (induction keccak steps st arbitrary: ids st' rule: advance_block.induct) (auto simp: Let_def split: prod.splits)

text \<open>The frontier of every transaction of the block was recorded in order, and the events published are those of the
  indices at which a consumer was connected.\<close>

definition observed :: "('tx, 's, 'ctx) Evm \<Rightarrow> u64 \<Rightarrow> (u64 \<Rightarrow> bool) \<Rightarrow> ('env, 'cache, 'ctx) tracking
    \<Rightarrow> ('tx, 's, 'env, 'cache, 'ctx) Production \<Rightarrow> (EvmState, 'ctx) tx_step list \<Rightarrow> b256 list \<Rightarrow> bool" where
  "observed evm bn subs st0 p steps ids \<longleftrightarrow>
     (\<exists>st. pr_frontier p = Some st \<and> advance_block (evm_keccak256 evm) steps st0 = (ids, st))
     \<and> map (\<lambda>(b, i, h, u, c). (b, i, h)) steps = map (\<lambda>i. (bn, of_nat i, evm_hash evm (pr_block p ! i))) [0..<length (pr_block p)]
     \<and> map (\<lambda>e. (ev_block_number e, ev_transaction_index e, ev_transaction_hash e, ev_frontier_id e)) (pr_events p)
       = map (\<lambda>i. (bn, of_nat i, evm_hash evm (pr_block p ! i), ids ! i)) (filter (\<lambda>i. subs (of_nat i)) [0..<length (pr_block p)])
     \<and> pr_transaction_index p = of_nat (length (pr_block p))"

lemma observed_step:
  assumes o: "observed evm bn subs st0 p steps ids"
    and e: "execute_one evm bn subs hook tx sender_result kind p = Inr (p', retries)"
  shows "\<exists>steps' ids'. observed evm bn subs st0 p' steps' ids'"
  using e
proof (cases rule: execute_one_cases)
  case (dropped sender)
  then have "observed evm bn subs st0 p' steps ids" using o by (simp add: observed_def)
  then show ?thesis by blast
next
  case (included sender res s p1 s')
  obtain st where st: "pr_frontier p = Some st" "advance_block (evm_keccak256 evm) steps st0 = (ids, st)"
    using o by (auto simp: observed_def)
  let ?n = "length (pr_block p)"
  let ?step = "(bn, of_nat ?n, evm_hash evm tx, tr_state res, evm_chain_context evm s)"
  obtain fid st' where b: "block_advance (evm_keccak256 evm) ?step st = (fid, st')" by (metis prod.exhaust)
  have n: "length ids = ?n" "pr_transaction_index p = of_nat ?n"
    using o length_advance_block [OF st(2)] by (auto simp: observed_def dest!: arg_cong [where f = length])
  have f: "pr_frontier p' = Some st'" and x: "pr_transaction_index p' = of_nat (Suc ?n)" and k: "pr_block p' = pr_block p @ [tx]"
    using b by (simp_all add: included(3,5) observe_tx_def st(1) n(2) Let_def)
  have v: "map (\<lambda>e. (ev_block_number e, ev_transaction_index e, ev_transaction_hash e, ev_frontier_id e)) (pr_events p')
      = map (\<lambda>e. (ev_block_number e, ev_transaction_index e, ev_transaction_hash e, ev_frontier_id e)) (pr_events p)
        @ (if subs (of_nat ?n) then [(bn, of_nat ?n, evm_hash evm tx, fid)] else [])"
    using b by (simp add: included(3,5) observe_tx_def st(1) n(2) Let_def)
  have "observed evm bn subs st0 p' (steps @ [?step]) (ids @ [fid])"
    unfolding observed_def
  proof (intro conjI)
    show "\<exists>st. pr_frontier p' = Some st \<and> advance_block (evm_keccak256 evm) (steps @ [?step]) st0 = (ids @ [fid], st)"
      using b by (simp add: f advance_block_snoc st(2))
    show "map (\<lambda>(b, i, h, u, c). (b, i, h)) (steps @ [?step])
        = map (\<lambda>i. (bn, of_nat i, evm_hash evm (pr_block p' ! i))) [0..<length (pr_block p')]"
      using o by (simp add: observed_def k nth_append)
    show "map (\<lambda>e. (ev_block_number e, ev_transaction_index e, ev_transaction_hash e, ev_frontier_id e)) (pr_events p')
       = map (\<lambda>i. (bn, of_nat i, evm_hash evm (pr_block p' ! i), (ids @ [fid]) ! i)) (filter (\<lambda>i. subs (of_nat i)) [0..<length (pr_block p')])"
      using o unfolding v by (auto simp: observed_def k nth_append n(1) cong: filter_cong map_cong)
    show "pr_transaction_index p' = of_nat (length (pr_block p'))" by (simp add: x k)
  qed
  then show ?thesis by blast
qed

section \<open>The loop ends\<close>

text \<open>A redeem gives its retry part of the gas of the transaction that calls it, so a transaction is worth more than
  all it schedules together.\<close>

definition funded :: "('tx, 's, 'ctx) Evm \<Rightarrow> ('tx \<Rightarrow> nat) \<Rightarrow> bool" where
  "funded evm worth \<longleftrightarrow> (\<forall>s tx sender res s' retries s''. evm_execute evm s tx sender = Some (res, s')
     \<longrightarrow> evm_scheduled_retries evm s' (filter (evm_is_redeem_scheduled_log evm) (tr_logs res)) = (retries, s'')
     \<longrightarrow> sum_list (map (\<lambda>r. Suc (worth r)) retries) \<le> worth tx)"

definition remaining :: "('tx \<Rightarrow> nat) \<Rightarrow> 'tx option \<Rightarrow> 'tx list \<Rightarrow> ('tx \<times> address option) list \<Rightarrow> nat" where
  "remaining worth first redeems user_txs = sum_list (map (\<lambda>tx. Suc (worth tx)) (option_list first @ redeems @ map fst user_txs))"

lemma retries_worth:
  assumes "funded evm worth" and "execute_one evm bn subs hook tx sender_result kind p = Inr (p', retries)"
  shows "sum_list (map (\<lambda>r. Suc (worth r)) retries) \<le> worth tx"
  using assms(2)
proof (cases rule: execute_one_cases)
  case (included sender res s p1 s')
  show ?thesis
  proof (cases "retries = []")
    case False
    then have "evm_scheduled_retries evm s (filter (evm_is_redeem_scheduled_log evm) (tr_logs res)) = (retries, s')"
      using included(4) by (auto simp: schedule_retries_def Let_def split: if_splits)
    then show ?thesis using assms(1) included(2) unfolding funded_def by blast
  qed simp
qed simp

lemma tx_loop_ends:
  assumes "funded evm worth"
  shows "\<exists>r. tx_loop evm bn subs hook first redeems user_txs p = Some r"
proof (induction "remaining worth first redeems user_txs" arbitrary: first redeems user_txs p rule: less_induct)
  case less
  show ?case
  proof (cases "pick evm first redeems user_txs")
    case None
    then show ?thesis by (subst tx_loop.simps) simp
  next
    case (Some n)
    obtain tx sender_result kind redeems' user_txs' where n: "n = (tx, sender_result, kind, redeems', user_txs')" by (cases n)
    show ?thesis
    proof (cases "execute_one evm bn subs hook tx sender_result kind p")
      case (Inl e)
      then show ?thesis using Some n by (subst tx_loop.simps) simp
    next
      case (Inr r)
      obtain p' retries where r: "r = (p', retries)" by (cases r)
      have "remaining worth None (redeems' @ retries) user_txs' < remaining worth first redeems user_txs"
        using Some [unfolded n] retries_worth [OF assms Inr [unfolded r]]
        by (cases rule: pick_cases) (auto simp: remaining_def option_list_def)
      then obtain y where "tx_loop evm bn subs hook None (redeems' @ retries) user_txs' p' = Some y"
        using less by blast
      then show ?thesis using Some n Inr r by (subst tx_loop.simps) simp
    qed
  qed
qed

section \<open>The state-root task changes nothing\<close>

definition unhooked :: "('tx, 's, 'env, 'cache, 'ctx) Production \<Rightarrow> ('tx, 's, 'env, 'cache, 'ctx) Production" where
  "unhooked p = p\<lparr>pr_hazards := 0, pr_task_updates := []\<rparr>"

lemma unhooked_fields [simp]:
  "pr_state (unhooked p) = pr_state p" "pr_transaction_index (unhooked p) = pr_transaction_index p"
  "pr_frontier (unhooked p) = pr_frontier p" "pr_events (unhooked p) = pr_events p"
  "pr_block (unhooked p) = pr_block p" "pr_trace (unhooked p) = pr_trace p"
  by (simp_all add: unhooked_def)

lemma unhooked_updates:
  "unhooked (p\<lparr>pr_state := s\<rparr>) = (unhooked p)\<lparr>pr_state := s\<rparr>" "unhooked (p\<lparr>pr_block := b\<rparr>) = (unhooked p)\<lparr>pr_block := b\<rparr>"
  "unhooked (p\<lparr>pr_trace := t\<rparr>) = (unhooked p)\<lparr>pr_trace := t\<rparr>"
  by (simp_all add: unhooked_def)

lemma on_state_None [simp]: "on_state None u p = p"
  by (simp add: on_state_def)

lemma unhooked_on_state: "unhooked (on_state hook u p) = unhooked p"
  by (simp add: unhooked_def on_state_def Let_def split: option.split)

lemma unhooked_observe_tx: "unhooked (observe_tx evm bn subs tx kind res p) = observe_tx evm bn subs tx kind res (unhooked p)"
  by (simp add: unhooked_def observe_tx_def Let_def split: option.split prod.split)

lemma execute_one_unhooked:
  "execute_one evm bn subs None tx sender_result kind (unhooked p)
     = map_sum id (map_prod unhooked id) (execute_one evm bn subs hook tx sender_result kind p)"
proof (cases "\<exists>sender res s. sender_result = Some sender \<and> evm_execute evm (pr_state p) tx sender = Some (res, s)")
  case True
  then obtain sender res s where e: "sender_result = Some sender" "evm_execute evm (pr_state p) tx sender = Some (res, s)" by blast
  then show ?thesis
    by (cases "schedule_retries evm res s")
      (simp add: execute_one_def Let_def unhooked_updates unhooked_observe_tx unhooked_on_state)
next
  case False
  then show ?thesis by (auto simp: execute_one_def unhooked_def split: option.splits)
qed

lemma tx_loop_unhooked_Some:
  assumes "tx_loop evm bn subs hook first redeems user_txs p = Some r"
  shows "tx_loop evm bn subs None first redeems user_txs (unhooked p) = Some (map_sum id unhooked r)"
  using assms
proof (rule tx_loop.raw_induct [where P = "\<lambda>evm bn subs hook first redeems user_txs p r.
    tx_loop evm bn subs None first redeems user_txs (unhooked p) = Some (map_sum id unhooked r)", rotated])
  fix loop evm bn subs hook first redeems user_txs p r
  assume IH: "\<And>evm bn subs hook first redeems user_txs p r. loop evm bn subs hook first redeems user_txs p = Some r \<Longrightarrow>
      tx_loop evm bn subs None first redeems user_txs (unhooked p) = Some (map_sum id unhooked r)"
    and body: "(case pick evm first redeems user_txs of None \<Rightarrow> Some (Inr p)
      | Some (tx, sender_result, kind, redeems', user_txs') \<Rightarrow>
          (case execute_one evm bn subs hook tx sender_result kind p of Inl e \<Rightarrow> Some (Inl e)
           | Inr (p', retries) \<Rightarrow> loop evm bn subs hook None (redeems' @ retries) user_txs' p')) = Some r"
  show "tx_loop evm bn subs None first redeems user_txs (unhooked p) = Some (map_sum id unhooked r)"
  proof (cases "pick evm first redeems user_txs")
    case None
    then show ?thesis using body by (subst tx_loop.simps) auto
  next
    case (Some n)
    obtain tx sender_result kind redeems' user_txs' where n: "n = (tx, sender_result, kind, redeems', user_txs')" by (cases n)
    show ?thesis
    proof (cases "execute_one evm bn subs hook tx sender_result kind p")
      case (Inl e)
      then show ?thesis using body Some n by (subst tx_loop.simps) (auto simp: execute_one_unhooked [where hook = hook])
    next
      case (Inr x)
      obtain p' retries where x: "x = (p', retries)" by (cases x)
      have "loop evm bn subs hook None (redeems' @ retries) user_txs' p' = Some r" using body Some n Inr x by simp
      from IH [OF this] show ?thesis using Some n Inr x
        by (subst tx_loop.simps) (simp add: execute_one_unhooked [where hook = hook])
    qed
  qed
qed

lemma tx_loop_unhooked_None:
  assumes "tx_loop evm bn subs None first redeems user_txs (unhooked p) = Some r"
  shows "\<exists>r. tx_loop evm bn subs hook first redeems user_txs p = Some r"
proof -
  have "\<forall>p. q = unhooked p \<longrightarrow> hook' = None \<longrightarrow> (\<exists>r. tx_loop evm bn subs hook first redeems user_txs p = Some r)"
    if "tx_loop evm bn subs hook' first redeems user_txs q = Some r" for q hook'
    using that
  proof (rule tx_loop.raw_induct [where P = "\<lambda>evm bn subs hook' first redeems user_txs q r.
      \<forall>p. q = unhooked p \<longrightarrow> hook' = None \<longrightarrow> (\<exists>r. tx_loop evm bn subs hook first redeems user_txs p = Some r)", rotated], intro allI impI)
    fix loop evm bn subs hook' first redeems user_txs q r p
    assume IH: "\<And>evm bn subs hook' first redeems user_txs q r. loop evm bn subs hook' first redeems user_txs q = Some r \<Longrightarrow>
        \<forall>p. q = unhooked p \<longrightarrow> hook' = None \<longrightarrow> (\<exists>r. tx_loop evm bn subs hook first redeems user_txs p = Some r)"
      and body: "(case pick evm first redeems user_txs of None \<Rightarrow> Some (Inr q)
        | Some (tx, sender_result, kind, redeems', user_txs') \<Rightarrow>
            (case execute_one evm bn subs hook' tx sender_result kind q of Inl e \<Rightarrow> Some (Inl e)
             | Inr (p', retries) \<Rightarrow> loop evm bn subs hook' None (redeems' @ retries) user_txs' p')) = Some r"
      and eqs: "q = unhooked p" "hook' = None"
    show "\<exists>r. tx_loop evm bn subs hook first redeems user_txs p = Some r"
      using body eqs by (subst tx_loop.simps)
        (auto simp: execute_one_unhooked [where hook = hook] intro: IH [rule_format, OF _ refl refl] split: option.splits sum.splits)
  qed
  then show ?thesis using assms by blast
qed

lemma tx_loop_unhooked:
  "tx_loop evm bn subs None first redeems user_txs (unhooked p)
     = map_option (map_sum id unhooked) (tx_loop evm bn subs hook first redeems user_txs p)"
  using tx_loop_unhooked_Some [of evm bn subs hook first redeems user_txs p]
    tx_loop_unhooked_None [of evm bn subs first redeems user_txs p _ hook]
  by (cases "tx_loop evm bn subs hook first redeems user_txs p";
      cases "tx_loop evm bn subs None first redeems user_txs (unhooked p)") auto

text \<open>What the task relies on: the updates it receives are the changes the EVM state holds.\<close>

definition tracks :: "('msg, 'tx, 's, 'env, 'cache, 'root, 'block) Builder \<Rightarrow> ('tx, 's, 'ctx) Evm \<Rightarrow> (EvmState list \<Rightarrow> 's \<Rightarrow> bool) \<Rightarrow> bool" where
  "tracks bu evm holds \<longleftrightarrow>
     (\<forall>s updates s'. bu_apply_pre_execution_changes bu s = Some (updates, s') \<longrightarrow> holds updates s')
     \<and> (\<forall>updates s fee. holds updates s \<longrightarrow> holds updates (bu_set_base_fee bu fee s))
     \<and> (\<forall>updates s tx sender res s'. holds updates s \<longrightarrow> evm_execute evm s tx sender = Some (res, s') \<longrightarrow> holds (updates @ [tr_state res]) s')
     \<and> (\<forall>updates s logs retries s'. holds updates s \<longrightarrow> evm_scheduled_retries evm s logs = (retries, s') \<longrightarrow> holds updates s')"

text \<open>The task's root is the one \<^verbatim>\<open>finish\<close> would compute, for updates it can represent.\<close>

definition root_agrees :: "('msg, 'tx, 's, 'env, 'cache, 'root, 'block) Builder \<Rightarrow> (EvmState list \<Rightarrow> 's \<Rightarrow> bool) \<Rightarrow> bool
    \<Rightarrow> (EvmState list \<Rightarrow> 'root option) \<Rightarrow> bool" where
  "root_agrees bu holds preserve state_root \<longleftrightarrow>
     (\<forall>updates s root txs. holds updates s \<longrightarrow> (\<forall>u \<in> set updates. sparse_root_hazards u preserve = 0) \<longrightarrow> state_root updates = Some root
       \<longrightarrow> bu_finish bu s txs (Some root) = bu_finish bu s txs None)"

definition watched :: "(EvmState list \<Rightarrow> 's \<Rightarrow> bool) \<Rightarrow> bool \<Rightarrow> ('tx, 's, 'env, 'cache, 'ctx) Production \<Rightarrow> bool" where
  "watched holds preserve p \<longleftrightarrow> holds (pr_task_updates p) (pr_state p)
     \<and> (pr_hazards p = 0 \<longrightarrow> (\<forall>u \<in> set (pr_task_updates p). sparse_root_hazards u preserve = 0))"

lemma on_state_task:
  "pr_task_updates (on_state (Some preserve) u p) = pr_task_updates p @ [u]"
  "pr_hazards (on_state (Some preserve) u p) = 0 \<longleftrightarrow> pr_hazards p = 0 \<and> sparse_root_hazards u preserve = 0"
  by (simp_all add: on_state_def Let_def or_eq_0_iff)

lemma foldl_on_state:
  "pr_task_updates (foldl (\<lambda>p u. on_state (Some preserve) u p) p us) = pr_task_updates p @ us"
  "pr_hazards (foldl (\<lambda>p u. on_state (Some preserve) u p) p us) = 0 \<longleftrightarrow> pr_hazards p = 0 \<and> (\<forall>u \<in> set us. sparse_root_hazards u preserve = 0)"
  by (induction us arbitrary: p) (auto simp: on_state_task)

lemma foldl_on_state_fields [simp]:
  "pr_state (foldl (\<lambda>p u. on_state hook u p) p us) = pr_state p"
  "pr_transaction_index (foldl (\<lambda>p u. on_state hook u p) p us) = pr_transaction_index p"
  "pr_events (foldl (\<lambda>p u. on_state hook u p) p us) = pr_events p"
  "pr_block (foldl (\<lambda>p u. on_state hook u p) p us) = pr_block p" "pr_trace (foldl (\<lambda>p u. on_state hook u p) p us) = pr_trace p"
  "unhooked (foldl (\<lambda>p u. on_state hook u p) p us) = unhooked p"
  by (induction us arbitrary: p) (simp_all add: unhooked_on_state)

lemma watched_step:
  assumes t: "tracks bu evm holds" and w: "watched holds preserve p"
    and e: "execute_one evm bn subs (Some preserve) tx sender_result kind p = Inr (p', retries)"
  shows "watched holds preserve p'"
  using e
proof (cases rule: execute_one_cases)
  case (dropped sender)
  then show ?thesis using w by (simp add: watched_def)
next
  case (included sender res s p1 s')
  have "holds (pr_task_updates p @ [tr_state res]) s"
    using t w included(2) unfolding tracks_def watched_def by blast
  moreover have "s' = s \<or> (\<exists>logs. evm_scheduled_retries evm s logs = (retries, s'))"
    using included(4) by (auto simp: schedule_retries_def Let_def split: if_splits)
  ultimately have "holds (pr_task_updates p @ [tr_state res]) s'"
    using t unfolding tracks_def by blast
  then show ?thesis
    using w by (auto simp: watched_def included(3,5) on_state_task)
qed

lemma prepare_Inr:
  assumes "prepare bu evm parent msg has_task tx_log_stream = Inr (hook, user_txs, p)"
  obtains input s0 updates s1 fee where "bu_digest_message bu msg parent (arbos_version parent) = Some input"
    "bu_builder_for_next_block bu parent (next_block_attributes parent input (arbos_version parent)) = Some s0"
    "bu_apply_pre_execution_changes bu s0 = Some (updates, s1)" "bu_base_fee_wei bu s1 = Some fee"
    "hook = (if has_task then Some (\<not> bu_enabled_in_arbos_30 bu (arbos_version parent)) else None)"
    "user_txs = map (\<lambda>tx. (tx, evm_sender evm tx)) (dm_txs input)"
    "pr_state p = bu_set_base_fee bu (case u64_of_u256 fee of Some f \<Rightarrow> f | None \<Rightarrow> u64_max) s1"
    "p = (foldl (\<lambda>p u. on_state hook u p)
            \<lparr>pr_state = s1, pr_transaction_index = 0, pr_frontier = None, pr_events = [], pr_hazards = 0, pr_task_updates = [],
             pr_block = [], pr_trace = []\<rparr> updates)\<lparr>pr_state := pr_state p, pr_frontier := map_option
               (\<lambda>store. (FrontierBlock_new (ph_hash parent) (bu_evm_env bu (pr_state p)) (bu_cache bu (pr_state p)), store)) tx_log_stream\<rparr>"
  using assms by (auto simp: prepare_def Let_def rbind_eq_Inr ok_or_eq_Inr split: prod.splits)

lemma foldl_same: "foldl (\<lambda>p u. p) p us = p"
  by (induction us) simp_all

lemma unhooked_frontier: "unhooked (p\<lparr>pr_frontier := f\<rparr>) = (unhooked p)\<lparr>pr_frontier := f\<rparr>"
  by (simp add: unhooked_def)

lemma prepare_unhooked:
  "prepare bu evm parent msg False tx_log_stream
     = map_sum id (\<lambda>(hook, user_txs, p). (None, user_txs, unhooked p)) (prepare bu evm parent msg True tx_log_stream)"
  by (simp add: prepare_def Let_def rbind_def ok_or_def foldl_same unhooked_updates unhooked_frontier split: option.split prod.split)
    (simp add: unhooked_def)

lemma prepare_watched:
  assumes "tracks bu evm holds" and "prepare bu evm parent msg True tx_log_stream = Inr (hook, user_txs, p)"
  shows "hook = Some (\<not> bu_enabled_in_arbos_30 bu (arbos_version parent))"
    and "watched holds (\<not> bu_enabled_in_arbos_30 bu (arbos_version parent)) p"
proof -
  obtain s0 updates s1 fee where u: "bu_apply_pre_execution_changes bu s0 = Some (updates, s1)"
    and h: "hook = Some (\<not> bu_enabled_in_arbos_30 bu (arbos_version parent))"
    and f: "pr_state p = bu_set_base_fee bu fee s1"
    and p: "pr_task_updates p = updates" "pr_hazards p = 0 \<longleftrightarrow> (\<forall>u \<in> set updates. sparse_root_hazards u (\<not> bu_enabled_in_arbos_30 bu (arbos_version parent)) = 0)"
  proof (rule prepare_Inr [OF assms(2)])
    fix input s0 updates s1 fee
    assume a: "bu_apply_pre_execution_changes bu s0 = Some (updates, s1)"
      "hook = (if True then Some (\<not> bu_enabled_in_arbos_30 bu (arbos_version parent)) else None)"
      "pr_state p = bu_set_base_fee bu (case u64_of_u256 fee of Some f \<Rightarrow> f | None \<Rightarrow> u64_max) s1"
      and p: "p = (foldl (\<lambda>p u. on_state hook u p)
            \<lparr>pr_state = s1, pr_transaction_index = 0, pr_frontier = None, pr_events = [], pr_hazards = 0, pr_task_updates = [],
             pr_block = [], pr_trace = []\<rparr> updates)\<lparr>pr_state := pr_state p, pr_frontier := map_option
               (\<lambda>store. (FrontierBlock_new (ph_hash parent) (bu_evm_env bu (pr_state p)) (bu_cache bu (pr_state p)), store)) tx_log_stream\<rparr>"
    show thesis
      by (rule that [OF a(1) a(2) [simplified] a(3)]) (subst p, simp add: a(2) foldl_on_state)+
  qed
  show "hook = Some (\<not> bu_enabled_in_arbos_30 bu (arbos_version parent))" by (rule h)
  have "holds updates s1" using assms(1) u unfolding tracks_def by blast
  then have "holds updates (pr_state p)" using assms(1) unfolding f tracks_def by blast
  then show "watched holds (\<not> bu_enabled_in_arbos_30 bu (arbos_version parent)) p"
    unfolding watched_def p by blast
qed

lemma prepare_start:
  assumes "prepare bu evm parent msg has_task tx_log_stream = Inr (hook, user_txs, p)"
  shows "pr_trace p = []" "pr_block p = []" "pr_transaction_index p = 0" "pr_events p = []"
    and "pr_frontier p = map_option (\<lambda>store. (FrontierBlock_new (ph_hash parent) (bu_evm_env bu (pr_state p)) (bu_cache bu (pr_state p)), store)) tx_log_stream"
    and "\<exists>input. bu_digest_message bu msg parent (arbos_version parent) = Some input \<and> map fst user_txs = dm_txs input"
  by (rule prepare_Inr [OF assms], (erule ssubst [where P = "\<lambda>p. _ p = _"])?, simp add: comp_def)+

section \<open>Properties\<close>

text \<open>C18: The block is filled in ArbOS order. The start-block transaction comes first and is included; the message's
  transactions are taken in their order, none left out; every retry a transaction schedules is taken once, in the
  order of scheduling, and before the next transaction of the message is; and the block is what was taken, without the
  transactions that were invalid when their turn came.\<close>

theorem block_order:
  assumes "prepare bu evm parent msg has_task tx_log_stream = Inr (hook, user_txs, p0)"
    and "tx_loop evm block_number has_subscribers hook first [] user_txs p0 = Some (Inr p)"
  shows "pr_block p = included_of (pr_trace p)
    \<and> (\<exists>input. bu_digest_message bu msg parent (arbos_version parent) = Some input \<and> taken_of User (pr_trace p) = dm_txs input)
    \<and> taken_of ScheduledRetry (pr_trace p) = scheduled (pr_trace p) \<and> retries_first (pr_trace p)
    \<and> taken_of StartBlock (pr_trace p) = option_list first
    \<and> (\<forall>t. first = Some t \<longrightarrow> (\<exists>retries later. pr_trace p = (t, StartBlock, True, retries) # later))"
proof -
  note start = prepare_start [OF assms(1)]
  have "ordered first (map fst user_txs) first [] user_txs p0"
    by (simp add: ordered_def start scheduled_def taken_of_def included_of_def retries_first_def option_list_def split: option.split)
  from tx_loop_invariant [OF assms(2), where I = "ordered first (map fst user_txs)", OF this ordered_step]
  have "ordered first (map fst user_txs) None [] [] p" .
  then show ?thesis using start(6) by (simp add: ordered_def)
qed

text \<open>C19: What local consumers observe is what the block contains. With a log stream, the frontier of every
  transaction of the block is recorded in order, from the state after the pre-execution changes; the events published
  carry the block number, the index, the hash and the frontier of exactly the transactions at whose index a consumer
  was connected, in order.\<close>

theorem observations_match_block:
  assumes "prepare bu evm parent msg has_task (Some store) = Inr (hook, user_txs, p0)"
    and "tx_loop evm block_number has_subscribers hook first [] user_txs p0 = Some (Inr p)"
  shows "\<exists>steps ids st. pr_frontier p = Some st
    \<and> advance_block (evm_keccak256 evm) steps (FrontierBlock_new (ph_hash parent) (bu_evm_env bu (pr_state p0)) (bu_cache bu (pr_state p0)), store) = (ids, st)
    \<and> map (\<lambda>(b, i, h, u, c). (b, i, h)) steps = map (\<lambda>i. (block_number, of_nat i, evm_hash evm (pr_block p ! i))) [0..<length (pr_block p)]
    \<and> map (\<lambda>e. (ev_block_number e, ev_transaction_index e, ev_transaction_hash e, ev_frontier_id e)) (pr_events p)
      = map (\<lambda>i. (block_number, of_nat i, evm_hash evm (pr_block p ! i), ids ! i)) (filter (\<lambda>i. has_subscribers (of_nat i)) [0..<length (pr_block p)])"
proof -
  note start = prepare_start [OF assms(1)]
  let ?st = "(FrontierBlock_new (ph_hash parent) (bu_evm_env bu (pr_state p0)) (bu_cache bu (pr_state p0)), store)"
  have "observed evm block_number has_subscribers ?st p0 [] []"
    by (simp add: observed_def start)
  then have "\<exists>steps ids. observed evm block_number has_subscribers ?st p0 steps ids" by blast
  then have "\<exists>steps ids. observed evm block_number has_subscribers ?st p steps ids"
    by (rule tx_loop_invariant [OF assms(2), where I = "\<lambda>_ _ _ p. \<exists>steps ids. observed evm block_number has_subscribers ?st p steps ids"])
      (elim exE, rule observed_step)
  then show ?thesis unfolding observed_def by blast
qed

text \<open>C20: Production ends. Retries can schedule further retries, but as each transaction is worth more than all it
  schedules together - a redeem hands on part of its own gas - the loop takes finitely many, whatever the message, the
  state and the consumers are, and production returns a block or an error.\<close>

theorem production_ends:
  assumes "funded evm worth"
  shows "\<exists>r. produce_with_timing bu evm parent msg task tx_log_stream has_subscribers = Some r"
proof (cases "prepare bu evm parent msg (task \<noteq> None) tx_log_stream")
  case (Inr x)
  obtain hook user_txs p where x: "x = (hook, user_txs, p)" by (cases x)
  obtain r where "tx_loop evm (ph_number parent + 1) has_subscribers hook (bu_start_block_tx bu (pr_state p)) [] user_txs p = Some r"
    using tx_loop_ends [OF assms] by blast
  then show ?thesis using Inr x by (simp add: produce_with_timing_def)
qed (simp add: produce_with_timing_def)

text \<open>C21: The state-root task never changes a block. If its root is right for updates without storage wipes and
  without created empty accounts that must be kept, production with the task gives what production without it gives,
  block, events and frontiers, because a single update it cannot represent, in the pre-execution changes or in any
  transaction, makes production ignore its root.\<close>

theorem state_root_task_transparent:
  assumes "tracks bu evm holds"
    and "root_agrees bu holds (\<not> bu_enabled_in_arbos_30 bu (arbos_version parent)) state_root"
  shows "produce_with_timing bu evm parent msg (Some state_root) tx_log_stream has_subscribers
    = produce_with_timing bu evm parent msg None tx_log_stream has_subscribers"
proof (cases "prepare bu evm parent msg True tx_log_stream")
  case (Inl e)
  then show ?thesis by (simp add: produce_with_timing_def prepare_unhooked)
next
  case (Inr x)
  obtain hook user_txs p where x: "x = (hook, user_txs, p)" by (cases x)
  let ?preserve = "\<not> bu_enabled_in_arbos_30 bu (arbos_version parent)"
  let ?loop = "tx_loop evm (ph_number parent + 1) has_subscribers"
  note w = prepare_watched [OF assms(1) Inr [unfolded x]]
  have same: "finish_production bu (Some state_root) r = finish_production bu None (map_sum id unhooked r)"
    if l: "?loop hook (bu_start_block_tx bu (pr_state p)) [] user_txs p = Some r" for r
  proof (cases r)
    case (Inr q)
    have "watched holds ?preserve q"
      by (rule tx_loop_invariant [OF l [unfolded Inr], where I = "\<lambda>_ _ _ p. watched holds ?preserve p", OF w(2)])
        (rule watched_step [OF assms(1)], assumption, simp only: w(1))
    then have "bu_finish bu (pr_state q) (pr_block q) (state_root_precomputed (Some state_root) q) = bu_finish bu (pr_state q) (pr_block q) None"
      using assms(2) by (cases "state_root (pr_task_updates q)") (auto simp: state_root_precomputed_def watched_def root_agrees_def)
    then show ?thesis using Inr by (simp add: finish_production_def state_root_precomputed_def)
  qed (simp add: finish_production_def)
  show ?thesis
    using same by (cases "?loop hook (bu_start_block_tx bu (pr_state p)) [] user_txs p")
      (simp_all add: produce_with_timing_def prepare_unhooked Inr x tx_loop_unhooked [where hook = hook])
qed

section \<open>Witnesses\<close>

text \<open>Transactions are numbers: one above zero redeems the one below it, nine is invalid, and five destroys an account.
  The state is the list of updates with the last transaction, and the root their number.\<close>

definition bp_update :: "nat \<Rightarrow> EvmState" where
  "bp_update tx = [([], \<lparr>ac_selfdestructed = (tx = 5), ac_created = False, ac_empty = False\<rparr>)]"

definition bp_evm :: "(nat, EvmState list \<times> nat, unit) Evm" where
  "bp_evm = \<lparr>evm_sender = (\<lambda>_. Some []), evm_hash = (\<lambda>tx. [of_nat tx]),
     evm_execute = (\<lambda>s tx _. if tx = 9 then None
       else Some (\<lparr>tr_success = True, tr_gas_used = 1, tr_logs = [\<lparr>log_address = [], log_topics = [], log_data = []\<rparr>], tr_state = bp_update tx\<rparr>,
         (fst s @ [bp_update tx], tx))),
     evm_is_redeem_scheduled_log = (\<lambda>_. True),
     evm_scheduled_retries = (\<lambda>s _. (if snd s = 0 then [] else [snd s - 1], s)),
     evm_chain_context = (\<lambda>_. ()), evm_keccak256 = id\<rparr>"

definition bp_builder :: "(nat list, nat, EvmState list \<times> nat, unit, unit, nat, nat \<times> nat list) Builder" where
  "bp_builder = \<lparr>bu_enabled_in_arbos_30 = (\<lambda>_. True),
     bu_digest_message = (\<lambda>msg _ _. Some \<lparr>dm_txs = msg, dm_l1_timestamp = 0, dm_poster = [], dm_l1_block_number = 0,
       dm_l1_base_fee_wei = 0, dm_delayed_messages_read = 0, dm_block_gas_limit = 0\<rparr>),
     bu_builder_for_next_block = (\<lambda>_ _. Some ([], 0)), bu_apply_pre_execution_changes = (\<lambda>s. Some ([bp_update 0], ([bp_update 0], 0))),
     bu_base_fee_wei = (\<lambda>_. Some 7), bu_set_base_fee = (\<lambda>_ s. s), bu_evm_env = (\<lambda>_. ()), bu_cache = (\<lambda>_. ()),
     bu_start_block_tx = (\<lambda>_. Some 0),
     bu_finish = (\<lambda>s txs root. Some (case root of None \<Rightarrow> length (fst s) | Some r \<Rightarrow> r, txs))\<rparr>"

definition bp_parent :: ParentHeader where
  "bp_parent = \<lparr>ph_number = 6, ph_hash = [1], ph_timestamp = 0, ph_arbos_format_version = Some 32\<rparr>"

definition bp_store :: "(unit, unit, EvmState, unit) store" where
  "bp_store = FrontierStore_new 8"

definition bp_prepared :: "bool option \<times> (nat \<times> address option) list \<times> (nat, EvmState list \<times> nat, unit, unit, unit) Production" where
  "bp_prepared = (None, [(2, Some []), (9, Some []), (1, Some [])],
     \<lparr>pr_state = ([bp_update 0], 0), pr_transaction_index = 0, pr_frontier = Some (FrontierBlock_new [1] () (), bp_store),
      pr_events = [], pr_hazards = 0, pr_task_updates = [], pr_block = [], pr_trace = []\<rparr>)"

abbreviation bp_loop :: "(ProductionError + (nat, EvmState list \<times> nat, unit, unit, unit) Production) option" where
  "bp_loop \<equiv> tx_loop bp_evm 7 (\<lambda>i. i \<noteq> 2) None (Some 0) [] [(2, Some []), (9, Some []), (1, Some [])] (snd (snd bp_prepared))"

lemma bp_prepare: "prepare bp_builder bp_evm bp_parent [2, 9, 1] False (Some bp_store) = Inr bp_prepared"
  by (simp add: prepare_def bp_builder_def bp_evm_def bp_parent_def bp_prepared_def arbos_version_def u64_of_u256_def rbind_def ok_or_def)

lemma bp_loop_ok: "\<exists>p. bp_loop = Some (Inr p) \<and> pr_block p = [0, 2, 1, 0, 1, 0]"
  unfolding bp_prepared_def
  by ((subst tx_loop.simps, simp add: pick_def execute_one_def observe_tx_def schedule_retries_def bp_evm_def block_advance_def Let_def split: prod.split)+)

lemma bp_prepare_parts:
  "prepare bp_builder bp_evm bp_parent [2, 9, 1] False (Some bp_store)
     = Inr (None, [(2, Some []), (9, Some []), (1, Some [])], snd (snd bp_prepared))"
  unfolding bp_prepare by (simp add: bp_prepared_def)

lemma bp_digest: "bu_digest_message bp_builder msg parent v = Some input \<Longrightarrow> dm_txs input = msg"
  by (auto simp: bp_builder_def)

lemma bp_funded: "funded bp_evm id"
  by (auto simp: funded_def bp_evm_def split: if_splits)

lemma bp_tracks: "tracks bp_builder bp_evm (\<lambda>updates s. fst s = updates)"
  by (auto simp: tracks_def bp_builder_def bp_evm_def split: if_splits)

lemma bp_root: "root_agrees bp_builder (\<lambda>updates s. fst s = updates) preserve (\<lambda>updates. Some (length updates))"
  by (simp add: root_agrees_def bp_builder_def)

theorem block_order_witness:
  "\<exists>p. bp_loop = Some (Inr p) \<and> pr_block p = [0, 2, 1, 0, 1, 0] \<and> taken_of User (pr_trace p) = [2, 9, 1]
     \<and> taken_of ScheduledRetry (pr_trace p) = scheduled (pr_trace p)"
proof -
  obtain p where p: "bp_loop = Some (Inr p)" "pr_block p = [0, 2, 1, 0, 1, 0]" using bp_loop_ok by blast
  note o = block_order [OF bp_prepare_parts p(1)]
  then have "taken_of User (pr_trace p) = [2, 9, 1]" using bp_digest by metis
  then show ?thesis using o p by blast
qed

theorem observations_match_block_witness:
  "\<exists>p. bp_loop = Some (Inr p) \<and> map ev_transaction_index (pr_events p) = [0, 1, 3, 4, 5]"
proof -
  obtain p where p: "bp_loop = Some (Inr p)" "pr_block p = [0, 2, 1, 0, 1, 0]" using bp_loop_ok by blast
  obtain ids where "map (\<lambda>e. (ev_block_number e, ev_transaction_index e, ev_transaction_hash e, ev_frontier_id e)) (pr_events p)
      = map (\<lambda>i. (7, of_nat i, evm_hash bp_evm (pr_block p ! i), ids ! i)) (filter (\<lambda>i. of_nat i \<noteq> (2 :: u64)) [0..<length (pr_block p)])"
    using observations_match_block [OF bp_prepare_parts p(1)] by blast
  from arg_cong [OF this, of "map (\<lambda>(b, i, h, f). i)"]
  have "map ev_transaction_index (pr_events p) = [0, 1, 3, 4, 5]"
    by (simp add: comp_def p(2))
  with p(1) show ?thesis by (intro exI [of _ p] conjI)
qed

theorem production_ends_witness:
  "funded bp_evm id \<and> (\<exists>r. produce_with_timing bp_builder bp_evm bp_parent [2, 9, 1] None (Some bp_store) (\<lambda>_. True) = Some r)"
  by (intro conjI bp_funded production_ends [OF bp_funded])

theorem state_root_task_transparent_witness:
  "tracks bp_builder bp_evm (\<lambda>updates s. fst s = updates)
   \<and> produce_with_timing bp_builder bp_evm bp_parent [5, 2] (Some (\<lambda>updates. Some (length updates))) None (\<lambda>_. False)
     = produce_with_timing bp_builder bp_evm bp_parent [5, 2] None None (\<lambda>_. False)"
  using state_root_task_transparent [OF bp_tracks bp_root] bp_tracks by blast

end
