(* ===== verification/Block_Executor.thy ===== *)
theory Block_Executor
  imports Batch "HOL-Library.Sublist"
begin

text \<open>The block executor and assembler, \<^verbatim>\<open>crates/arb-reth-evm/src/block.rs\<close>, and the decoder of the receipts a Nitro
  node stores, \<^verbatim>\<open>crates/arb-reth-node/src/stored_receipt.rs\<close>. The EVM (with ArbOS and its start-block hook), the bloom
  filter, the ordered trie roots and the RLP decoders of \<^verbatim>\<open>alloy\<close> are arguments. Metrics and timings are left out.\<close>

section \<open>Receipts\<close>

record 'l ReceiptWithBloom =
  rc_status :: bool
  rc_cumulative_gas_used :: u64
  rc_logs :: "'l list"
  rc_gas_used_for_l1 :: u64
  rc_logs_bloom :: bytes

datatype 'l ArbReceiptEnvelope =
    Legacy (receipt: "'l ReceiptWithBloom")
  | Eip2930 (receipt: "'l ReceiptWithBloom")
  | Eip1559 (receipt: "'l ReceiptWithBloom")
  | Eip4844 (receipt: "'l ReceiptWithBloom")
  | Eip7702 (receipt: "'l ReceiptWithBloom")
  | Deposit (receipt: "'l ReceiptWithBloom")
  | Unsigned (receipt: "'l ReceiptWithBloom")
  | Contract (receipt: "'l ReceiptWithBloom")
  | Retry (receipt: "'l ReceiptWithBloom")
  | SubmitRetryable (receipt: "'l ReceiptWithBloom")
  | Internal (receipt: "'l ReceiptWithBloom")

definition receipt_envelope_for_type :: "byte \<Rightarrow> 'l ReceiptWithBloom \<Rightarrow> 'l ArbReceiptEnvelope" where
  "receipt_envelope_for_type tx_type rwb =
     (if tx_type = 0x00 then Legacy rwb
      else if tx_type = 0x01 then Eip2930 rwb
      else if tx_type = 0x02 then Eip1559 rwb
      else if tx_type = 0x03 then Eip4844 rwb
      else if tx_type = 0x04 then Eip7702 rwb
      else if tx_type = 0x64 then Deposit rwb
      else if tx_type = 0x65 then Unsigned rwb
      else if tx_type = 0x66 then Contract rwb
      else if tx_type = 0x68 then Retry rwb
      else if tx_type = 0x69 then SubmitRetryable rwb
      else if tx_type = 0x6a then Internal rwb
      else Legacy rwb)"

record 'l ExecutionResult =
  er_success :: bool
  er_gas_used :: u64
  er_logs :: "'l list"

definition build_arb_receipt :: "('l list \<Rightarrow> bytes) \<Rightarrow> byte \<Rightarrow> 'l ExecutionResult \<Rightarrow> u64 \<Rightarrow> u64 \<Rightarrow> 'l ArbReceiptEnvelope" where
  "build_arb_receipt logs_bloom tx_type res cumulative_gas_used gas_used_for_l1 =
     receipt_envelope_for_type tx_type \<lparr>rc_status = er_success res, rc_cumulative_gas_used = cumulative_gas_used,
       rc_logs = er_logs res, rc_gas_used_for_l1 = gas_used_for_l1, rc_logs_bloom = logs_bloom (er_logs res)\<rparr>"

section \<open>The executor\<close>

record ArbBlockHeaderInfo =
  hi_send_root :: b256
  hi_send_count :: u64
  hi_l1_block_number :: u64
  hi_arbos_version :: u64
  hi_collect_tips :: bool

text \<open>What the executor uses of the EVM, its state being \<open>'s\<close> and a state delta \<open>'d\<close>. A failed transaction may leave
  traces in the EVM's scratch state, so a new state is returned either way.\<close>

record ('tx, 's, 'd, 'l) Vm =
  vm_system_call :: "'s \<Rightarrow> bytes \<Rightarrow> ('d option \<times> 's)"
  vm_transact :: "'s \<Rightarrow> 'tx \<Rightarrow> ('l ExecutionResult \<times> 'd) option \<times> 's"
  vm_poster_gas :: "'s \<Rightarrow> u64"
  vm_commit :: "'d \<Rightarrow> 's \<Rightarrow> 's"
  vm_read_block_header_info :: "'s \<Rightarrow> ArbBlockHeaderInfo option"
  vm_block_number :: "'s \<Rightarrow> u256"
  vm_set_l1_block_number :: "u64 \<Rightarrow> 's \<Rightarrow> 's"
  vm_ty :: "'tx \<Rightarrow> byte"
  vm_logs_bloom :: "'l list \<Rightarrow> bytes"

record ArbBlockExecutionCtx =
  cx_parent_hash :: b256
  cx_extra_data :: bytes
  cx_l1_base_fee_wei :: u256
  cx_l1_block_number :: u64
  cx_time_last_block :: u64
  cx_sequence_number :: "u64 option"
  cx_poster :: address
  cx_delayed_messages_read :: u64

record ('s, 'l) ArbBlockExecutor =
  ex_evm :: 's
  ex_ctx :: ArbBlockExecutionCtx
  ex_chain_id :: u64
  ex_receipts :: "'l ArbReceiptEnvelope list"
  ex_gas_used :: u64
  ex_header_info_out :: "ArbBlockHeaderInfo option"

datatype BlockExecutionError = PreExecutionEvmError | TransactionEvmError | HeaderInfoError

definition create_executor :: "('tx, 's, 'd, 'l) Vm \<Rightarrow> u64 \<Rightarrow> 's \<Rightarrow> ArbBlockExecutionCtx \<Rightarrow> ('s, 'l) ArbBlockExecutor" where
  "create_executor vm chain_id evm ctx = \<lparr>ex_evm = vm_set_l1_block_number vm (cx_l1_block_number ctx) evm, ex_ctx = ctx,
     ex_chain_id = chain_id, ex_receipts = [], ex_gas_used = 0, ex_header_info_out = None\<rparr>"

definition apply_pre_execution_changes :: "('tx, 's, 'd, 'l) Vm \<Rightarrow> ('s, 'l) ArbBlockExecutor
    \<Rightarrow> BlockExecutionError + ('s, 'l) ArbBlockExecutor" where
  "apply_pre_execution_changes vm ex = (case vm_system_call vm (ex_evm ex) (cx_parent_hash (ex_ctx ex)) of
       (None, _) \<Rightarrow> Inl PreExecutionEvmError
     | (Some state, evm) \<Rightarrow> Inr (ex\<lparr>ex_evm := vm_commit vm state evm\<rparr>))"

record ('d, 'l) ArbTxResult =
  at_result :: "'l ExecutionResult"
  at_state :: 'd
  at_gas_used_for_l1 :: u64
  at_tx_type :: byte

definition execute_transaction_without_commit :: "('tx, 's, 'd, 'l) Vm \<Rightarrow> 'tx \<Rightarrow> ('s, 'l) ArbBlockExecutor
    \<Rightarrow> (BlockExecutionError + ('d, 'l) ArbTxResult) \<times> ('s, 'l) ArbBlockExecutor" where
  "execute_transaction_without_commit vm tx ex = (case vm_transact vm (ex_evm ex) tx of
       (None, evm) \<Rightarrow> (Inl TransactionEvmError, ex\<lparr>ex_evm := evm\<rparr>)
     | (Some (res, state), evm) \<Rightarrow>
         (Inr \<lparr>at_result = res, at_state = state, at_gas_used_for_l1 = vm_poster_gas vm evm, at_tx_type = vm_ty vm tx\<rparr>, ex\<lparr>ex_evm := evm\<rparr>))"

definition commit_transaction :: "('tx, 's, 'd, 'l) Vm \<Rightarrow> ('d, 'l) ArbTxResult \<Rightarrow> ('s, 'l) ArbBlockExecutor \<Rightarrow> ('s, 'l) ArbBlockExecutor" where
  "commit_transaction vm output ex =
     (let gas_used = ex_gas_used ex + er_gas_used (at_result output) in
      ex\<lparr>ex_gas_used := gas_used,
        ex_receipts := ex_receipts ex @ [build_arb_receipt (vm_logs_bloom vm) (at_tx_type output) (at_result output) gas_used (at_gas_used_for_l1 output)],
        ex_evm := vm_commit vm (at_state output) (ex_evm ex)\<rparr>)"

record 'l BlockExecutionResult =
  be_receipts :: "'l ArbReceiptEnvelope list"
  be_gas_used :: u64
  be_blob_gas_used :: u64

definition finish :: "('tx, 's, 'd, 'l) Vm \<Rightarrow> ('s, 'l) ArbBlockExecutor
    \<Rightarrow> BlockExecutionError + ('s, 'l) ArbBlockExecutor \<times> 'l BlockExecutionResult" where
  "finish vm ex = (case vm_read_block_header_info vm (ex_evm ex) of
       None \<Rightarrow> Inl HeaderInfoError
     | Some header_info \<Rightarrow> Inr (ex\<lparr>ex_header_info_out := Some header_info\<rparr>,
         \<lparr>be_receipts = ex_receipts ex,
          be_gas_used = (if ex_receipts ex = [] then 0 else rc_cumulative_gas_used (receipt (last (ex_receipts ex)))),
          be_blob_gas_used = 0\<rparr>))"

record StartBlockInput =
  sb_parent_number :: u64
  sb_sequence_number :: "u64 option"
  sb_l1_block_number :: u64
  sb_poster :: address
  sb_l1_base_fee_wei :: u256
  sb_chain_id :: u64

definition saturating_to_u64 :: "u256 \<Rightarrow> u64" where
  "saturating_to_u64 v = (if v \<le> ucast u64_max then ucast v else u64_max)"

definition start_block_input :: "('s, 'l) ArbBlockExecutor \<Rightarrow> u64 \<Rightarrow> StartBlockInput" where
  "start_block_input ex l2_block_number = \<lparr>sb_parent_number = sat_sub l2_block_number 1,
     sb_sequence_number = cx_sequence_number (ex_ctx ex), sb_l1_block_number = cx_l1_block_number (ex_ctx ex),
     sb_poster = cx_poster (ex_ctx ex), sb_l1_base_fee_wei = cx_l1_base_fee_wei (ex_ctx ex), sb_chain_id = ex_chain_id ex\<rparr>"

text \<open>The start-block transaction: the chain id with the calldata the hook gives for the input, the L2 block number and
  the time since the parent.\<close>

definition start_block_tx :: "('tx, 's, 'd, 'l) Vm \<Rightarrow> (StartBlockInput \<Rightarrow> u64 \<Rightarrow> u64 \<Rightarrow> bytes option) \<Rightarrow> ('s, 'l) ArbBlockExecutor
    \<Rightarrow> (u64 \<times> bytes) option" where
  "start_block_tx vm start_block_prelude ex =
     (let l2_block_number = saturating_to_u64 (vm_block_number vm (ex_evm ex)) in
      map_option (\<lambda>data. (ex_chain_id ex, data))
        (start_block_prelude (start_block_input ex l2_block_number) l2_block_number (cx_time_last_block (ex_ctx ex))))"

text \<open>The transactions of a block as its producer drives them: what is invalid is left out.\<close>

fun execute_block :: "('tx, 's, 'd, 'l) Vm \<Rightarrow> 'tx list \<Rightarrow> ('s, 'l) ArbBlockExecutor \<Rightarrow> ('tx \<times> ('d, 'l) ArbTxResult) list \<times> ('s, 'l) ArbBlockExecutor" where
  "execute_block vm [] ex = ([], ex)"
| "execute_block vm (tx # txs) ex = (case execute_transaction_without_commit vm tx ex of
     (Inl e, ex) \<Rightarrow> execute_block vm txs ex
   | (Inr output, ex) \<Rightarrow> (case execute_block vm txs (commit_transaction vm output ex) of (outs, ex) \<Rightarrow> ((tx, output) # outs, ex)))"

section \<open>The assembler\<close>

record BlockEnv =
  bv_number :: u256
  bv_timestamp :: u256
  bv_beneficiary :: address
  bv_gas_limit :: u64
  bv_basefee :: u64
  bv_difficulty :: u256
  bv_prevrandao :: "b256 option"

record Header =
  hd_parent_hash :: b256
  hd_ommers_hash :: b256
  hd_beneficiary :: address
  hd_state_root :: b256
  hd_transactions_root :: b256
  hd_receipts_root :: b256
  hd_logs_bloom :: bytes
  hd_difficulty :: u256
  hd_number :: u64
  hd_gas_limit :: u64
  hd_gas_used :: u64
  hd_timestamp :: u64
  hd_mix_hash :: b256
  hd_nonce :: bytes
  hd_base_fee_per_gas :: "u64 option"
  hd_extra_data :: bytes

record ArbHeaderInfo =
  ah_send_root :: b256
  ah_send_count :: u64
  ah_l1_block_number :: u64
  ah_arbos_format_version :: u64
  ah_collect_tips :: bool

text \<open>Constants and encoders of the other packages the assembler uses.\<close>

record ('tx, 'l) Assembly =
  as_transaction_root :: "'tx list \<Rightarrow> b256"
  as_receipt_root :: "'l ArbReceiptEnvelope list \<Rightarrow> b256"
  as_logs_bloom :: "'l list \<Rightarrow> bytes"
  as_encode_mix_hash :: "ArbHeaderInfo \<Rightarrow> b256"
  as_encode_extra_data :: "ArbHeaderInfo \<Rightarrow> bytes"
  as_EMPTY_OMMER_ROOT_HASH :: b256
  as_BATCH_POSTER_ADDRESS :: address

definition default_header_info :: ArbBlockHeaderInfo where
  "default_header_info = \<lparr>hi_send_root = replicate 32 0, hi_send_count = 0, hi_l1_block_number = 0, hi_arbos_version = 0, hi_collect_tips = False\<rparr>"

definition assemble_block :: "('tx, 'l) Assembly \<Rightarrow> BlockEnv \<Rightarrow> ArbBlockExecutionCtx \<Rightarrow> ArbBlockHeaderInfo option \<Rightarrow> 'tx list
    \<Rightarrow> 'l BlockExecutionResult \<Rightarrow> b256 \<Rightarrow> Header \<times> 'tx list" where
  "assemble_block as env ctx header_info_out transactions output state_root =
     (let computed = (case header_info_out of Some i \<Rightarrow> i | None \<Rightarrow> default_header_info);
          collect_tips = (hi_collect_tips computed \<and> bv_beneficiary env = as_BATCH_POSTER_ADDRESS as);
          arb_info = \<lparr>ah_send_root = hi_send_root computed, ah_send_count = hi_send_count computed,
            ah_l1_block_number = hi_l1_block_number computed, ah_arbos_format_version = hi_arbos_version computed, ah_collect_tips = collect_tips\<rparr>
      in (\<lparr>hd_parent_hash = cx_parent_hash ctx, hd_ommers_hash = as_EMPTY_OMMER_ROOT_HASH as, hd_beneficiary = bv_beneficiary env,
           hd_state_root = state_root, hd_transactions_root = as_transaction_root as transactions,
           hd_receipts_root = as_receipt_root as (be_receipts output),
           hd_logs_bloom = as_logs_bloom as (concat (map (rc_logs \<circ> receipt) (be_receipts output))),
           hd_difficulty = 1, hd_number = saturating_to_u64 (bv_number env), hd_gas_limit = bv_gas_limit env,
           hd_gas_used = be_gas_used output, hd_timestamp = saturating_to_u64 (bv_timestamp env),
           hd_mix_hash = as_encode_mix_hash as arb_info, hd_nonce = u64_to_be (cx_delayed_messages_read ctx),
           hd_base_fee_per_gas = Some (bv_basefee env), hd_extra_data = as_encode_extra_data as arb_info\<rparr>, transactions))"

section \<open>Stored receipts\<close>

definition ARBITRUM_LEGACY_STATUS :: bytes where "ARBITRUM_LEGACY_STATUS = [0x00]"

text \<open>The RLP decoders, each giving the value and what follows it.\<close>

record 'l RlpDecoders =
  rl_header :: rlp_header
  rl_bytes :: "bytes \<Rightarrow> (bytes \<times> bytes) option"
  rl_u64 :: "bytes \<Rightarrow> (u64 \<times> bytes) option"
  rl_logs :: "bytes \<Rightarrow> ('l list \<times> bytes) option"

datatype StoredReceiptError =
    RlpError
  | NotAList
  | LengthMismatch nat nat
  | MoreReceipts nat
  | FewerReceipts nat nat
  | ReceiptNotAList nat
  | ReceiptTooLong nat nat nat
  | BadStatus nat
  | ClassicReceipt nat
  | UnsupportedStatus nat nat
  | BadCumulativeGas nat
  | BadL1Gas nat
  | BadLogs nat

definition decode_status :: "nat \<Rightarrow> bytes \<Rightarrow> StoredReceiptError + bool" where
  "decode_status index status =
     (if status = ARBITRUM_LEGACY_STATUS then Inl (ClassicReceipt index)
      else if status = [] then Inr False
      else if status = [1] then Inr True
      else Inl (UnsupportedStatus index (length status)))"

definition decode_receipt_body :: "'l RlpDecoders \<Rightarrow> ('l list \<Rightarrow> bytes) \<Rightarrow> bytes \<Rightarrow> byte \<Rightarrow> nat \<Rightarrow> StoredReceiptError + 'l ArbReceiptEnvelope" where
  "decode_receipt_body rlp logs_bloom body tx_type index =
     rbind (ok_or (BadStatus index) (rl_bytes rlp body)) (\<lambda>(status, body).
     rbind (decode_status index status) (\<lambda>status.
     rbind (ok_or (BadCumulativeGas index) (rl_u64 rlp body)) (\<lambda>(cumulative_gas_used, body).
     rbind (ok_or (BadL1Gas index) (rl_u64 rlp body)) (\<lambda>(gas_used_for_l1, body).
     rbind (ok_or (BadLogs index) (rl_logs rlp body)) (\<lambda>(logs, body).
     Inr (receipt_envelope_for_type tx_type \<lparr>rc_status = status, rc_cumulative_gas_used = cumulative_gas_used, rc_logs = logs,
       rc_gas_used_for_l1 = gas_used_for_l1, rc_logs_bloom = logs_bloom logs\<rparr>))))))"

definition decode_one :: "'l RlpDecoders \<Rightarrow> ('l list \<Rightarrow> bytes) \<Rightarrow> bytes \<Rightarrow> byte \<Rightarrow> nat \<Rightarrow> StoredReceiptError + 'l ArbReceiptEnvelope \<times> bytes" where
  "decode_one rlp logs_bloom buf tx_type index = (case rl_header rlp buf of
       None \<Rightarrow> Inl RlpError
     | Some (is_list, payload_length, buf) \<Rightarrow>
         if \<not> is_list then Inl (ReceiptNotAList index)
         else if length buf < payload_length then Inl (ReceiptTooLong index payload_length (length buf))
         else rbind (decode_receipt_body rlp logs_bloom (take payload_length buf) tx_type index) (\<lambda>r. Inr (r, drop payload_length buf)))"

text \<open>The loop over the list, with the transaction types still to come.\<close>

fun decode_receipts_loop :: "'l RlpDecoders \<Rightarrow> ('l list \<Rightarrow> bytes) \<Rightarrow> bytes \<Rightarrow> byte list \<Rightarrow> nat \<Rightarrow> StoredReceiptError + 'l ArbReceiptEnvelope list" where
  "decode_receipts_loop rlp logs_bloom buf [] index = (if buf = [] then Inr [] else Inl (MoreReceipts index))"
| "decode_receipts_loop rlp logs_bloom buf (tx_type # tx_types) index =
     (if buf = [] then Inl (FewerReceipts (index + length (tx_type # tx_types)) index)
      else rbind (decode_one rlp logs_bloom buf tx_type index) (\<lambda>(r, buf).
        rbind (decode_receipts_loop rlp logs_bloom buf tx_types (index + 1)) (\<lambda>rs. Inr (r # rs))))"

definition decode_stored_receipts :: "'l RlpDecoders \<Rightarrow> ('l list \<Rightarrow> bytes) \<Rightarrow> bytes \<Rightarrow> byte list \<Rightarrow> StoredReceiptError + 'l ArbReceiptEnvelope list" where
  "decode_stored_receipts rlp logs_bloom rlp_bytes tx_types = (case rl_header rlp rlp_bytes of
       None \<Rightarrow> Inl RlpError
     | Some (is_list, payload_length, buf) \<Rightarrow>
         if \<not> is_list then Inl NotAList
         else if length buf \<noteq> payload_length then Inl (LengthMismatch payload_length (length buf))
         else decode_receipts_loop rlp logs_bloom buf tx_types 0)"

section \<open>The receipts of a block\<close>

text \<open>The type byte an envelope stands for.\<close>

fun envelope_type :: "'l ArbReceiptEnvelope \<Rightarrow> byte" where
  "envelope_type (Legacy _) = 0x00"
| "envelope_type (Eip2930 _) = 0x01"
| "envelope_type (Eip1559 _) = 0x02"
| "envelope_type (Eip4844 _) = 0x03"
| "envelope_type (Eip7702 _) = 0x04"
| "envelope_type (Deposit _) = 0x64"
| "envelope_type (Unsigned _) = 0x65"
| "envelope_type (Contract _) = 0x66"
| "envelope_type (Retry _) = 0x68"
| "envelope_type (SubmitRetryable _) = 0x69"
| "envelope_type (Internal _) = 0x6a"

definition tx_types_known :: "byte set" where
  "tx_types_known = {0x00, 0x01, 0x02, 0x03, 0x04, 0x64, 0x65, 0x66, 0x68, 0x69, 0x6a}"

lemma receipt_envelope [simp]: "receipt (receipt_envelope_for_type t r) = r"
  by (simp add: receipt_envelope_for_type_def)

lemma envelope_type_known: "t \<in> tx_types_known \<Longrightarrow> envelope_type (receipt_envelope_for_type t r) = t"
  by (auto simp: tx_types_known_def receipt_envelope_for_type_def)

lemma envelope_type_unknown: "t \<notin> tx_types_known \<Longrightarrow> receipt_envelope_for_type t r = Legacy r"
  by (simp add: tx_types_known_def receipt_envelope_for_type_def)

text \<open>The receipts of executed transactions, from the gas used before them.\<close>

fun receipts_from :: "('tx, 's, 'd, 'l) Vm \<Rightarrow> u64 \<Rightarrow> ('tx \<times> ('d, 'l) ArbTxResult) list \<Rightarrow> 'l ArbReceiptEnvelope list" where
  "receipts_from vm gas [] = []"
| "receipts_from vm gas ((tx, out) # outs) =
     build_arb_receipt (vm_logs_bloom vm) (vm_ty vm tx) (at_result out) (gas + er_gas_used (at_result out)) (at_gas_used_for_l1 out)
     # receipts_from vm (gas + er_gas_used (at_result out)) outs"

abbreviation gas_of :: "('tx \<times> ('d, 'l) ArbTxResult) list \<Rightarrow> u64" where
  "gas_of outs \<equiv> sum_list (map (\<lambda>(tx, out). er_gas_used (at_result out)) outs)"

lemma execute_block_receipts:
  assumes "execute_block vm txs ex = (outs, ex')"
  shows "ex_receipts ex' = ex_receipts ex @ receipts_from vm (ex_gas_used ex) outs" and "ex_gas_used ex' = ex_gas_used ex + gas_of outs"
    and "subseq (map fst outs) txs"
proof -
  have "ex_receipts ex' = ex_receipts ex @ receipts_from vm (ex_gas_used ex) outs \<and> ex_gas_used ex' = ex_gas_used ex + gas_of outs
      \<and> subseq (map fst outs) txs"
    using assms
  proof (induction txs arbitrary: ex outs)
    case Nil
    then show ?case by simp
  next
    case (Cons tx txs)
    show ?case
    proof (cases "vm_transact vm (ex_evm ex) tx")
      case (Pair r evm)
      show ?thesis
      proof (cases r)
        case None
        then have "execute_block vm txs (ex\<lparr>ex_evm := evm\<rparr>) = (outs, ex')"
          using Cons.prems Pair by (simp add: execute_transaction_without_commit_def)
        from Cons.IH [OF this] show ?thesis by (auto intro: subseq_Cons')
      next
        case (Some x)
        obtain res state where x: "x = (res, state)" by (cases x)
        let ?out = "\<lparr>at_result = res, at_state = state, at_gas_used_for_l1 = vm_poster_gas vm evm, at_tx_type = vm_ty vm tx\<rparr>"
        obtain outs' where o: "execute_block vm txs (commit_transaction vm ?out (ex\<lparr>ex_evm := evm\<rparr>)) = (outs', ex')" "outs = (tx, ?out) # outs'"
          using Cons.prems Pair Some x by (auto simp: execute_transaction_without_commit_def split: prod.splits)
        from Cons.IH [OF o(1)] show ?thesis by (simp add: o(2) commit_transaction_def Let_def add.assoc)
      qed
    qed
  qed
  then show "ex_receipts ex' = ex_receipts ex @ receipts_from vm (ex_gas_used ex) outs" and "ex_gas_used ex' = ex_gas_used ex + gas_of outs"
    and "subseq (map fst outs) txs" by simp_all
qed

lemma length_receipts_from [simp]: "length (receipts_from vm gas outs) = length outs"
  by (induction vm gas outs rule: receipts_from.induct) simp_all

lemma receipts_from_nth:
  "i < length outs \<Longrightarrow> receipts_from vm gas outs ! i
     = build_arb_receipt (vm_logs_bloom vm) (vm_ty vm (fst (outs ! i))) (at_result (snd (outs ! i))) (gas + gas_of (take (Suc i) outs))
         (at_gas_used_for_l1 (snd (outs ! i)))"
proof (induction vm gas outs arbitrary: i rule: receipts_from.induct)
  case (2 vm gas tx out outs)
  then show ?case by (cases i) (simp_all add: add.assoc)
qed simp

text \<open>C22: The receipts of a block are typed by its transactions. Whatever transactions are executed, the invalid ones
  being left out, there is one receipt for each transaction of the block, in order; it is in the envelope of the
  transaction's type whenever that type is a known one; it carries the outcome, the logs and their bloom, the L1 gas,
  and the gas used by the block up to and including it; and the block's gas is that of its last receipt.\<close>

theorem receipts_typed:
  assumes "execute_block vm txs (create_executor vm chain_id evm ctx) = (outs, ex)"
  shows "subseq (map fst outs) txs \<and> length (ex_receipts ex) = length outs
    \<and> (\<forall>i < length outs. vm_ty vm (fst (outs ! i)) \<in> tx_types_known \<longrightarrow> envelope_type (ex_receipts ex ! i) = vm_ty vm (fst (outs ! i)))
    \<and> (\<forall>i < length outs. receipt (ex_receipts ex ! i) = \<lparr>rc_status = er_success (at_result (snd (outs ! i))),
         rc_cumulative_gas_used = gas_of (take (Suc i) outs), rc_logs = er_logs (at_result (snd (outs ! i))),
         rc_gas_used_for_l1 = at_gas_used_for_l1 (snd (outs ! i)), rc_logs_bloom = vm_logs_bloom vm (er_logs (at_result (snd (outs ! i))))\<rparr>)
    \<and> (\<forall>ex' res. finish vm ex = Inr (ex', res) \<longrightarrow> be_receipts res = ex_receipts ex \<and> be_gas_used res = gas_of outs)"
proof -
  note r = execute_block_receipts [OF assms, unfolded create_executor_def, simplified]
  have n: "ex_receipts ex ! i = build_arb_receipt (vm_logs_bloom vm) (vm_ty vm (fst (outs ! i))) (at_result (snd (outs ! i)))
      (gas_of (take (Suc i) outs)) (at_gas_used_for_l1 (snd (outs ! i)))" if "i < length outs" for i
    using that by (simp add: r(1) receipts_from_nth)
  have len: "length (ex_receipts ex) = length outs" by (simp add: r(1))
  have fin: "be_gas_used res = gas_of outs \<and> be_receipts res = ex_receipts ex" if "finish vm ex = Inr (ex', res)" for ex' res
  proof (cases "outs = []")
    case True
    then show ?thesis using that r(1) by (auto simp: finish_def split: option.splits)
  next
    case False
    then have ne: "ex_receipts ex \<noteq> []" and lt: "length outs - 1 < length outs" using len by auto
    have "last (ex_receipts ex) = ex_receipts ex ! (length outs - 1)" using ne len by (simp add: last_conv_nth)
    then have "rc_cumulative_gas_used (receipt (last (ex_receipts ex))) = gas_of outs"
      using n [OF lt] by (simp add: build_arb_receipt_def)
    then show ?thesis using that ne by (auto simp: finish_def split: option.splits)
  qed
  have typed: "envelope_type (ex_receipts ex ! i) = vm_ty vm (fst (outs ! i))"
    if "i < length outs" "vm_ty vm (fst (outs ! i)) \<in> tx_types_known" for i
    unfolding n [OF that(1)] build_arb_receipt_def by (rule envelope_type_known [OF that(2)])
  show ?thesis
    using r(3) len fin typed by (intro conjI allI impI) (simp_all add: n build_arb_receipt_def)
qed

section \<open>Stored receipts decode to those of the executor\<close>

text \<open>Nitro's storage form: a list of the status, the cumulative gas, the L1 gas, the logs, and trailing fields.\<close>

record 'l RlpEncoders =
  en_list :: "bytes \<Rightarrow> bytes"
  en_bytes :: "bytes \<Rightarrow> bytes"
  en_u64 :: "u64 \<Rightarrow> bytes"
  en_logs :: "'l list \<Rightarrow> bytes"

definition stored_body :: "'l RlpEncoders \<Rightarrow> bytes \<times> 'l ReceiptWithBloom \<Rightarrow> bytes" where
  "stored_body en = (\<lambda>(trailing, r). en_bytes en (if rc_status r then [1] else []) @ en_u64 en (rc_cumulative_gas_used r)
     @ en_u64 en (rc_gas_used_for_l1 r) @ en_logs en (rc_logs r) @ trailing)"

definition stored_form :: "'l RlpEncoders \<Rightarrow> (bytes \<times> 'l ReceiptWithBloom) list \<Rightarrow> bytes" where
  "stored_form en rs = concat (map (\<lambda>r. en_list en (stored_body en r)) rs)"

text \<open>What the decoders are documented to do: they read back what RLP encoding writes.\<close>

definition codec_ok :: "'l RlpDecoders \<Rightarrow> 'l RlpEncoders \<Rightarrow> bool" where
  "codec_ok rlp en \<longleftrightarrow>
     (\<forall>payload rest. length payload < 2 ^ 64 \<longrightarrow> en_list en payload \<noteq> [] \<and> rl_header rlp (en_list en payload @ rest) = Some (True, length payload, payload @ rest))
     \<and> (\<forall>b rest. length b < 2 ^ 64 \<longrightarrow> rl_bytes rlp (en_bytes en b @ rest) = Some (b, rest))
     \<and> (\<forall>v rest. rl_u64 rlp (en_u64 en v @ rest) = Some (v, rest))
     \<and> (\<forall>logs rest. length (en_logs en logs) < 2 ^ 64 \<longrightarrow> rl_logs rlp (en_logs en logs @ rest) = Some (logs, rest))"

lemma decode_one_stored:
  assumes c: "codec_ok rlp en" and "length (stored_body en (trailing, r)) < 2 ^ 64"
  shows "decode_one rlp bloom (en_list en (stored_body en (trailing, r)) @ rest) tx_type i
    = Inr (receipt_envelope_for_type tx_type (r\<lparr>rc_logs_bloom := bloom (rc_logs r)\<rparr>), rest)"
proof -
  have h: "rl_header rlp (en_list en (stored_body en (trailing, r)) @ rest) = Some (True, length (stored_body en (trailing, r)), stored_body en (trailing, r) @ rest)"
    using assms unfolding codec_ok_def by blast
  have b: "rl_bytes rlp (en_bytes en (if rc_status r then [1] else []) @ rest) = Some (if rc_status r then [1] else [], rest)" for rest
    using c unfolding codec_ok_def by simp
  have "decode_receipt_body rlp bloom (stored_body en (trailing, r)) tx_type i
      = Inr (receipt_envelope_for_type tx_type (r\<lparr>rc_logs_bloom := bloom (rc_logs r)\<rparr>))"
    using c b assms(2) by (cases r) (auto simp: codec_ok_def decode_receipt_body_def stored_body_def decode_status_def ARBITRUM_LEGACY_STATUS_def)
  then show ?thesis by (simp add: decode_one_def h)
qed

lemma decode_loop_stored:
  assumes c: "codec_ok rlp en" and "\<forall>r \<in> set rs. length (stored_body en r) < 2 ^ 64" and "length tx_types = length rs"
  shows "decode_receipts_loop rlp bloom (stored_form en rs) tx_types i
    = Inr (map2 receipt_envelope_for_type tx_types (map (\<lambda>(trailing, r). r\<lparr>rc_logs_bloom := bloom (rc_logs r)\<rparr>) rs))"
  using assms(2,3)
proof (induction rs arbitrary: tx_types i)
  case (Cons r rs)
  obtain trailing r' where r: "r = (trailing, r')" by (cases r)
  obtain t ts where t: "tx_types = t # ts" using Cons.prems(2) by (cases tx_types) auto
  have "en_list en (stored_body en r) \<noteq> []" using c Cons.prems(1) unfolding codec_ok_def by simp
  then show ?case
    using Cons.IH [of ts] Cons.prems by (simp add: t r stored_form_def decode_one_stored [OF c])
qed (simp add: stored_form_def)

lemma decode_loop_wrong_count:
  assumes c: "codec_ok rlp en" and "\<forall>r \<in> set rs. length (stored_body en r) < 2 ^ 64" and "length tx_types \<noteq> length rs"
  shows "isl (decode_receipts_loop rlp bloom (stored_form en rs) tx_types i)"
  using assms(2,3)
proof (induction rs arbitrary: tx_types i)
  case Nil
  then show ?case by (cases tx_types) (simp_all add: stored_form_def)
next
  case (Cons r rs)
  obtain trailing r' where r: "r = (trailing, r')" by (cases r)
  have ne: "en_list en (stored_body en r) \<noteq> []" using c Cons.prems(1) unfolding codec_ok_def by simp
  show ?case
  proof (cases tx_types)
    case Nil
    then show ?thesis using ne by (simp add: stored_form_def)
  next
    case (Cons t ts)
    then have "isl (decode_receipts_loop rlp bloom (stored_form en rs) ts (i + 1))" using Cons.IH [of ts "i + 1"] Cons.prems by simp
    then show ?thesis
      using Cons.prems(1) ne by (auto simp: Cons r stored_form_def decode_one_stored [OF c] isl_def)
  qed
qed

lemma receipts_from_bloom:
  "map2 receipt_envelope_for_type (map (vm_ty vm \<circ> fst) outs)
     (map (\<lambda>r. r\<lparr>rc_logs_bloom := vm_logs_bloom vm (rc_logs r)\<rparr>) (map receipt (receipts_from vm gas outs))) = receipts_from vm gas outs"
  by (induction vm gas outs rule: receipts_from.induct) (simp_all add: build_arb_receipt_def)

text \<open>C23: Importing a Nitro node's stored receipts gives the receipts this node would have produced itself. For any
  executed block, the receipts stored in Nitro's form - without bloom, without type, with any trailing fields - decode,
  together with the types of the block's transactions, to exactly the receipts of the executor; with any other number
  of transactions decoding fails.\<close>

theorem stored_receipts_match_execution:
  assumes "execute_block vm txs (create_executor vm chain_id evm ctx) = (outs, ex)" and "codec_ok rlp en"
    and "length trailings = length outs" and "rs = zip trailings (map receipt (ex_receipts ex))"
    and "\<forall>r \<in> set rs. length (stored_body en r) < 2 ^ 64" and "length (stored_form en rs) < 2 ^ 64"
  shows "decode_stored_receipts rlp (vm_logs_bloom vm) (en_list en (stored_form en rs)) (map (vm_ty vm \<circ> fst) outs) = Inr (ex_receipts ex)
    \<and> (\<forall>tx_types. length tx_types \<noteq> length outs
        \<longrightarrow> isl (decode_stored_receipts rlp (vm_logs_bloom vm) (en_list en (stored_form en rs)) tx_types))"
proof -
  have r: "ex_receipts ex = receipts_from vm 0 outs"
    using execute_block_receipts(1) [OF assms(1)] by (simp add: create_executor_def)
  have len: "length rs = length outs" using assms(3,4) by (simp add: r)
  have h: "decode_stored_receipts rlp bloom (en_list en (stored_form en rs)) tx_types = decode_receipts_loop rlp bloom (stored_form en rs) tx_types 0"
    for bloom tx_types
  proof -
    have "rl_header rlp (en_list en (stored_form en rs) @ []) = Some (True, length (stored_form en rs), stored_form en rs @ [])"
      using assms(2,6) unfolding codec_ok_def by blast
    then show ?thesis by (simp add: decode_stored_receipts_def)
  qed
  have "map (\<lambda>(trailing, r). r\<lparr>rc_logs_bloom := vm_logs_bloom vm (rc_logs r)\<rparr>) rs
      = map (\<lambda>r. r\<lparr>rc_logs_bloom := vm_logs_bloom vm (rc_logs r)\<rparr>) (map snd rs)"
    by (simp add: case_prod_beta comp_def)
  also have "map snd rs = map receipt (receipts_from vm 0 outs)" using assms(3,4) by (simp add: r)
  finally have "decode_receipts_loop rlp (vm_logs_bloom vm) (stored_form en rs) (map (vm_ty vm \<circ> fst) outs) 0 = Inr (ex_receipts ex)"
    using decode_loop_stored [OF assms(2,5)] len receipts_from_bloom [of vm outs 0] r by simp
  then show ?thesis using h decode_loop_wrong_count [OF assms(2,5)] len by simp
qed

section \<open>Witnesses\<close>

definition xb_vm :: "(nat, unit, unit, unit) Vm" where
  "xb_vm = \<lparr>vm_system_call = (\<lambda>_ _. (Some (), ())),
     vm_transact = (\<lambda>_ tx. (if tx = 9 then None else Some (\<lparr>er_success = (tx \<noteq> 2), er_gas_used = 21000, er_logs = [()]\<rparr>, ()), ())),
     vm_poster_gas = (\<lambda>_. 7), vm_commit = (\<lambda>_ _. ()),
     vm_read_block_header_info = (\<lambda>_. Some default_header_info), vm_block_number = (\<lambda>_. 1), vm_set_l1_block_number = (\<lambda>_ _. ()),
     vm_ty = of_nat, vm_logs_bloom = (\<lambda>logs. [of_nat (length logs)])\<rparr>"

definition xb_ctx :: ArbBlockExecutionCtx where
  "xb_ctx = \<lparr>cx_parent_hash = [], cx_extra_data = [], cx_l1_base_fee_wei = 0, cx_l1_block_number = 0, cx_time_last_block = 0, cx_sequence_number = None,
     cx_poster = [], cx_delayed_messages_read = 0\<rparr>"

definition xb_run :: "(nat \<times> (unit, unit) ArbTxResult) list \<times> (unit, unit) ArbBlockExecutor" where
  "xb_run = execute_block xb_vm [0x6a, 9, 2] (create_executor xb_vm 1 () xb_ctx)"

definition xb_en :: "unit RlpEncoders" where
  "xb_en = \<lparr>en_list = (\<lambda>p. 1 # u64_to_be (of_nat (length p)) @ p), en_bytes = (\<lambda>b. u64_to_be (of_nat (length b)) @ b), en_u64 = u64_to_be,
     en_logs = (\<lambda>logs. replicate (length logs) 1 @ [0])\<rparr>"

definition xb_rlp :: "unit RlpDecoders" where
  "xb_rlp = \<lparr>rl_header = (\<lambda>buf. case buf of [] \<Rightarrow> None | b # rest \<Rightarrow> Some (b = 1, unat (u64_of_be (take 8 rest)), drop 8 rest)),
     rl_bytes = (\<lambda>buf. let n = unat (u64_of_be (take 8 buf)) in Some (take n (drop 8 buf), drop n (drop 8 buf))),
     rl_u64 = (\<lambda>buf. Some (u64_of_be (take 8 buf), drop 8 buf)),
     rl_logs = (\<lambda>buf. Some (replicate (length (takeWhile (\<lambda>b. b = 1) buf)) (), drop 1 (dropWhile (\<lambda>b. b = 1) buf)))\<rparr>"

lemma xb_codec: "codec_ok xb_rlp xb_en"
proof -
  have "takeWhile (\<lambda>b. b = 1) (replicate n 1 @ 0 # rest) = replicate n (1 :: byte)"
    and "dropWhile (\<lambda>b. b = 1) (replicate n 1 @ 0 # rest) = 0 # (rest :: bytes)" for n rest
    by (induction n) simp_all
  moreover have "replicate (length logs) () = logs" for logs by (simp add: list_eq_iff_nth_eq)
  ultimately show ?thesis
    by (simp add: codec_ok_def xb_rlp_def xb_en_def unat_of_nat Let_def)
qed

lemma xb_outs: "map fst (fst xb_run) = [0x6a, 2]" "map receipt (ex_receipts (snd xb_run)) =
   [\<lparr>rc_status = True, rc_cumulative_gas_used = 21000, rc_logs = [()], rc_gas_used_for_l1 = 7, rc_logs_bloom = [1]\<rparr>,
    \<lparr>rc_status = False, rc_cumulative_gas_used = 42000, rc_logs = [()], rc_gas_used_for_l1 = 7, rc_logs_bloom = [1]\<rparr>]"
  by (simp_all add: xb_run_def xb_vm_def create_executor_def execute_transaction_without_commit_def commit_transaction_def build_arb_receipt_def)

lemma xb_run_pair: "execute_block xb_vm [0x6a, 9, 2] (create_executor xb_vm 1 () xb_ctx) = (fst xb_run, snd xb_run)"
  by (simp add: xb_run_def)

theorem receipts_typed_witness:
  "length (ex_receipts (snd xb_run)) = 2 \<and> envelope_type (ex_receipts (snd xb_run) ! 0) = 0x6a \<and> envelope_type (ex_receipts (snd xb_run) ! 1) = 2"
proof -
  have l: "length (fst xb_run) = 2" "fst (fst xb_run ! 0) = 0x6a" "fst (fst xb_run ! 1) = 2"
    using xb_outs(1) by (auto simp: map_eq_Cons_conv)
  note t = receipts_typed [OF xb_run_pair]
  have "vm_ty xb_vm 0x6a = 0x6a" "vm_ty xb_vm 2 = 2" by (simp_all add: xb_vm_def)
  moreover have "(0x6a :: byte) \<in> tx_types_known" "(2 :: byte) \<in> tx_types_known" by (simp_all add: tx_types_known_def)
  ultimately show ?thesis using t l by simp
qed

theorem stored_receipts_match_execution_witness:
  "decode_stored_receipts xb_rlp (vm_logs_bloom xb_vm)
     (en_list xb_en (stored_form xb_en (zip [[], [3]] (map receipt (ex_receipts (snd xb_run)))))) [0x6a, 2] = Inr (ex_receipts (snd xb_run))"
proof -
  have l: "length [[], [3 :: byte]] = length (fst xb_run)" using arg_cong [OF xb_outs(1), of length] by simp
  have t: "map (vm_ty xb_vm \<circ> fst) (fst xb_run) = [0x6a, 2]"
    using arg_cong [OF xb_outs(1), of "map (vm_ty xb_vm)"] by (simp add: xb_vm_def)
  show ?thesis
    using stored_receipts_match_execution [OF xb_run_pair xb_codec l refl] t
    by (simp add: xb_outs(2) stored_body_def stored_form_def xb_en_def)
qed

end
