(* ===== verification/Evm_Config.thy ===== *)
theory Evm_Config
  imports Block_Executor
begin

text \<open>The EVM configuration, \<^verbatim>\<open>crates/arb-reth-evm/src/config.rs\<close>, with the block environment of \<^verbatim>\<open>env.rs\<close>, the chain
  context of \<^verbatim>\<open>lib.rs\<close> and the pending block of \<^verbatim>\<open>rpc.rs\<close>: what environment a block is produced in, and what environment
  its header gives when the block is replayed. The header codec of \<^verbatim>\<open>arbitrum-alloy\<close> and the choice of a specification for
  an ArbOS version are arguments.\<close>

section \<open>Environments\<close>




record ArbEvmConfig =
  ec_chain_id :: u64
  ec_max_code_size :: nat


definition with_max_code_size :: "ArbEvmConfig \<Rightarrow> nat \<Rightarrow> ArbEvmConfig" where
  "with_max_code_size cfg max_code_size = (if max_code_size \<noteq> 0 then cfg\<lparr>ec_max_code_size := max_code_size\<rparr> else cfg)"





















section \<open>Replaying a produced block\<close>





section \<open>Witness\<close>









end
