(* ===== verification/Rewind.thy ===== *)
theory Rewind
  imports Resume_Log
begin

text \<open>The rewind command, \<^verbatim>\<open>crates/arb-reth-node/src/commands/rewind.rs\<close>: the choice of the new tip, the refusal of a rewind
  after which the node could not resume, the migration of the changeset files, the unwind and the truncation of the resume
  log. The database of \<^verbatim>\<open>reth\<close>, of type \<open>'db\<close>, the parsing of the boot files and the order in which a directory is listed
  are arguments. Diagnostic log lines are left out.\<close>

section \<open>Arguments and refusals\<close>

record RewindArgs =
  ra_datadir :: path
  ra_snapshot_head :: "path option"
  ra_chain_info :: "path option"
  ra_genesis_json :: "path option"
  ra_to :: "u64 option"
  ra_diverged_at :: "u64 option"
  ra_dry_run :: bool
  ra_allow_genesis_rescan :: bool

datatype RewindError =
    DivergedAtZero
  | NoTarget
  | BootFilesError
  | NoBootFiles
  | NoDatabase
  | BelowGenesis u64 u64
  | NoResumeBoundary u64
  | MigrationError IoError
  | DatabaseError
  | ConsistencyError
  | NeedsPipelineUnwind u64
  | NotBelowTip u64 u64
  | NoChangesets u64 u64
  | ResumeLogError IoError
  | WrongFinalTip u64 u64

text \<open>What the command uses of the database and of the boot files.\<close>

record 'db RewindEnv =
  re_read_head_header :: "path \<Rightarrow> u64 option"
  re_orbit_genesis :: "path \<Rightarrow> path \<Rightarrow> u64 option"
  re_db_exists :: "path \<Rightarrow> bool"
  re_open :: "'db \<Rightarrow> 'db \<times> bool"
  re_check_consistency :: "'db \<Rightarrow> 'db \<times> (u64 option \<times> u64 option) option"
  re_last_block_number :: "'db \<Rightarrow> u64 option"
  re_account_changesets :: "'db \<Rightarrow> u64 \<Rightarrow> u64 \<Rightarrow> nat option"
  re_storage_changesets :: "'db \<Rightarrow> u64 \<Rightarrow> u64 \<Rightarrow> nat option"
  re_remove_above :: "u64 \<Rightarrow> 'db \<Rightarrow> 'db \<times> bool"
  re_read_dir :: "(string \<Rightarrow> bool) \<Rightarrow> string list"

definition rewind_target :: "RewindArgs \<Rightarrow> RewindError + u64" where
  "rewind_target args = (case (ra_to args, ra_diverged_at args) of
       (Some to, _) \<Rightarrow> Inr to
     | (None, Some n) \<Rightarrow> ok_or DivergedAtZero (checked_sub64 n 1)
     | (None, None) \<Rightarrow> Inl NoTarget)"

text \<open>The genesis block and whether the data directory was seeded from a snapshot.\<close>

definition boot_mode :: "'db RewindEnv \<Rightarrow> RewindArgs \<Rightarrow> RewindError + u64 \<times> bool" where
  "boot_mode env args = (case (ra_snapshot_head args, ra_chain_info args, ra_genesis_json args) of
       (Some head, _, _) \<Rightarrow> map_sum id (\<lambda>g. (g, True)) (ok_or BootFilesError (re_read_head_header env head))
     | (None, Some ci, Some g) \<Rightarrow> map_sum id (\<lambda>g. (g, False)) (ok_or BootFilesError (re_orbit_genesis env ci g))
     | (None, _, _) \<Rightarrow> Inl NoBootFiles)"

definition resume_checkpoint_for_rewind :: "L1ResumeLog option \<Rightarrow> u64 \<Rightarrow> u64 \<Rightarrow> bool \<Rightarrow> RewindError + L1ResumeCheckpoint option" where
  "resume_checkpoint_for_rewind log new_tip genesis_block allow_genesis_rescan =
     (let checkpoint = Option.bind log (\<lambda>log. resume_for log new_tip) in
      if checkpoint = None \<and> new_tip \<noteq> genesis_block \<and> \<not> allow_genesis_rescan then Inl (NoResumeBoundary new_tip)
      else Inr checkpoint)"

section \<open>Migration of the changeset files\<close>

text \<open>\<open>OpenOptions::new().write(true).truncate(true).open(p)\<close>: the file is emptied in place.\<close>

definition open_truncate :: "path \<Rightarrow> nat io" where
  "open_truncate p = attempt (\<lambda>_ dk. dk) (\<lambda>dk. case dk_names dk p of
       None \<Rightarrow> (dk, Inl NotFound)
     | Some i \<Rightarrow> (dk\<lparr>dk_data := (dk_data dk)(i := []), dk_synced := (dk_synced dk)(i := False)\<rparr>, Inr i))"

definition path_exists :: "path \<Rightarrow> disk \<Rightarrow> bool" where
  "path_exists p dk \<longleftrightarrow> dk_names dk p \<noteq> None"

definition read_dir :: "((string \<Rightarrow> bool) \<Rightarrow> string list) \<Rightarrow> path \<Rightarrow> string list io" where
  "read_dir listing d = attempt (\<lambda>_ dk. dk) (\<lambda>dk. (dk, Inr (listing (\<lambda>n. path_exists (path_join d n) dk))))"

definition u64_le :: "u64 \<Rightarrow> bytes" where
  "u64_le v = rev (u64_to_be v)"

definition rd :: "bytes \<Rightarrow> nat \<Rightarrow> u64" where
  "rd conf off = u64_of_be (rev (slice off (off + 8) conf))"

definition seg_prefix :: "string \<Rightarrow> string" where
  "seg_prefix seg = ''static_file_'' @ seg @ ''_''"

definition is_segment :: "string \<Rightarrow> string \<Rightarrow> bool" where
  "is_segment seg n \<longleftrightarrow> take (length (seg_prefix seg)) n = seg_prefix seg \<and> CHR ''.'' \<notin> set n"

definition mis_seeded :: "u64 \<Rightarrow> bytes \<Rightarrow> bool" where
  "mis_seeded genesis conf \<longleftrightarrow> 41 \<le> length conf \<and> rd conf 0 = 1 \<and> conf ! 24 = 1 \<and> rd conf 8 \<noteq> rd conf 25 \<and> rd conf 25 = genesis"

definition new_base :: "string \<Rightarrow> u64 \<Rightarrow> bytes \<Rightarrow> string" where
  "new_base seg target conf = seg_prefix seg @ dec (unat target) @ ''_'' @ dec (unat (rd conf 16))"

definition patch_conf :: "u64 \<Rightarrow> bytes \<Rightarrow> bytes" where
  "patch_conf target conf = take 8 conf @ u64_le target @ slice 16 25 conf @ u64_le target @ drop 33 conf"

definition EXTENSIONS :: "string list" where
  "EXTENSIONS = ['''', ''.conf'', ''.off'', ''.csoff'']"

fun rename_exts :: "path \<Rightarrow> string \<Rightarrow> string \<Rightarrow> string list \<Rightarrow> unit io" where
  "rename_exts sf a b [] dk = io_return () dk"
| "rename_exts sf a b (ext # exts) dk =
     (let src = path_join sf (a @ ext); dst = path_join sf (b @ ext) in
      if path_exists src dk \<and> src \<noteq> dst then io_bind (rename src dst) (\<lambda>_. rename_exts sf a b exts) dk
      else rename_exts sf a b exts dk)"

definition patch_file :: "path \<Rightarrow> u64 \<Rightarrow> unit io" where
  "patch_file p target = io_bind (read_file p) (\<lambda>new_conf.
     io_bind (open_truncate p) (\<lambda>f. io_bind (write_all f (patch_conf target new_conf)) (\<lambda>_. sync_all f)))"

definition migrate_segment :: "((string \<Rightarrow> bool) \<Rightarrow> string list) \<Rightarrow> path \<Rightarrow> u64 \<Rightarrow> string \<Rightarrow> unit io" where
  "migrate_segment listing sf genesis seg = io_bind (read_dir listing sf) (\<lambda>names.
     case find (is_segment seg) names of
       None \<Rightarrow> io_return ()
     | Some data_name \<Rightarrow> io_bind (read_file (path_join sf (data_name @ ''.conf''))) (\<lambda>conf.
         if mis_seeded genesis conf then
           let base = new_base seg (genesis + 1) conf in
           io_bind (rename_exts sf data_name base EXTENSIONS) (\<lambda>_. patch_file (path_join sf (base @ ''.conf'')) (genesis + 1))
         else io_return ()))"

definition migrate_changeset_layout :: "((string \<Rightarrow> bool) \<Rightarrow> string list) \<Rightarrow> path \<Rightarrow> u64 \<Rightarrow> unit io" where
  "migrate_changeset_layout listing sf genesis =
     io_bind (migrate_segment listing sf genesis ''account-change-sets'') (\<lambda>_. migrate_segment listing sf genesis ''storage-change-sets'')"

section \<open>The command\<close>

definition truncate_log :: "resume_json \<Rightarrow> path \<Rightarrow> nat \<Rightarrow> nat \<Rightarrow> L1ResumeLog option \<Rightarrow> u64 \<Rightarrow> unit io" where
  "truncate_log js log_path pid stamp log new_tip dk = (case log of
       None \<Rightarrow> (dk, Inr ())
     | Some log \<Rightarrow> (let log = fst (truncate_to log new_tip) in
         if checkpoints log = [] then (fst (remove_file log_path dk), Inr ()) else save js log log_path pid stamp dk))"

text \<open>The checks of the opened database.\<close>

definition check_target :: "'db RewindEnv \<Rightarrow> u64 \<Rightarrow> 'db \<Rightarrow> 'db \<times> (RewindError + u64)" where
  "check_target env new_tip db = (case re_open env db of
       (db, False) \<Rightarrow> (db, Inl DatabaseError)
     | (db, True) \<Rightarrow> (case re_check_consistency env db of
         (db, None) \<Rightarrow> (db, Inl ConsistencyError)
       | (db, Some (Some a, Some b)) \<Rightarrow> (db, Inl (NeedsPipelineUnwind (min a b)))
       | (db, Some (Some a, None)) \<Rightarrow> (db, Inl (NeedsPipelineUnwind a))
       | (db, Some (None, Some b)) \<Rightarrow> (db, Inl (NeedsPipelineUnwind b))
       | (db, Some (None, None)) \<Rightarrow> (db,
           rbind (ok_or DatabaseError (re_last_block_number env db)) (\<lambda>current_tip.
           if current_tip \<le> new_tip then Inl (NotBelowTip new_tip current_tip)
           else rbind (ok_or DatabaseError (re_account_changesets env db (new_tip + 1) current_tip)) (\<lambda>accts.
             rbind (ok_or DatabaseError (re_storage_changesets env db (new_tip + 1) current_tip)) (\<lambda>_.
             if accts = 0 then Inl (NoChangesets new_tip current_tip) else Inr current_tip))))))"

definition unwind :: "'db RewindEnv \<Rightarrow> resume_json \<Rightarrow> path \<Rightarrow> nat \<Rightarrow> nat \<Rightarrow> L1ResumeLog option \<Rightarrow> u64 \<Rightarrow> 'db \<times> disk
    \<Rightarrow> ('db \<times> disk) \<times> (RewindError + unit)" where
  "unwind env js log_path pid stamp log new_tip = (\<lambda>(db, dk). case re_remove_above env new_tip db of
       (db, False) \<Rightarrow> ((db, dk), Inl DatabaseError)
     | (db, True) \<Rightarrow> (case truncate_log js log_path pid stamp log new_tip dk of
         (dk, Inl e) \<Rightarrow> ((db, dk), Inl (ResumeLogError e))
       | (dk, Inr _) \<Rightarrow> ((db, dk), rbind (ok_or DatabaseError (re_last_block_number env db)) (\<lambda>final_tip.
           if final_tip \<noteq> new_tip then Inl (WrongFinalTip final_tip new_tip) else Inr ()))))"

definition preflight :: "'db RewindEnv \<Rightarrow> resume_json \<Rightarrow> RewindArgs \<Rightarrow> disk \<Rightarrow> RewindError + u64 \<times> u64 \<times> bool \<times> L1ResumeLog option" where
  "preflight env js args dk =
     rbind (rewind_target args) (\<lambda>new_tip.
     rbind (boot_mode env args) (\<lambda>(genesis_num, snapshot_seeded).
     if \<not> re_db_exists env (path_join (ra_datadir args) ''db'') then Inl NoDatabase
     else if new_tip < genesis_num then Inl (BelowGenesis new_tip genesis_num)
     else let log = load js (path_in (ra_datadir args)) dk in
       rbind (resume_checkpoint_for_rewind log new_tip genesis_num (ra_allow_genesis_rescan args)) (\<lambda>surviving.
       Inr (new_tip, genesis_num, snapshot_seeded, log))))"

definition run_rewind :: "'db RewindEnv \<Rightarrow> resume_json \<Rightarrow> nat \<Rightarrow> nat \<Rightarrow> RewindArgs \<Rightarrow> 'db \<times> disk \<Rightarrow> ('db \<times> disk) \<times> (RewindError + unit)" where
  "run_rewind env js pid stamp args = (\<lambda>(db, dk). case preflight env js args dk of
       Inl e \<Rightarrow> ((db, dk), Inl e)
     | Inr (new_tip, genesis_num, snapshot_seeded, log) \<Rightarrow>
         (case (if snapshot_seeded then migrate_changeset_layout (re_read_dir env) (path_join (ra_datadir args) ''static_files'') genesis_num dk
                else (dk, Inr ())) of
            (dk, Inl e) \<Rightarrow> ((db, dk), Inl (MigrationError e))
          | (dk, Inr _) \<Rightarrow> (case check_target env new_tip db of
              (db, Inl e) \<Rightarrow> ((db, dk), Inl e)
            | (db, Inr current_tip) \<Rightarrow>
                if ra_dry_run args then ((db, dk), Inr ())
                else unwind env js (path_in (ra_datadir args)) pid stamp log new_tip (db, dk))))"

section \<open>The migration leaves other files alone\<close>

text \<open>A file that is in order and that no other name refers to.\<close>

definition apart :: "path \<Rightarrow> nat \<Rightarrow> disk \<Rightarrow> bool" where
  "apart p i dk \<longleftrightarrow> dk_names dk p \<noteq> Some i \<and> dk_durable dk p \<noteq> Some i"

definition alone :: "path \<Rightarrow> disk \<Rightarrow> bool" where
  "alone p dk \<longleftrightarrow> (\<forall>q i. q \<noteq> p \<longrightarrow> dk_names dk q = Some i \<longrightarrow> apart p i dk)"

definition kept :: "bytes option set \<Rightarrow> path \<Rightarrow> disk \<Rightarrow> bool" where
  "kept C p dk \<longleftrightarrow> guarded C p dk \<and> alone p dk"

lemmas kept_defs = kept_def alone_def apart_def guarded_def entry_ok_def secure_def

lemma kept_sched [simp]: "kept C p (dk\<lparr>dk_sched := s\<rparr>) = kept C p dk" "apart p i (dk\<lparr>dk_sched := s\<rparr>) = apart p i dk"
  by (auto simp: kept_defs split: option.splits)

lemma kept_read [simp]:
  "meets (kept C p) (read_file q) (\<lambda>_. kept C p) (kept C p)" "meets (kept C p) (read_dir listing d) (\<lambda>_. kept C p) (kept C p)"
  unfolding read_file_def read_dir_def by (rule meets_attempt; simp add: meets_def split: option.splits)+

lemma kept_rename [simp]: "a \<noteq> p \<Longrightarrow> b \<noteq> p \<Longrightarrow> meets (kept C p) (rename a b) (\<lambda>_. kept C p) (kept C p)"
  unfolding rename_def by (rule meets_attempt) (auto simp: meets_def kept_defs split: option.splits)

lemma kept_open_truncate: "q \<noteq> p \<Longrightarrow> meets (kept C p) (open_truncate q) (\<lambda>i dk. kept C p dk \<and> apart p i dk) (kept C p)"
  unfolding open_truncate_def by (rule meets_attempt) (auto simp: meets_def kept_defs split: option.splits)

lemma kept_write_all: "meets (\<lambda>dk. kept C p dk \<and> apart p i dk) (write_all i bs) (\<lambda>_ dk. kept C p dk \<and> apart p i dk) (kept C p)"
  unfolding write_all_def by (rule meets_attempt) (auto simp: meets_def kept_defs put_bytes_def split: option.splits)

lemma kept_sync_all: "meets (\<lambda>dk. kept C p dk \<and> apart p i dk) (sync_all i) (\<lambda>_. kept C p) (kept C p)"
  unfolding sync_all_def by (rule meets_attempt) (auto simp: meets_def kept_defs split: option.splits)

lemma kept_return [simp]: "meets P (io_return x) (\<lambda>_. P) P"
  by (simp add: meets_def io_return_def)

lemma kept_rename_exts: "(\<And>n. path_join sf n \<noteq> p) \<Longrightarrow> meets (kept C p) (rename_exts sf a b exts) (\<lambda>_. kept C p) (kept C p)"
proof (induction exts)
  case (Cons ext exts)
  let ?r = "rename (path_join sf (a @ ext)) (path_join sf (b @ ext))"
  have "meets (kept C p) (io_bind ?r (\<lambda>_. rename_exts sf a b exts)) (\<lambda>_. kept C p) (kept C p)"
    by (rule meets_bind [OF kept_rename]) (use Cons in auto)
  then show ?case using Cons by (auto simp: meets_def Let_def)
qed (simp add: meets_def io_return_def)

lemma kept_patch_file: "q \<noteq> p \<Longrightarrow> meets (kept C p) (patch_file q target) (\<lambda>_. kept C p) (kept C p)"
  unfolding patch_file_def
  by (intro meets_bind [OF kept_read(1)] meets_bind [OF kept_open_truncate] meets_bind [OF kept_write_all] kept_sync_all)

lemma kept_migrate_segment:
  assumes "\<And>n. path_join sf n \<noteq> p"
  shows "meets (kept C p) (migrate_segment listing sf genesis seg) (\<lambda>_. kept C p) (kept C p)"
proof -
  have "meets (kept C p) (io_bind (rename_exts sf a b exts) (\<lambda>_. patch_file (path_join sf q) target)) (\<lambda>_. kept C p) (kept C p)" for a b exts q target
    by (rule meets_bind [OF kept_rename_exts [OF assms]]) (rule kept_patch_file [OF assms])
  then show ?thesis
    unfolding migrate_segment_def Let_def
    by (intro meets_bind [OF kept_read(2)]) (auto split: option.splits intro!: meets_bind [OF kept_read(1)])
qed

lemma kept_migrate:
  assumes "\<And>n. path_join sf n \<noteq> p" and "kept C p dk"
  shows "kept C p (fst (migrate_changeset_layout listing sf genesis dk))"
proof -
  have "meets (kept C p) (migrate_changeset_layout listing sf genesis) (\<lambda>_. kept C p) (kept C p)"
    unfolding migrate_changeset_layout_def by (rule meets_bind [OF kept_migrate_segment kept_migrate_segment]) (rule assms(1))+
  from meets_keeps [OF this assms(2)] show ?thesis .
qed

lemma static_file_neq: "path_join (path_join d ''static_files'') n \<noteq> path_in d"
  by (simp add: path_join_def path_in_def)

section \<open>A rewound node can resume\<close>

definition resume_at :: "resume_json \<Rightarrow> path \<Rightarrow> disk \<Rightarrow> u64 \<Rightarrow> L1ResumeCheckpoint option" where
  "resume_at js p dk t = Option.bind (load js p dk) (\<lambda>log. resume_for log t)"

lemma resume_truncated: "t \<le> tip \<Longrightarrow> resume_for (fst (truncate_to log tip)) t = resume_for log t"
proof -
  assume t: "t \<le> tip"
  have "find P (rev (filter Q xs)) = find P (rev xs)" if "\<And>x. P x \<Longrightarrow> Q x" for P Q and xs :: "L1ResumeCheckpoint list"
    using that by (induction xs rule: rev_induct) auto
  then show ?thesis using t by (auto simp: truncate_to_def resume_for_def Let_def)
qed

lemma load_cases: "load js p dk = None \<or> load js p dk = parse_content js (content dk p)"
  by (auto simp: load_def read_file_def attempt_def parse_content_def content_def split: option.splits list.splits outcome.splits)

text \<open>What the log file can hold after the command: what it held, or the truncated log.\<close>

definition outcomes :: "resume_json \<Rightarrow> bytes option \<Rightarrow> L1ResumeLog option \<Rightarrow> u64 \<Rightarrow> bytes option set" where
  "outcomes js old log tip = insert old (case log of None \<Rightarrow> {}
     | Some l \<Rightarrow> {if checkpoints (fst (truncate_to l tip)) = [] then None else Some (rj_to_vec js (fst (truncate_to l tip)) @ [10])})"

lemma parse_content_simps [simp]: "parse_content js None = None" "rj_log js bs = Inr l \<Longrightarrow> parse_content js (Some bs) = Some l"
  by (simp_all add: parse_content_def)

lemma outcomes_resume:
  assumes "\<And>l. rj_log js (rj_to_vec js l @ [10]) = Inr l" and "log = None \<or> log = parse_content js old"
    and "c \<in> outcomes js old log tip" and "t \<le> tip"
  shows "Option.bind (parse_content js c) (\<lambda>l. resume_for l t) = Option.bind (parse_content js old) (\<lambda>l. resume_for l t)"
proof (cases "c = old")
  case False
  then obtain l where l: "log = Some l" "parse_content js old = Some l"
    using assms(2,3) by (auto simp: outcomes_def split: option.splits)
  show ?thesis
  proof (cases "checkpoints (fst (truncate_to l tip)) = []")
    case True
    then have "c = None" using assms(3) False l by (simp add: outcomes_def)
    moreover have "resume_for l t = None"
      using resume_truncated [OF assms(4), of l] True by (simp add: resume_for_def)
    ultimately show ?thesis by (simp add: l)
  next
    case False
    then have "c = Some (rj_to_vec js (fst (truncate_to l tip)) @ [10])" using assms(3) \<open>c \<noteq> old\<close> l by (simp add: outcomes_def)
    then show ?thesis using assms(1) resume_truncated [OF assms(4)] by (simp add: l)
  qed
qed simp

lemma remove_file_guarded: "guarded C p dk \<Longrightarrow> None \<in> C \<Longrightarrow> guarded C p (fst (remove_file p dk))"
  unfolding remove_file_def attempt_def
  by (auto simp: guarded_def entry_ok_def split: option.splits list.splits outcome.splits)

lemma truncate_log_guarded:
  assumes "guarded (outcomes js old log tip) p dk"
  shows "guarded (outcomes js old log tip) p (fst (truncate_log js p pid stamp log tip dk))"
proof (cases log)
  case None
  then show ?thesis using assms by (simp add: truncate_log_def)
next
  case (Some l)
  then show ?thesis
    using assms by (auto simp: truncate_log_def Let_def outcomes_def intro!: remove_file_guarded save_guarded)
qed

text \<open>Everything the command does to the resume log, on every path.\<close>

lemma run_rewind_cases:
  assumes "run_rewind env js pid stamp args (db, dk) = ((db', dk'), result)"
    and "guarded {content dk p} p dk" and "alone p dk" and p: "p = path_in (ra_datadir args)"
  obtains (refused) e where "preflight env js args dk = Inl e" "result = Inl e" "db' = db" "dk' = dk"
  | (stopped) new_tip genesis seeded log where "preflight env js args dk = Inr (new_tip, genesis, seeded, log)"
      "guarded {content dk p} p dk'" "result = Inr () \<Longrightarrow> ra_dry_run args"
  | (unwound) new_tip genesis seeded log db\<^sub>1 current dk\<^sub>1 where "preflight env js args dk = Inr (new_tip, genesis, seeded, log)"
      "guarded {content dk p} p dk\<^sub>1" "check_target env new_tip db = (db\<^sub>1, Inr current)" "\<not> ra_dry_run args"
      "unwind env js p pid stamp log new_tip (db\<^sub>1, dk\<^sub>1) = ((db', dk'), result)"
proof (cases "preflight env js args dk")
  case (Inl e)
  then show ?thesis using assms(1) by (intro refused) (auto simp: run_rewind_def)
next
  case (Inr x)
  obtain new_tip genesis seeded log where x: "x = (new_tip, genesis, seeded, log)" by (cases x)
  let ?m = "if seeded then migrate_changeset_layout (re_read_dir env) (path_join (ra_datadir args) ''static_files'') genesis dk else (dk, Inr ())"
  obtain dk\<^sub>1 m where m: "?m = (dk\<^sub>1, m)" by (cases ?m)
  have "kept {content dk p} p (fst ?m)"
    using assms(2,3) kept_migrate [OF static_file_neq, of "{content dk p}" "ra_datadir args" dk "re_read_dir env" genesis] by (simp add: kept_def p)
  then have g: "guarded {content dk p} p dk\<^sub>1" by (simp add: m kept_def)
  note run = assms(1) [unfolded run_rewind_def, simplified, unfolded Inr x, simplified, unfolded m, simplified]
  show ?thesis
  proof (cases m)
    case (Inl e)
    then show ?thesis using run g Inr x by (intro stopped) auto
  next
    case (Inr u)
    obtain db\<^sub>1 r where c: "check_target env new_tip db = (db\<^sub>1, r)" by (cases "check_target env new_tip db")
    show ?thesis
    proof (cases "isl r \<or> ra_dry_run args")
      case True
      then show ?thesis using run g \<open>preflight env js args dk = Inr x\<close> x Inr c by (intro stopped) (auto split: sum.splits)
    next
      case False
      then obtain current where r: "r = Inr current" by (cases r) auto
      show ?thesis
        by (rule unwound [OF _ g c [unfolded r]]) (use False run Inr \<open>preflight env js args dk = Inr x\<close> x c r p in simp_all)
    qed
  qed
qed

lemma crashed_resume:
  "resume_at js p (crash keep junk dk) t = Option.bind (parse_content js (content (crash keep junk dk) p)) (\<lambda>l. resume_for l t)"
  by (simp add: resume_at_def load_crashed)

lemma preflight_Inr:
  assumes "preflight env js args dk = Inr (new_tip, genesis, seeded, log)"
  shows "rewind_target args = Inr new_tip" "boot_mode env args = Inr (genesis, seeded)" "genesis \<le> new_tip"
    "log = load js (path_in (ra_datadir args)) dk"
    "Option.bind log (\<lambda>l. resume_for l new_tip) \<noteq> None \<or> new_tip = genesis \<or> ra_allow_genesis_rescan args"
  using assms unfolding preflight_def resume_checkpoint_for_rewind_def
  by (auto simp: rbind_def Let_def not_less split: sum.splits if_splits prod.splits)

lemma run_rewind_guarded:
  assumes "run_rewind env js pid stamp args (db, dk) = ((db', dk'), result)" and "settled p dk" and "alone p dk"
    and p: "p = path_in (ra_datadir args)" and t: "rewind_target args = Inr new_tip"
  shows "guarded (outcomes js (content dk p) (load js p dk) new_tip) p dk'"
proof -
  have g: "guarded {content dk p} p dk" using assms(2) by (simp add: guarded_start)
  have m: "guarded {content dk p} p d \<Longrightarrow> guarded (outcomes js (content dk p) (load js p dk) new_tip) p d" for d
    by (erule guarded_mono) (simp add: outcomes_def)
  from assms(1) g assms(3) p show ?thesis
  proof (cases rule: run_rewind_cases)
    case (unwound tip genesis seeded log db\<^sub>1 current dk\<^sub>1)
    then have tip: "tip = new_tip" "log = load js p dk" using preflight_Inr [OF unwound(1)] t p by auto
    have "dk' = dk\<^sub>1 \<or> dk' = fst (truncate_log js p pid stamp (load js p dk) new_tip dk\<^sub>1)"
      using unwound(5) by (auto simp: unwind_def tip split: prod.splits bool.splits sum.splits)
    then show ?thesis using m [OF unwound(2)] truncate_log_guarded by auto
  qed (use m g in auto)
qed

lemma quiet_resume: "resume_at js p (dk\<lparr>dk_sched := []\<rparr>) t = Option.bind (parse_content js (content dk p)) (\<lambda>l. resume_for l t)"
  by (simp add: resume_at_def load_def read_file_def attempt_def parse_content_def content_def split: option.splits)

lemma truncate_log_placed:
  assumes "truncate_log js p pid stamp (Some log) tip dk = (dk', Inr ())" and "path_parent p = Some d" and "guarded {c} p dk"
    and "resume_for log tip = Some cp"
  shows "durably_placed (rj_to_vec js (fst (truncate_to log tip)) @ [10]) p dk'" "c \<noteq> None \<Longrightarrow> secure p dk'"
proof -
  have "resume_for (fst (truncate_to log tip)) tip = Some cp" using assms(4) by (simp add: resume_truncated)
  then have "checkpoints (fst (truncate_to log tip)) \<noteq> []" by (auto simp: resume_for_def)
  then have s: "save js (fst (truncate_to log tip)) p pid stamp dk = (dk', Inr ())" using assms(1) by (simp add: truncate_log_def Let_def)
  let ?new = "Some (rj_to_vec js (fst (truncate_to log tip)) @ [10])"
  have "guarded {c, ?new} p dk" using assms(3) by (rule guarded_mono) simp
  with save_meets [OF assms(2), of js "fst (truncate_to log tip)" "{c, ?new}" pid stamp] s
  show "durably_placed (rj_to_vec js (fst (truncate_to log tip)) @ [10]) p dk'" by (fastforce simp: meets_def)
  assume "c \<noteq> None"
  then show "secure p dk'" using keeps_secureD [OF save_keeps_secure s] assms(3) by (auto simp: guarded_def)
qed

lemma run_rewind_ok:
  assumes "run_rewind env js pid stamp args (db, dk) = ((db', dk'), Inr ())" and "settled p dk" and "alone p dk"
    and p: "p = path_in (ra_datadir args)" and "\<not> ra_dry_run args" and t: "rewind_target args = Inr new_tip"
  shows "re_last_block_number env db' = Some new_tip" "\<exists>genesis seeded. boot_mode env args = Inr (genesis, seeded) \<and> genesis \<le> new_tip"
    "load js p dk = Some log \<Longrightarrow> resume_for log new_tip = Some cp
      \<Longrightarrow> durably_placed (rj_to_vec js (fst (truncate_to log new_tip)) @ [10]) p dk' \<and> secure p dk'"
proof -
  obtain genesis seeded lg db\<^sub>1 dk\<^sub>1 where u: "preflight env js args dk = Inr (new_tip, genesis, seeded, lg)" "guarded {content dk p} p dk\<^sub>1"
      "unwind env js p pid stamp lg new_tip (db\<^sub>1, dk\<^sub>1) = ((db', dk'), Inr ())"
    using assms(1) guarded_start [OF assms(2), of "{content dk p}", simplified] assms(3) p
  proof (cases rule: run_rewind_cases)
    case (unwound tip genesis seeded log db\<^sub>1 current dk\<^sub>1)
    then show ?thesis using preflight_Inr(1) [OF unwound(1)] t by (intro that) auto
  qed (use assms(5) in auto)
  note pre = preflight_Inr [OF u(1)]
  have trunc: "truncate_log js p pid stamp lg new_tip dk\<^sub>1 = (dk', Inr ())" and "re_last_block_number env db' = Some new_tip"
    using u(3) by (auto simp: unwind_def rbind_def ok_or_def split: prod.splits bool.splits sum.splits option.splits if_splits)
  then show "re_last_block_number env db' = Some new_tip" by simp
  show "\<exists>genesis seeded. boot_mode env args = Inr (genesis, seeded) \<and> genesis \<le> new_tip" using pre(2,3) by blast
  assume l: "load js p dk = Some log" "resume_for log new_tip = Some cp"
  then have t: "truncate_log js p pid stamp (Some log) new_tip dk\<^sub>1 = (dk', Inr ())" using trunc pre(4) p by simp
  obtain d where d: "path_parent p = Some d" using p by (simp add: path_in_def path_join_def path_parent_def)
  have "content dk p \<noteq> None"
    using l(1) by (auto simp: load_def read_file_def attempt_def content_def split: list.splits outcome.splits option.splits sum.splits)
  with truncate_log_placed [OF t d u(2) l(2)]
  show "durably_placed (rj_to_vec js (fst (truncate_to log new_tip)) @ [10]) p dk' \<and> secure p dk'" by blast
qed

text \<open>C25: A rewind never costs the node its place. Whatever happens during the command - a refusal, an input or output
  fault, a power loss at any moment - the resume boundary for every block up to the new tip, as read after a crash, is the
  one there was before. Without a boundary at or below the new tip, and without leave to rescan, a tip other than genesis
  is refused with the database and the disk untouched; and when the command succeeds, the database ends at the new tip,
  which is not below genesis, with the boundaries above it gone from the log.\<close>

theorem rewind_recoverable:
  assumes "run_rewind env js pid stamp args (db, dk) = ((db', dk'), result)" and "settled p dk" and "alone p dk"
    and "p = path_in (ra_datadir args)" and "rewind_target args = Inr new_tip"
    and "\<And>l. rj_log js (rj_to_vec js l @ [10]) = Inr l"
  shows "(\<forall>t. t \<le> new_tip \<longrightarrow> resume_at js p (crash keep junk dk') t = resume_at js p (dk\<lparr>dk_sched := []\<rparr>) t)
    \<and> (\<forall>genesis seeded. boot_mode env args = Inr (genesis, seeded) \<longrightarrow> new_tip \<noteq> genesis \<longrightarrow> \<not> ra_allow_genesis_rescan args
        \<longrightarrow> resume_at js p (dk\<lparr>dk_sched := []\<rparr>) new_tip = None \<longrightarrow> isl result \<and> db' = db \<and> dk' = dk)
    \<and> (result = Inr () \<longrightarrow> \<not> ra_dry_run args \<longrightarrow> re_last_block_number env db' = Some new_tip
        \<and> (\<exists>genesis seeded. boot_mode env args = Inr (genesis, seeded) \<and> genesis \<le> new_tip)
        \<and> (\<forall>log cp. load js p dk = Some log \<longrightarrow> resume_for log new_tip = Some cp
            \<longrightarrow> load js p (crash keep junk dk') = Some (fst (truncate_to log new_tip))))"
proof (intro conjI allI impI)
  fix t assume "t \<le> new_tip"
  with outcomes_resume [OF assms(6) load_cases crash_guarded [OF run_rewind_guarded [OF assms(1-5)]]]
  show "resume_at js p (crash keep junk dk') t = resume_at js p (dk\<lparr>dk_sched := []\<rparr>) t"
    by (simp add: crashed_resume quiet_resume)
next
  fix genesis seeded assume b: "boot_mode env args = Inr (genesis, seeded)" "new_tip \<noteq> genesis" "\<not> ra_allow_genesis_rescan args"
    "resume_at js p (dk\<lparr>dk_sched := []\<rparr>) new_tip = None"
  have "isl (preflight env js args dk)"
  proof (rule ccontr)
    assume "\<not> isl (preflight env js args dk)"
    then obtain tip g s log where "preflight env js args dk = Inr (tip, g, s, log)" by (cases "preflight env js args dk") auto
    from preflight_Inr [OF this] b assms(4,5) load_cases [of js p dk] show False by (auto simp: quiet_resume)
  qed
  then have "isl result \<and> db' = db \<and> dk' = dk" using assms(1) by (auto simp: run_rewind_def isl_def)
  then show "isl result" "db' = db" "dk' = dk" by auto
next
  assume "result = Inr ()" "\<not> ra_dry_run args"
  with assms(1) have run: "run_rewind env js pid stamp args (db, dk) = ((db', dk'), Inr ())" and "\<not> ra_dry_run args" by simp_all
  note ok = run_rewind_ok [OF run assms(2-4) this(2) assms(5)]
  show "re_last_block_number env db' = Some new_tip" "\<exists>genesis seeded. boot_mode env args = Inr (genesis, seeded) \<and> genesis \<le> new_tip"
    using ok(1,2) by auto
  fix log cp assume "load js p dk = Some log" "resume_for log new_tip = Some cp"
  from ok(3) [OF this] show "load js p (crash keep junk dk') = Some (fst (truncate_to log new_tip))"
    using assms(6) crash_durable by (auto simp: load_crashed parse_content_def)
qed

section \<open>An interrupted migration\<close>

lemma path_exists_sched [simp]: "path_exists p (dk\<lparr>dk_sched := s\<rparr>) = path_exists p dk"
  by (simp add: path_exists_def)

lemma dec_no_dot: "CHR ''.'' \<notin> set (dec n)"
proof -
  have d: "48 \<le> (of_char (char_of (48 + d) :: char) :: nat)" if "d < 10" for d :: nat using that by simp
  have "\<forall>c \<in> set (dec n). 48 \<le> (of_char c :: nat)"
  proof (induction n rule: dec.induct)
    case (1 n)
    then show ?case using d [of n] d [of "n mod 10"] by (subst dec.simps) simp
  qed
  then show ?thesis by fastforce
qed

lemma new_base_segment: "CHR ''.'' \<notin> set seg \<Longrightarrow> is_segment seg (new_base seg target conf)"
  by (simp add: is_segment_def new_base_def seg_prefix_def dec_no_dot)

lemma find_unique:
  assumes "n \<in> set names" and "P n" and "\<And>m. m \<in> set names \<Longrightarrow> P m \<Longrightarrow> m = n"
  shows "find P names = Some n"
proof -
  obtain x where "find P names = Some x" using assms(1,2) by (cases "find P names") (auto simp: find_None_iff)
  moreover from this have "x \<in> set names" "P x" by (auto simp: find_Some_iff)
  ultimately show ?thesis using assms(3) by blast
qed

text \<open>C40: An interruption between the first two renames of the migration is not recovered. The data file of a mis-seeded
  segment is renamed before its configuration file; when power is lost in between and the first rename has reached the
  disk, every later run finds the data file under its new name, looks for a configuration of that name, and fails without
  changing anything.\<close>

theorem interrupted_migration_stuck:
  assumes "mis_seeded genesis conf" and base: "base = new_base ''account-change-sets'' (genesis + 1) conf" and "n \<noteq> base"
    and seg: "is_segment ''account-change-sets'' n"
    and unique: "\<And>m. path_exists (path_join sf m) dk \<Longrightarrow> is_segment ''account-change-sets'' m \<Longrightarrow> m = n"
    and "dk_names dk (path_join sf n) = Some i" and "dk_names dk (path_join sf (n @ ''.conf'')) = Some j" and "dk_data dk j = conf"
    and "dk_names dk (path_join sf (base @ ''.conf'')) = None" and dirs: "list_all (dk_dirs dk) (dirs_above (path_join sf n))"
    and listing: "\<And>P. (\<And>m. P m \<Longrightarrow> m = base \<or> path_exists (path_join sf m) dk) \<Longrightarrow> set (listing P) = {m. P m}"
    and "dk_sched dk = [Done, Done, Done, PowerLoss]"
    and run: "migrate_changeset_layout listing sf genesis dk = (dk', result)" and after: "dk\<^sub>2 = crash (\<lambda>_. True) junk dk'"
  shows "result = Inl PowerLost \<and> migrate_changeset_layout listing sf genesis dk\<^sub>2 = (dk\<^sub>2, Inl NotFound)"
proof -
  let ?seg = "''account-change-sets''"
  have "set (listing (\<lambda>n. path_exists (path_join sf n) dk)) = {m. path_exists (path_join sf m) dk}" by (rule listing) simp
  then have f: "find (is_segment ?seg) (listing (\<lambda>n. path_exists (path_join sf n) dk)) = Some n"
    by (intro find_unique seg) (use assms(6) unique in \<open>auto simp: path_exists_def\<close>)
  have sf: "dir_exists dk sf" using dirs by (auto simp: dir_exists_def path_join_def dirs_above_snoc split: if_splits)
  have reach: "reachable (\<lambda>_. True) x (path_join sf m)" if "dk_dirs x = dk_dirs dk" for x m
    using dirs that by (auto simp: reachable_def dir_kept_def path_join_def dirs_above_snoc list_all_iff)
  let ?dk' = "dk\<lparr>dk_sched := [PowerLoss], dk_names := (dk_names dk)(path_join sf n := None, path_join sf base \<mapsto> i)\<rparr>"
  have "migrate_changeset_layout listing sf genesis dk = (?dk', Inl PowerLost)"
    using assms(1,3,6-9) \<open>dk_sched dk = [Done, Done, Done, PowerLoss]\<close> f sf
    by (simp add: migrate_changeset_layout_def migrate_segment_def io_bind_def read_dir_def read_file_def attempt_def Let_def base [symmetric]
        EXTENSIONS_def rename_def path_exists_def path_join_def dir_exists_def)
  with run have res: "result = Inl PowerLost" and dk': "dk' = ?dk'" by simp_all
  have P: "path_exists (path_join sf m) dk\<^sub>2 \<longleftrightarrow> m = base \<or> m \<noteq> n \<and> path_exists (path_join sf m) dk" for m
    using \<open>n \<noteq> base\<close> reach [of dk' m] by (auto simp: after dk' crash_def crash_entry_def path_exists_def path_join_def)
  have "set (listing (\<lambda>n. path_exists (path_join sf n) dk\<^sub>2)) = {m. path_exists (path_join sf m) dk\<^sub>2}" by (rule listing) (auto simp: P)
  moreover have "is_segment ?seg base" unfolding base by (rule new_base_segment) simp
  ultimately have f2: "find (is_segment ?seg) (listing (\<lambda>n. path_exists (path_join sf n) dk\<^sub>2)) = Some base"
    by (intro find_unique) (use unique in \<open>auto simp: P\<close>)
  have "migrate_changeset_layout listing sf genesis dk\<^sub>2 = (dk\<^sub>2, Inl NotFound)"
    using f2 assms(9)
    by (simp add: migrate_changeset_layout_def migrate_segment_def io_bind_def read_dir_def read_file_def attempt_def after dk' crash_def
        crash_entry_def path_join_def)
  with res show ?thesis by simp
qed

section \<open>Witnesses\<close>

definition xr_log :: L1ResumeLog where
  "xr_log = \<lparr>checkpoints = [wit_cp 3 20, wit_cp 5 40]\<rparr>"

definition xr_args :: RewindArgs where
  "xr_args = \<lparr>ra_datadir = [], ra_snapshot_head = None, ra_chain_info = Some [''ci''], ra_genesis_json = Some [''g''],
     ra_to = None, ra_diverged_at = Some 31, ra_dry_run = False, ra_allow_genesis_rescan = False\<rparr>"

definition xr_env :: "u64 RewindEnv" where
  "xr_env = \<lparr>re_read_head_header = (\<lambda>_. None), re_orbit_genesis = (\<lambda>_ _. Some 0), re_db_exists = (\<lambda>_. True), re_open = (\<lambda>db. (db, True)),
     re_check_consistency = (\<lambda>db. (db, Some (None, None))), re_last_block_number = Some, re_account_changesets = (\<lambda>_ _ _. Some 4),
     re_storage_changesets = (\<lambda>_ _ _. Some 0), re_remove_above = (\<lambda>t _. (t, True)), re_read_dir = (\<lambda>_. [])\<rparr>"

definition xr_disk :: disk where
  "xr_disk = \<lparr>dk_names = [path_in [] \<mapsto> 0], dk_durable = [path_in [] \<mapsto> 0],
     dk_data = (\<lambda>_. rj_to_vec wit_json xr_log @ [10]), dk_synced = (\<lambda>_. True), dk_next = 1, dk_dirs = \<lambda>_. True, dk_durable_dirs = \<lambda>_. True, dk_sched = []\<rparr>"

definition xr_run :: "(u64 \<times> disk) \<times> (RewindError + unit)" where
  "xr_run = run_rewind xr_env wit_json 1 1 xr_args (50, xr_disk)"

lemma xr_quiet: "xr_disk\<lparr>dk_sched := []\<rparr> = xr_disk"
  by (simp add: xr_disk_def)

lemma xr_load: "load wit_json (path_in []) xr_disk = Some xr_log"
  by (simp add: load_def read_file_def attempt_def xr_disk_def wit_json_ok)

lemma xr_truncated: "fst (truncate_to xr_log 30) = \<lparr>checkpoints = [wit_cp 3 20]\<rparr>" "resume_for xr_log 30 = Some (wit_cp 3 20)"
  by (simp_all add: xr_log_def truncate_to_def resume_for_def Let_def)

lemma xr_target: "rewind_target xr_args = Inr 30"
  by (simp add: rewind_target_def xr_args_def checked_sub64_def)

lemma xr_result: "snd xr_run = Inr ()"
proof -
  have "preflight xr_env wit_json xr_args xr_disk = Inr (30, 0, False, Some xr_log)"
    using xr_load xr_truncated(2) by (simp add: preflight_def xr_target boot_mode_def resume_checkpoint_for_rewind_def Let_def)
      (simp add: xr_args_def xr_env_def resume_checkpoint_for_rewind_def)
  moreover have "check_target xr_env 30 50 = (50, Inr 50)" by (simp add: check_target_def xr_env_def)
  moreover
  have "snd (truncate_log wit_json (path_in []) 1 1 (Some xr_log) 30 xr_disk) = Inr ()"
    by (simp add: truncate_log_def xr_truncated Let_def)
      (simp add: save_def path_in_def path_parent_def io_bind_def create_dir_all_def attempt_def
        xr_disk_def io_return_def Let_def io_finally_def save_body_def resume_tmp_def path_file_name_def path_join_def
        create_new_def write_all_def put_bytes_def sync_all_def rename_def remove_file_def RESUME_FILE_NAME_def sync_dir_def
        add_dirs_def dir_exists_def)
  then obtain dk' where "truncate_log wit_json (path_in []) 1 1 (Some xr_log) 30 xr_disk = (dk', Inr ())" by (metis prod.collapse)
  moreover have "ra_datadir xr_args = []" "ra_dry_run xr_args = False" "re_remove_above xr_env 30 50 = (30, True)" "re_last_block_number xr_env 30 = Some 30"
    by (simp_all add: xr_env_def xr_args_def)
  ultimately show ?thesis by (simp add: xr_run_def run_rewind_def unwind_def)
qed

theorem rewind_recoverable_witness:
  "fst (fst xr_run) = 30 \<and> resume_at wit_json (path_in []) (crash (\<lambda>_. False) (\<lambda>_. []) (snd (fst xr_run))) 30 = Some (wit_cp 3 20)
    \<and> load wit_json (path_in []) (crash (\<lambda>_. False) (\<lambda>_. []) (snd (fst xr_run))) = Some \<lparr>checkpoints = [wit_cp 3 20]\<rparr>"
proof -
  have run: "run_rewind xr_env wit_json 1 1 xr_args (50, xr_disk) = ((fst (fst xr_run), snd (fst xr_run)), Inr ())"
    using xr_result by (metis prod.collapse xr_run_def)
  have "settled (path_in []) xr_disk" "alone (path_in []) xr_disk" "path_in [] = path_in (ra_datadir xr_args)"
    by (simp_all add: settled_def alone_def xr_disk_def xr_args_def secure_def list_all_iff)
  from rewind_recoverable [OF run this xr_target wit_json_ok, where keep = "\<lambda>_. False" and junk = "\<lambda>_. []"]
  show ?thesis
    using xr_load xr_truncated by (simp add: resume_at_def xr_quiet) (simp add: xr_env_def xr_args_def)
qed

definition xm_conf :: bytes where
  "xm_conf = u64_le 1 @ u64_le 0 @ u64_le 9 @ [1] @ u64_le 5 @ u64_le 9"

definition xm_name :: string where
  "xm_name = ''static_file_account-change-sets_0_9''"

definition xm_disk :: disk where
  "xm_disk = \<lparr>dk_names = [[''sf'', xm_name] \<mapsto> 0, [''sf'', xm_name @ ''.conf''] \<mapsto> 1], dk_durable = Map.empty,
     dk_data = (\<lambda>i. if i = 1 then xm_conf else []), dk_synced = (\<lambda>_. True), dk_next = 2, dk_dirs = \<lambda>_. True, dk_durable_dirs = \<lambda>_. True, dk_sched = [Done, Done, Done, PowerLoss]\<rparr>"

definition xm_listing :: "(string \<Rightarrow> bool) \<Rightarrow> string list" where
  "xm_listing P = filter P [xm_name, xm_name @ ''.conf'', new_base ''account-change-sets'' 6 xm_conf]"

abbreviation xm_migrate :: "unit io" where
  "xm_migrate \<equiv> migrate_changeset_layout xm_listing [''sf''] 5"

theorem interrupted_migration_stuck_witness:
  "snd (xm_migrate xm_disk) = Inl PowerLost
    \<and> snd (xm_migrate (crash (\<lambda>_. True) (\<lambda>_. []) (fst (xm_migrate xm_disk)))) = Inl NotFound"
proof -
  have rd: "rd xm_conf 0 = 1" "rd xm_conf 8 = 0" "rd xm_conf 16 = 9" "rd xm_conf 25 = 5" "length xm_conf = 41" "xm_conf ! 24 = 1"
    by (simp_all add: rd_def xm_conf_def u64_le_def slice_def nth_append)
  have chars: "char_of (54 :: nat) = CHR ''6''" "char_of (57 :: nat) = CHR ''9''" by code_simp+
  have base: "new_base ''account-change-sets'' 6 xm_conf = ''static_file_account-change-sets_6_9''"
    using chars by (simp add: new_base_def seg_prefix_def rd dec.simps)
  have ex: "path_exists (path_join [''sf''] m) xm_disk \<longleftrightarrow> m = xm_name \<or> m = xm_name @ ''.conf''" for m
    by (auto simp: path_exists_def path_join_def xm_disk_def)
  have "set (xm_listing P) = {m. P m}" if "\<And>m. P m \<Longrightarrow> m = new_base ''account-change-sets'' 6 xm_conf \<or> path_exists (path_join [''sf''] m) xm_disk" for P
    using that [unfolded ex] unfolding xm_listing_def set_filter by auto
  moreover have "is_segment ''account-change-sets'' xm_name" by (simp add: is_segment_def seg_prefix_def xm_name_def)
  moreover have "m = xm_name" if "path_exists (path_join [''sf''] m) xm_disk" "is_segment ''account-change-sets'' m" for m
    using that by (auto simp: ex is_segment_def)
  ultimately have "snd (xm_migrate xm_disk) = Inl PowerLost
      \<and> xm_migrate (crash (\<lambda>_. True) (\<lambda>_. []) (fst (xm_migrate xm_disk))) = (crash (\<lambda>_. True) (\<lambda>_. []) (fst (xm_migrate xm_disk)), Inl NotFound)"
    by (intro interrupted_migration_stuck [where base = "new_base ''account-change-sets'' 6 xm_conf" and n = xm_name and conf = xm_conf
          and dk = xm_disk and i = 0 and j = 1])
      (simp_all add: mis_seeded_def rd xm_disk_def path_join_def base xm_name_def)
  then show ?thesis by simp
qed

end
