(* ===== verification/Spec2Isabelle.thy ===== *)
theory Spec2Isabelle
  imports L2_Message L1_Run Snapshot_Stream Frontier Tx_Log_Ipc Feed Trusted_L2 Engine_Driver Ingress Block_Production Block_Executor Evm_Config Rewind
begin

text \<open>
  Verification of arbitrum-reth, an Arbitrum node on reth.

  The node derives the L2 chain from L1. Sequencer batches and delayed-inbox messages are read from
  an L1 endpoint, blobs from a beacon endpoint; they are decoded, merged and numbered into one stream
  of messages. The engine driver turns every message into one block, whether it came from L1 or from
  the sequencer feed, and hands the block to reth. Resume points, divergence incidents and snapshots
  are files. Around this there are a trusted-L2 monitor, per-transaction frontiers and logs for local
  consumers, and offline commands. The theories follow this path.

  \<^bold>\<open>Shared vocabulary.\<close>
  \<^item> \<open>Prelude\<close>: machine words, byte strings, results (\<open>rbind\<close> is the operator \<open>?\<close>), slices.
  \<^item> \<open>BTree_Map\<close>: \<open>BTreeMap\<close> and \<open>BTreeSet\<close> as ordered association lists, behind the locale \<open>ordered_map\<close>.
  \<^item> \<open>Disk\<close>: files, names and directories, what of them has reached stable storage, and runs interrupted
    at any operation. A directory is an entry of the one above it and is lost with it.

  \<^bold>\<open>Derivation\<close>, \<open>crates/arb-reth-derive\<close>.
  \<^item> \<open>Batch\<close> (batch.rs): batch header, event data, payload flag, RLP segments. Framing round trips.
  \<^item> \<open>Blob\<close> (blob.rs): field elements to payload. A payload laid out over blobs decodes to itself.
  \<^item> \<open>Delayed_Inbox\<close> (message.rs, delayed.rs): messages, hashes, accumulators; the locale
    \<open>delayed_source\<close> with both of the code's sources as interpretations.
  \<^item> \<open>Multiplexer\<close> (multiplexer.rs): \<open>extract_messages\<close> is equivalent to a positional reference
    definition, on success and on every error; delayed messages appear once each and in order.
  \<^item> \<open>L2_Message\<close> (l2message.rs): the nested parser and its wire form.

  \<^bold>\<open>L1 readers\<close>, \<open>crates/arb-reth-l1\<close>.
  \<^item> \<open>L1_Assemble\<close> (lib.rs, batch_serialize.rs, feed.rs, assemble.rs): batches to feed messages,
    with the pricing of batch-posting reports.
  \<^item> \<open>L1_Reader\<close> (reader.rs, beacon.rs): batch counts and their binary search, payload resolution,
    sidecars and retries.
  \<^item> \<open>L1_Delayed\<close> (delayed.rs): delayed messages from events, with a verified accumulator chain.
  \<^item> \<open>L1_Range\<close> (sync.rs): one block range, the delayed cache and the statistics cache.

  \<^bold>\<open>Catch-up runtime\<close>, \<open>crates/arb-reth-sync\<close>.
  \<^item> \<open>Resume_Log\<close> (resume.rs): recording, compaction, choice of a boundary, crash-safe saving.
  \<^item> \<open>L1_Sync\<close> and \<open>L1_Run\<close> (l1_sync.rs): redaction, backoff, numbering, checkpoints; the main loop
    and its supervisor. A run sends consecutive indices, lays windows end to end, and after a crash
    at any point resumes at a boundary that was durable.

  \<^bold>\<open>Engine\<close>, \<open>crates/arb-reth-engine\<close> and \<open>crates/arb-reth-evm\<close>.
  \<^item> \<open>Engine_Driver\<close> (engine.rs): reconciliation of feed and L1 by sequence number, the payload
    lifecycle, settling, shutdown. One chain, independent of the order of arrival.
  \<^item> \<open>Block_Production\<close> (engine.rs, \<open>produce_with_timing\<close>): the transaction loop with scheduled
    retries, observations, and the choice of a state root.
  \<^item> \<open>Block_Executor\<close> (block.rs; stored_receipt.rs of the node): receipts, executor, assembled header,
    and the decoder of a Nitro node's stored receipts.
  \<^item> \<open>Evm_Config\<close> (config.rs, env.rs, lib.rs, rpc.rs; the base fee of engine.rs): environments of
    production and replay.
  \<^item> \<open>Frontier\<close> (tx_log_stream.rs; mev_frontier_rpc.rs of the node): the bounded store of
    post-transaction states, as an interpretation of the locale \<open>forgetful_store\<close>, and simulation.

  \<^bold>\<open>Node\<close>, \<open>crates/arb-reth-node\<close> and \<open>crates/arb-reth-genesis\<close>.
  \<^item> \<open>Ingress\<close> (launcher.rs): the scheduler over the feed's and L1's channels, admission of a finite run,
    the loop that drives the engine driver, and how a finite run is completed and awaited. Neither
    source can hold back the other, and the chain does not depend on the timing of the channels as
    long as the messages fit the driver's buffer.
  \<^item> \<open>Feed\<close> (feed.rs): sources, the first-wins race, the reconnecting follower.
  \<^item> \<open>Trusted_L2\<close> (trusted_l2.rs, the monitor of commands/node.rs): comparison and incident marker.
  \<^item> \<open>Tx_Log_Ipc\<close> (mev_tx_logs.rs): event frames and the client loop.
  \<^item> \<open>Rewind\<close> (commands/rewind.rs): refusals, changeset migration, unwind, truncated resume log.
  \<^item> \<open>Snapshot_Stream\<close> (snapshot_stream.rs): builder and checking reader of a full snapshot.

  \<^bold>\<open>How the code is rendered.\<close> A struct is a record, an enum a datatype, an operation a function of the
  same name where HOL allows it. Mutable state is passed and returned, also on errors. Integers keep
  their width, and plain arithmetic wraps as in the release profile; a panic is an error value. Code
  of other packages (brotli, RLP, keccak, ABI and JSON codecs, the EVM, the database, the engine tree)
  is an argument; what is relied on of it is a named hypothesis, and the witness of a property gives a
  concrete instance.

  \<^bold>\<open>Environment, bounds and fuel.\<close> What the outside answers is a list or a record: one \<open>tick\<close> per turn of
  the sync loop, one entry per call of a channel, one outcome per file operation. A run over a
  list of answers has no result when the list ends first, and properties of such runs hold for every
  list. The segment parser is given the length of its buffer as fuel, of which every segment uses at
  least one. The transaction loop of block production is a partial function, shown to return whenever
  retries cannot schedule each other for ever. All other loops are total functions.

  \<^bold>\<open>Not modelled.\<close>
  \<^item> Storage layout and bulk import (storage_v2.rs, persist.rs, hashed_db.rs, commands/snapshot.rs,
    snapshot_full.rs, recover.rs, dump_blocks.rs): sequences of calls to reth's database,
    static-file and trie writers, whose effect is in those packages.
  \<^item> Wiring (launcher.rs apart from ingress, addons.rs, executor.rs, pooled.rs, native_payload.rs, finite.rs, the \<open>lib.rs\<close>
    files, bin/arb-reth.rs, and commands/node.rs apart from the monitor): construction of reth
    components, task spawning and command-line parsing.
  \<^item> Genesis (genesis.rs, commands/genesis.rs, verify.rs, readers.rs, preimages.rs, arbitrum_one.rs):
    initial ArbOS state computed by \<open>arb_revm\<close>, and readers of exported files built on RLP decoders.
  \<^item> The adapters tx.rs and precompiles.rs, and the RPC conversions, which delegate field by field.
  \<^item> Metrics, logging and timing, which nothing that is modelled depends on.
\<close>

end
